(* ===== verification/Horcrux_Prelude.thy ===== *)
theory Horcrux_Prelude
  imports Main "HOL-Library.Word"
begin

text \<open>
  Shared vocabulary of the development: the C++ types the sources use and the generic facts
  about lists, words and decimal numerals on which the component theories rest.

  \<^item> A C++ \<open>char\<close> is one byte and is a HOL \<open>char\<close>; a \<open>std::string\<close> and a
    \<open>std::array<char, N>\<close> are HOL strings.
  \<^item> \<open>uint32_t\<close>, \<open>uint64_t\<close> and \<open>size_t\<close> (64 bit) are machine words; arithmetic on them
    wraps around. A \<open>std::string\<close> has fewer than \<open>2 ^ 63\<close> characters, so \<open>size()\<close> as a word
    of 64 bits is the length of the list.
  \<^item> Unsigned integers are stored little-endian, as on every platform the project builds for.
\<close>

section \<open>Types\<close>

type_synonym byte = char
type_synonym u16 = "16 word"
type_synonym u32 = "32 word"
type_synonym u64 = "64 word"
type_synonym size_t = "64 word"

named_theorems word_facts \<open>conversions between machine words and natural numbers\<close>
named_theorems range_facts \<open>facts on sub-ranges of lists\<close>

text \<open>The largest value of a signed 32 bit integer; incrementing it is undefined behaviour.\<close>

abbreviation int32_max :: u32 where
  "int32_max \<equiv> 0x7FFFFFFF"

definition string_size :: "'a list \<Rightarrow> size_t" where
  "string_size s = word_of_nat (length s)"

section \<open>Ranges of a string\<close>

text \<open>
  \<open>std::string(first, last)\<close> for two iterators of \<open>s\<close>, given as offsets from \<open>s.begin()\<close>.
  A range whose end precedes its begin, or that leaves the string, has no value.
\<close>

definition string_range :: "'a list \<Rightarrow> nat \<Rightarrow> nat \<Rightarrow> 'a list option" where
  "string_range s b e = (if b \<le> e \<and> e \<le> length s then Some (take (e - b) (drop b s)) else None)"

text \<open>\<open>std::copy\<close> of a whole range to the begin of a destination that is long enough.\<close>

definition std_copy :: "'a list \<Rightarrow> 'a list \<Rightarrow> 'a list" where
  "std_copy src dst = src @ drop (length src) dst"

text \<open>Overwriting part of a buffer: \<open>src\<close> is stored from offset \<open>off\<close> on.\<close>

definition write_at :: "nat \<Rightarrow> 'a list \<Rightarrow> 'a list \<Rightarrow> 'a list" where
  "write_at off src buf = take off buf @ src @ drop (off + length src) buf"

text \<open>\<open>resize(n)\<close>: truncate, or append copies of the default element.\<close>

definition std_resize :: "'a \<Rightarrow> nat \<Rightarrow> 'a list \<Rightarrow> 'a list" where
  "std_resize d n s = take n s @ replicate (n - length s) d"

lemma string_range_Some [range_facts]:
  "b \<le> e \<Longrightarrow> e \<le> length s \<Longrightarrow> string_range s b e = Some (take (e - b) (drop b s))"
  by (simp add: string_range_def)

lemma string_range_None [range_facts]:
  "e < b \<Longrightarrow> string_range s b e = None"
  by (simp add: string_range_def)

lemma std_copy_same_length [simp]: "length dst = length src \<Longrightarrow> std_copy src dst = src"
  by (simp add: std_copy_def)

lemma length_write_at [simp]:
  "off + length src \<le> length buf \<Longrightarrow> length (write_at off src buf) = length buf"
  by (simp add: write_at_def)

lemma take_write_at [range_facts]:
  "off + length src \<le> length buf \<Longrightarrow>
   take (off + length src) (write_at off src buf) = take off buf @ src"
  by (simp add: write_at_def)

lemma length_std_resize [simp]: "length (std_resize d n s) = n"
  by (simp add: std_resize_def)

lemma std_resize_Nil [simp]: "std_resize d n [] = replicate n d"
  by (simp add: std_resize_def)

text \<open>Consecutive pieces of a list, cut at the multiples of \<open>k\<close>.\<close>

lemma concat_pieces [range_facts]:
  "concat (map (\<lambda>i. take k (drop (i * k) s)) [0..<n]) = take (n * k) s"
proof (induction n)
  case 0
  then show ?case by simp
next
  case (Suc n)
  have "concat (map (\<lambda>i. take k (drop (i * k) s)) [0..<Suc n]) =
      take (n * k) s @ take k (drop (n * k) s)"
    using Suc.IH by simp
  also have "\<dots> = take (n * k + k) s"
    by (rule take_add [symmetric])
  finally show ?case
    by (simp add: add.commute)
qed

section \<open>Words\<close>

lemma unat_u32_less [simp]: "unat (w :: u32) < 4294967296"
  using unsigned_less [of w] by simp

lemma unat_u64_less [simp]: "unat (w :: u64) < 18446744073709551616"
  using unsigned_less [of w] by simp

lemma unat_of_nat_small [word_facts]:
  "n < 2 ^ LENGTH('a) \<Longrightarrow> unat (word_of_nat n :: 'a::len word) = n"
  by (simp add: unat_of_nat take_bit_nat_eq_self)

lemma unat_of_nat_u32 [word_facts]: "unat (word_of_nat n :: u32) = n mod 4294967296"
  by (simp add: unat_of_nat take_bit_nat_def)

lemma unat_of_nat_u64 [word_facts]: "unat (word_of_nat n :: u64) = n mod 18446744073709551616"
  by (simp add: unat_of_nat take_bit_nat_def)

lemma unat_string_size [word_facts]:
  "length s < 2 ^ 64 \<Longrightarrow> unat (string_size s) = length s"
  by (simp add: string_size_def unat_of_nat take_bit_nat_eq_self)

lemma unat_Suc_u32 [word_facts]:
  "(i :: u32) < n \<Longrightarrow> unat (i + 1) = Suc (unat i)"
  by unat_arith

lemma unat_mult_u32 [word_facts]:
  "unat (a :: u32) * unat b < 4294967296 \<Longrightarrow> unat (a * b) = unat a * unat b"
  by (simp add: unat_word_ariths)

lemma unat_ucast_u64 [word_facts]: "unat (ucast (w :: u32) :: u64) = unat w"
proof -
  have "unat w < 2 ^ 64"
    by (rule less_trans [OF unat_u32_less]) simp
  then show ?thesis
    by (simp add: unsigned_ucast_eq take_bit_nat_eq_self)
qed

lemma ucast_of_unat: "(ucast (w :: 'a::len word) :: 'b::len word) = word_of_nat (unat w)"
  by simp

lemma ucast_down_of_nat [word_facts]: "(ucast (word_of_nat n :: u64) :: u32) = word_of_nat n"
  by (simp only: word_unat_eq_iff unsigned_ucast_eq unsigned_of_nat) simp

lemma ucast_add_of_nat [word_facts]:
  "(ucast ((ucast (a :: u32) :: u64) + word_of_nat n) :: u32) = a + word_of_nat n"
proof -
  have "(ucast a :: u64) + word_of_nat n = word_of_nat (unat a + n)"
    by simp
  then show ?thesis
    by (simp only: ucast_down_of_nat) simp
qed

section \<open>Little-endian representation\<close>

fun le_bytes :: "nat \<Rightarrow> nat \<Rightarrow> byte list" where
  "le_bytes 0 x = []"
| "le_bytes (Suc k) x = char_of (x mod 256) # le_bytes k (x div 256)"

fun le_value :: "byte list \<Rightarrow> nat" where
  "le_value [] = 0"
| "le_value (b # bs) = of_char b + 256 * le_value bs"

lemma length_le_bytes [simp]: "length (le_bytes k x) = k"
  by (induction k arbitrary: x) auto

lemma of_char_char_of_mod: "of_char (char_of (x mod 256 :: nat) :: char) = x mod 256"
  by simp

lemma le_value_le_bytes: "x < 256 ^ k \<Longrightarrow> le_value (le_bytes k x) = x"
proof (induction k arbitrary: x)
  case 0
  then show ?case by simp
next
  case (Suc k)
  then have "x div 256 < 256 ^ k"
    by (simp add: less_mult_imp_div_less mult.commute)
  then show ?case
    using Suc.IH [of "x div 256"] by simp
qed

lemma le_value_bound: "le_value bs < 256 ^ length bs"
proof (induction bs)
  case (Cons b bs)
  have "le_value (b # bs) < 256 * Suc (le_value bs)"
    by simp
  also have "\<dots> \<le> 256 * 256 ^ length bs"
    using Cons.IH by (intro mult_le_mono2 Suc_leI)
  finally show ?case
    by simp
qed simp

lemma le_bytes_le_value: "le_bytes (length bs) (le_value bs) = bs"
proof (induction bs)
  case (Cons b bs)
  have b: "of_char b < (256 :: nat)"
    by simp
  then have "(of_char b + 256 * le_value bs) div 256 = le_value bs"
    and "(of_char b + 256 * le_value bs) mod 256 = of_char b"
    by simp_all
  then show ?case
    using Cons.IH by simp
qed simp

definition store_u32 :: "u32 \<Rightarrow> byte list" where
  "store_u32 w = le_bytes 4 (unat w)"

definition store_u64 :: "u64 \<Rightarrow> byte list" where
  "store_u64 w = le_bytes 8 (unat w)"

definition load_u32 :: "byte list \<Rightarrow> u32" where
  "load_u32 bs = word_of_nat (le_value (take 4 bs))"

definition load_u64 :: "byte list \<Rightarrow> u64" where
  "load_u64 bs = word_of_nat (le_value (take 8 bs))"

lemma length_store [simp]: "length (store_u32 w) = 4" "length (store_u64 v) = 8"
  by (simp_all add: store_u32_def store_u64_def)

lemma load_store_u32 [simp]: "load_u32 (store_u32 w @ rest) = w"
  by (simp add: load_u32_def store_u32_def le_value_le_bytes)

lemma load_store_u64 [simp]: "load_u64 (store_u64 w @ rest) = w"
  by (simp add: load_u64_def store_u64_def le_value_le_bytes)

end
