(* ===== verification/Horcrux_Data.thy ===== *)
theory Horcrux_Data
  imports Horcrux_Prelude
begin

text \<open>
  Model of \<open>logic/HorcruxData.hpp\<close> and \<open>logic/HorcruxData.cpp\<close>: the horcrux record, the
  checksum stub, and \<open>BasicFileSplitter\<close> with its \<open>split\<close> and \<open>join\<close>. The abstract class
  \<open>FileSplitter\<close> is the locale \<open>file_splitter\<close>; \<open>BasicFileSplitter\<close> interprets it.

  The loop of \<open>split\<close> keeps the machine arithmetic of the source: \<open>horcruxSize\<close> is truncated to
  32 bits, the offsets \<open>idx * horcruxSize\<close> wrap around at 32 bits, and incrementing a signed
  index beyond its largest value is an error.
\<close>

section \<open>Data\<close>

record HorcruxData =
  mContent :: string
  mChecksum :: string

text \<open>\<open>ChecksumInterface::getChecksum\<close> is a stub: every checksum is empty.\<close>

definition getChecksum :: "string \<Rightarrow> string" where
  "getChecksum content = ''''"

record BasicFileSplitter =
  mChecksumMethod :: "string \<Rightarrow> string"
  mNumSplits :: u32

definition make_BasicFileSplitter :: "u32 \<Rightarrow> BasicFileSplitter" where
  "make_BasicFileSplitter numSplits = \<lparr>mChecksumMethod = getChecksum, mNumSplits = numSplits\<rparr>"

text \<open>The two ways in which the loop of \<open>split\<close> leaves defined behaviour.\<close>

datatype split_error = Invalid_Range | Signed_Overflow

section \<open>Splitting\<close>

definition split_end :: "BasicFileSplitter \<Rightarrow> string \<Rightarrow> u32 \<Rightarrow> u32 \<Rightarrow> split_error + nat" where
  "split_end sp binaryData horcruxSize idx =
     (if idx \<noteq> mNumSplits sp - 1
      then if idx = int32_max then Inl Signed_Overflow
           else Inr (unat ((idx + 1) * horcruxSize))
      else Inr (length binaryData))"

function split_loop ::
  "BasicFileSplitter \<Rightarrow> string \<Rightarrow> u32 \<Rightarrow> u32 \<Rightarrow> HorcruxData list \<Rightarrow> split_error + HorcruxData list"
where
  "split_loop sp binaryData horcruxSize idx horcruxes =
     (if idx < mNumSplits sp then
        case split_end sp binaryData horcruxSize idx of
          Inl e \<Rightarrow> Inl e
        | Inr endIt \<Rightarrow>
            (case string_range binaryData (unat (idx * horcruxSize)) endIt of
               None \<Rightarrow> Inl Invalid_Range
             | Some horcruxContent \<Rightarrow>
                 let checksum = mChecksumMethod sp horcruxContent;
                     horcrux = \<lparr>mContent = horcruxContent, mChecksum = checksum\<rparr>
                 in if idx = int32_max then Inl Signed_Overflow
                    else split_loop sp binaryData horcruxSize (idx + 1) (horcruxes @ [horcrux]))
      else Inr horcruxes)"
  by pat_completeness auto
termination
  by (relation "measure (\<lambda>(sp, d, h, idx, acc). unat (mNumSplits sp) - unat idx)")
     (auto simp: unat_Suc_u32 word_less_nat_alt)

declare split_loop.simps [simp del]

definition split :: "BasicFileSplitter \<Rightarrow> string \<Rightarrow> split_error + HorcruxData list" where
  "split sp binaryData =
     (if mNumSplits sp = 0 then Inr []
      else if string_size binaryData < ucast (mNumSplits sp) then Inr []
      else let horcruxSize = ucast (string_size binaryData div ucast (mNumSplits sp)) :: u32
           in split_loop sp binaryData horcruxSize 0 [])"

section \<open>Joining\<close>

text \<open>
  The first loop only computes how much memory to reserve, in 32 bit arithmetic; \<open>reserve\<close>
  changes the capacity of the string and not its value.
\<close>

definition join_total :: "HorcruxData list \<Rightarrow> u32" where
  "join_total horcrux = foldl (\<lambda>total h. total + word_of_nat (length (mContent h))) 0 horcrux"

definition std_reserve :: "nat \<Rightarrow> string \<Rightarrow> string" where
  "std_reserve capacity s = s"

definition join :: "HorcruxData list \<Rightarrow> string" where
  "join horcrux =
     (let joinedHorcrux = std_reserve (unat (join_total horcrux)) ''''
      in foldl (\<lambda>joined h. joined @ mContent h) joinedHorcrux horcrux)"

lemma foldl_append_contents: "foldl (\<lambda>s h. s @ f h) acc hs = acc @ concat (map f hs)"
  by (induction hs arbitrary: acc) auto

lemma join_concat: "join hs = concat (map mContent hs)"
  by (simp add: join_def std_reserve_def foldl_append_contents)

section \<open>The interface FileSplitter\<close>

text \<open>
  What a user of \<open>FileSplitter\<close> relies on. \<open>accepts\<close> is the set of files the splitter can
  take apart; the pieces of such a file, put together again, are the file, and \<open>join\<close> looks at
  the contents of the pieces only.
\<close>

locale file_splitter =
  fixes split_file :: "string \<Rightarrow> 'e + HorcruxData list"
    and join_pieces :: "HorcruxData list \<Rightarrow> string"
    and accepts :: "string \<Rightarrow> bool"
    and pieces :: nat
  assumes split_accepted: "accepts d \<Longrightarrow> \<exists>hs. split_file d = Inr hs \<and> length hs = pieces \<and> join_pieces hs = d"
    and join_contents: "map mContent hs = map mContent hs' \<Longrightarrow> join_pieces hs = join_pieces hs'"
begin

lemma rejoin_reloaded:
  assumes "accepts d" and "split_file d = Inr hs"
    and "map mContent hs' = map mContent hs"
  shows "join_pieces hs' = d \<and> length hs' = pieces"
proof -
  from split_accepted [OF assms(1)] assms(2) have "join_pieces hs = d" "length hs = pieces"
    by auto
  moreover have "length hs' = length hs"
    using assms(3) by (metis length_map)
  ultimately show ?thesis
    using join_contents [OF assms(3)] by simp
qed

lemma split_file_inj:
  assumes "accepts d" "accepts d'" "split_file d = split_file d'"
  shows "d = d'"
  using split_accepted [OF assms(1)] split_accepted [OF assms(2)] assms(3) by auto

end

section \<open>The pieces of a file\<close>

text \<open>
  Reference definition: the \<open>n\<close> pieces of \<open>d\<close> are cut at the multiples of \<open>length d div n\<close>, and
  the last piece takes the remainder.
\<close>

definition piece :: "nat \<Rightarrow> string \<Rightarrow> nat \<Rightarrow> string" where
  "piece n d i = (if Suc i = n then drop (i * (length d div n)) d
                  else take (length d div n) (drop (i * (length d div n)) d))"

definition pieces_of :: "nat \<Rightarrow> string \<Rightarrow> string list" where
  "pieces_of n d = map (piece n d) [0..<n]"

text \<open>
  The files that \<open>split\<close> handles without leaving defined behaviour: the offset of the last
  piece fits in 32 bits. Every file below 4 GiB is among them.
\<close>

definition splittable :: "u32 \<Rightarrow> string \<Rightarrow> bool" where
  "splittable n d \<longleftrightarrow> 0 < n \<and> n \<le> int32_max \<and> unat n \<le> length d \<and> length d < 2 ^ 63 \<and>
     (unat n - 1) * (length d div unat n) < 2 ^ 32"

lemma concat_pieces_of:
  assumes "0 < n"
  shows "concat (pieces_of n d) = d"
proof -
  define k where "k = length d div n"
  have split_n: "[0..<n] = [0..<n - 1] @ [n - 1]"
    using assms by (metis Suc_pred' upt_Suc_append zero_le)
  have "map (piece n d) [0..<n - 1] = map (\<lambda>i. take k (drop (i * k) d)) [0..<n - 1]"
    by (auto simp: piece_def k_def)
  then have "concat (map (piece n d) [0..<n - 1]) = take ((n - 1) * k) d"
    by (simp only: concat_pieces)
  moreover have "piece n d (n - 1) = drop ((n - 1) * k) d"
    using assms by (simp add: piece_def k_def)
  ultimately show ?thesis
    unfolding pieces_of_def split_n by simp
qed

lemma length_piece:
  assumes "i < n"
  shows "length (piece n d i) =
    (if Suc i = n then length d div n + length d mod n else length d div n)"
proof -
  define k where "k = length d div n"
  have total: "length d = n * k + length d mod n"
    by (simp add: k_def)
  show ?thesis
  proof (cases "Suc i = n")
    case True
    have "length d - i * k = k + length d mod n"
      using total True by (metis add.assoc add_diff_cancel_left' mult_Suc add.commute)
    with True show ?thesis
      by (simp add: piece_def k_def [symmetric])
  next
    case False
    then have "Suc i * k \<le> n * k"
      using assms by (intro mult_le_mono1) simp
    then have "k \<le> length d - i * k"
      using total by simp
    with False show ?thesis
      by (simp add: piece_def k_def [symmetric])
  qed
qed

section \<open>Correctness of the loop\<close>

definition horcrux_of :: "BasicFileSplitter \<Rightarrow> string \<Rightarrow> HorcruxData" where
  "horcrux_of sp c = \<lparr>mContent = c, mChecksum = mChecksumMethod sp c\<rparr>"

lemma split_offset:
  assumes ok: "splittable n d" and i: "i \<le> n - 1"
    and h: "h = (word_of_nat (length d div unat n) :: u32)"
  shows "unat (i * h) = unat i * (length d div unat n)"
proof (cases "n = 1")
  case True
  with i show ?thesis by simp
next
  case False
  define k where "k = length d div unat n"
  have n: "0 < n" and last: "(unat n - 1) * k < 2 ^ 32"
    using ok by (auto simp: splittable_def k_def)
  have un: "unat (n - 1) = unat n - 1"
    using n by unat_arith
  have "unat n \<noteq> 1"
    using False by unat_arith
  moreover have "0 < unat n"
    using n by unat_arith
  ultimately have "1 \<le> unat n - 1"
    by simp
  then have "k \<le> (unat n - 1) * k"
    by (cases "unat n - 1") auto
  with last have "k < 2 ^ 32"
    by (rule le_less_trans [rotated])
  then have "unat h = k"
    by (simp add: h k_def [symmetric] unat_of_nat_u32)
  moreover have "unat i * k \<le> (unat n - 1) * k"
    using i un by (intro mult_le_mono1) (simp add: word_le_nat_alt)
  ultimately have "unat i * unat h < 4294967296"
    using last by (simp only:) (rule le_less_trans, assumption, simp)
  with \<open>unat h = k\<close> show ?thesis
    by (simp add: unat_mult_u32 k_def)
qed

lemma split_step:
  assumes ok: "splittable (mNumSplits sp) d" and i: "idx < mNumSplits sp"
    and h: "h = (word_of_nat (length d div unat (mNumSplits sp)) :: u32)"
  shows "split_loop sp d h idx acc =
    split_loop sp d h (idx + 1) (acc @ [horcrux_of sp (piece (unat (mNumSplits sp)) d (unat idx))])"
proof -
  define n where "n = unat (mNumSplits sp)"
  define k where "k = length d div n"
  have idx: "idx \<le> mNumSplits sp - 1" "unat idx < n"
    using i unfolding n_def by unat_arith+
  have n: "0 < n" "mNumSplits sp \<le> int32_max"
    using ok by (auto simp: splittable_def n_def word_less_nat_alt)
  then have no_overflow: "idx \<noteq> int32_max"
    using i by auto
  have b: "unat (idx * h) = unat idx * k"
    using split_offset [OF ok idx(1) h] by (simp add: k_def n_def)
  have kn: "n * k \<le> length d"
    by (simp add: k_def)
  have within: "j * k \<le> length d" if "j \<le> n" for j
    using mult_le_mono1 [OF that] kn by (rule le_trans)
  have bound: "unat idx * k \<le> length d"
    using idx(2) by (intro within) simp
  show ?thesis
  proof (cases "idx = mNumSplits sp - 1")
    case True
    then have "Suc (unat idx) = n"
      using n(1) unfolding n_def by unat_arith
    with True show ?thesis
      using i no_overflow bound b
      by (subst split_loop.simps)
         (simp add: split_end_def string_range_Some horcrux_of_def piece_def n_def k_def)
  next
    case False
    then have "idx + 1 \<le> mNumSplits sp - 1"
      using i by unat_arith
    from split_offset [OF ok this h] have e: "unat ((idx + 1) * h) = Suc (unat idx) * k"
      using i by (simp add: unat_Suc_u32 k_def n_def)
    have "Suc (unat idx) \<noteq> n"
      using False i unfolding n_def by unat_arith
    moreover have "Suc (unat idx) * k \<le> length d"
      using idx(2) by (intro within) simp
    ultimately show ?thesis
      using False i no_overflow b e
      by (subst split_loop.simps)
         (simp add: split_end_def string_range_Some horcrux_of_def piece_def n_def k_def)
  qed
qed

lemma split_loop_pieces:
  assumes ok: "splittable (mNumSplits sp) d"
    and h: "h = (word_of_nat (length d div unat (mNumSplits sp)) :: u32)"
    and "idx \<le> mNumSplits sp"
  shows "split_loop sp d h idx acc = Inr (acc @
    map (\<lambda>i. horcrux_of sp (piece (unat (mNumSplits sp)) d i)) [unat idx..<unat (mNumSplits sp)])"
  using assms(3)
proof (induction "unat (mNumSplits sp) - unat idx" arbitrary: idx acc)
  case 0
  then have "idx = mNumSplits sp"
    by unat_arith
  then show ?case
    by (subst split_loop.simps) simp
next
  case (Suc m)
  then have i: "idx < mNumSplits sp"
    by unat_arith
  then have "m = unat (mNumSplits sp) - unat (idx + 1)" "idx + 1 \<le> mNumSplits sp"
    using Suc.hyps(2) by (auto simp: unat_Suc_u32 word_le_nat_alt word_less_nat_alt)
  from Suc.hyps(1) [OF this] split_step [OF ok i h] show ?case
    using i by (simp add: unat_Suc_u32 word_less_nat_alt upt_conv_Cons)
qed

lemma split_size_div:
  assumes "length d < 2 ^ 63"
  shows "(ucast (string_size d div ucast (n :: u32)) :: u32) = word_of_nat (length d div unat n)"
proof -
  have "unat (string_size d div ucast n) = length d div unat n"
    using assms by (simp add: unat_div unat_string_size unat_ucast_u64)
  then show ?thesis
    by (metis ucast_of_unat)
qed

section \<open>What split and join guarantee\<close>

lemma split_pieces_of:
  assumes "splittable n d"
  shows "split (make_BasicFileSplitter n) d =
    Inr (map (\<lambda>c. \<lparr>mContent = c, mChecksum = ''''\<rparr>) (pieces_of (unat n) d))"
proof -
  let ?sp = "make_BasicFileSplitter n"
  have n: "n \<noteq> 0" "unat n \<le> length d" "length d < 2 ^ 63"
    using assms by (auto simp: splittable_def)
  then have "\<not> string_size d < ucast n"
    by (simp add: word_less_nat_alt unat_string_size unat_ucast_u64)
  with n have "split ?sp d = split_loop ?sp d (word_of_nat (length d div unat n)) 0 []"
    by (simp add: split_def make_BasicFileSplitter_def Let_def split_size_div)
  also have "\<dots> = Inr (map (\<lambda>i. horcrux_of ?sp (piece (unat n) d i)) [0..<unat n])"
    using assms split_loop_pieces [of ?sp d _ 0 "[]"] by (simp add: make_BasicFileSplitter_def)
  finally show ?thesis
    by (simp add: pieces_of_def horcrux_of_def make_BasicFileSplitter_def getChecksum_def comp_def)
qed

lemma splittable_below_4GiB:
  assumes "0 < n" "n \<le> int32_max" "unat n \<le> length d" "length d < 2 ^ 32"
  shows "splittable n d"
proof -
  have "(unat n - 1) * (length d div unat n) \<le> unat n * (length d div unat n)"
    by (intro mult_le_mono1) simp
  also have "\<dots> \<le> length d"
    by simp
  finally show ?thesis
    using assms by (simp add: splittable_def)
qed

interpretation basic_splitter:
  file_splitter "split (make_BasicFileSplitter n)" join "splittable n" "unat n" for n :: u32
proof
  fix d assume ok: "splittable n d"
  then have "0 < unat n"
    by (simp add: splittable_def word_less_nat_alt)
  with split_pieces_of [OF ok]
  show "\<exists>hs. split (make_BasicFileSplitter n) d = Inr hs \<and> length hs = unat n \<and> join hs = d"
    by (simp add: join_concat comp_def concat_pieces_of) (simp add: pieces_of_def)
next
  fix hs hs' :: "HorcruxData list"
  assume "map mContent hs = map mContent hs'"
  then show "join hs = join hs'"
    by (simp add: join_concat)
qed

text \<open>
  C14. \<open>BasicFileSplitter::split\<close> followed by \<open>join\<close> restores the file, also when the pieces
  have been stored and reloaded and come back with other checksums. There are exactly
  \<open>numSplits\<close> pieces; all have \<open>size / numSplits\<close> bytes but the last, which also holds the
  remainder. This is for every file whose last offset fits in 32 bits.
\<close>

theorem split_join_roundtrip:
  assumes "splittable n d"
  shows "\<exists>hs. split (make_BasicFileSplitter n) d = Inr hs \<and> length hs = unat n \<and>
    (\<forall>i<unat n. length (mContent (hs ! i)) =
       (if Suc i = unat n then length d div unat n + length d mod unat n
        else length d div unat n)) \<and>
    (\<forall>hs'. map mContent hs' = map mContent hs \<longrightarrow> join hs' = d)"
proof -
  obtain hs where hs: "split (make_BasicFileSplitter n) d = Inr hs"
    and contents: "map mContent hs = pieces_of (unat n) d"
    using split_pieces_of [OF assms] by (simp add: comp_def)
  have len: "length hs = unat n"
    using arg_cong [OF contents, of length] by (simp add: pieces_of_def)
  have "mContent (hs ! i) = piece (unat n) d i" if "i < unat n" for i
    using that arg_cong [OF contents, of "\<lambda>xs. xs ! i"] len by (simp add: pieces_of_def)
  with len hs basic_splitter.rejoin_reloaded [OF assms hs] show ?thesis
    by (auto simp: length_piece)
qed

theorem split_join_roundtrip_witness:
  "\<exists>hs. split (make_BasicFileSplitter 4) ''AABBCCDD###'' = Inr hs \<and> length hs = 4 \<and> join hs = ''AABBCCDD###''"
proof -
  have "splittable 4 ''AABBCCDD###''"
    by (simp add: splittable_def)
  from split_join_roundtrip [OF this] show ?thesis
    by auto
qed

text \<open>
  The functional behaviour of \<open>split\<close> on every file below 4 GiB: no pieces when the
  number of splits is 0 or exceeds the size of the file, otherwise exactly the pieces of the
  reference definition, in order, each with the stub checksum.
\<close>

lemma split_functional:
  assumes "length d < 2 ^ 32" and "n \<le> int32_max"
  shows "split (make_BasicFileSplitter n) d =
    (if n = 0 \<or> length d < unat n then Inr []
     else Inr (map (\<lambda>c. \<lparr>mContent = c, mChecksum = getChecksum c\<rparr>) (pieces_of (unat n) d)))"
proof (cases "n = 0 \<or> length d < unat n")
  case True
  moreover have "string_size d < ucast n" if "length d < unat n"
    using assms that by (simp add: word_less_nat_alt unat_string_size unat_ucast_u64)
  ultimately show ?thesis
    by (auto simp: split_def make_BasicFileSplitter_def)
next
  case False
  then have "splittable n d"
    using assms by (intro splittable_below_4GiB) (auto simp: word_neq_0_conv)
  with False show ?thesis
    by (simp add: split_pieces_of getChecksum_def)
qed

lemma split_functional_example:
  "split (make_BasicFileSplitter 3) ''abcdefg'' =
    Inr [\<lparr>mContent = ''ab'', mChecksum = ''''\<rparr>, \<lparr>mContent = ''cd'', mChecksum = ''''\<rparr>,
         \<lparr>mContent = ''efg'', mChecksum = ''''\<rparr>] \<and>
   split (make_BasicFileSplitter 0) ''abcdefg'' = Inr [] \<and>
   split (make_BasicFileSplitter 8) ''abcdefg'' = Inr []"
proof -
  have "pieces_of 3 ''abcdefg'' = [''ab'', ''cd'', ''efg'']"
    by code_simp
  then show ?thesis
    using split_functional [of "''abcdefg''" 3] split_functional [of "''abcdefg''" 0]
      split_functional [of "''abcdefg''" 8]
    by (simp add: getChecksum_def)
qed

text \<open>
  C37. Above 4 GiB the 32 bit offsets wrap around: cutting any file of 6 GiB into three pieces
  gives the second piece an end that precedes its begin, and \<open>split\<close> leaves defined behaviour.
\<close>

theorem split_6GiB_invalid_range:
  assumes "length d = 3 * 2 ^ 31"
  shows "split (make_BasicFileSplitter 3) d = Inl Invalid_Range"
proof -
  let ?sp = "make_BasicFileSplitter 3"
  let ?h = "0x80000000 :: u32"
  have num: "mNumSplits ?sp = 3"
    by (simp add: make_BasicFileSplitter_def)
  have size: "string_size d = 6442450944"
    using assms by (simp add: string_size_def)
  have first: "split_loop ?sp d ?h 0 [] = split_loop ?sp d ?h 1 [horcrux_of ?sp (take (2 ^ 31) d)]"
    using assms by (subst split_loop.simps)
      (simp add: num split_end_def string_range_Some horcrux_of_def)
  have "split_loop ?sp d ?h 1 acc = Inl Invalid_Range" for acc
    by (subst split_loop.simps) (simp add: num split_end_def string_range_None)
  with first show ?thesis
    by (simp add: split_def num size)
qed

theorem split_6GiB_invalid_range_witness:
  "split (make_BasicFileSplitter 3) (replicate (3 * 2 ^ 31) CHR ''x'') = Inl Invalid_Range"
  by (rule split_6GiB_invalid_range) (rule length_replicate)

end
