(* ===== verification/Utils.thy ===== *)
theory Utils
  imports Horcrux_Prelude
begin

unbundle bit_operations_syntax

text \<open>
  Model of \<open>logic/Utils.hpp\<close> and \<open>logic/Utils.cpp\<close>: the header (de)serialisation templates, the
  logger, loading and saving of files, the parser of the client's command line and the
  generator of file identifiers, with what these use of the standard library
  (\<open>std::to_string\<close>, \<open>std::stoi\<close>, \<open>std::mt19937_64\<close>, file streams).

  The locale \<open>trivially_copyable\<close> is what the serialisation templates need of a header type; the
  locale \<open>file_store\<close> is what the rest of the program relies on when it stores files.
\<close>

section \<open>Exceptions of the standard library\<close>

datatype std_exception = Invalid_Argument | Out_Of_Range | Bad_Optional_Access

section \<open>Decimal numerals\<close>

definition digit_char :: "nat \<Rightarrow> char" where
  "digit_char d = char_of (48 + d)"

definition digit_value :: "char \<Rightarrow> nat" where
  "digit_value c = of_char c - 48"

definition is_digit :: "char \<Rightarrow> bool" where
  "is_digit c \<longleftrightarrow> 48 \<le> (of_char c :: nat) \<and> (of_char c :: nat) \<le> 57"

text \<open>\<open>std::to_string\<close> of an unsigned integer.\<close>

fun dec_string :: "nat \<Rightarrow> string" where
  "dec_string n = (if n < 10 then [digit_char n] else dec_string (n div 10) @ [digit_char (n mod 10)])"

declare dec_string.simps [simp del]

definition to_string :: "'a::len word \<Rightarrow> string" where
  "to_string w = dec_string (unat w)"

fun dec_value :: "nat \<Rightarrow> string \<Rightarrow> nat" where
  "dec_value acc [] = acc"
| "dec_value acc (c # cs) = dec_value (10 * acc + digit_value c) cs"

lemma is_digit_digit_char [simp]: "d < 10 \<Longrightarrow> is_digit (digit_char d)"
  by (simp add: is_digit_def digit_char_def)

lemma digit_value_digit_char [simp]: "d < 10 \<Longrightarrow> digit_value (digit_char d) = d"
  by (simp add: digit_value_def digit_char_def)

lemma dec_string_digits: "\<forall>c \<in> set (dec_string n). is_digit c"
proof (induction n rule: dec_string.induct)
  case (1 n)
  then show ?case
    by (subst dec_string.simps) auto
qed

lemma dec_string_nonempty: "dec_string n \<noteq> []"
  by (subst dec_string.simps) simp

lemma dec_value_append: "dec_value acc (xs @ ys) = dec_value (dec_value acc xs) ys"
  by (induction xs arbitrary: acc) auto

lemma dec_value_dec_string: "dec_value 0 (dec_string n) = n"
proof (induction n rule: dec_string.induct)
  case (1 n)
  then show ?case
    by (subst dec_string.simps) (simp add: dec_value_append)
qed

lemma dec_string_inj: "dec_string m = dec_string n \<Longrightarrow> m = n"
  by (metis dec_value_dec_string)

lemma to_string_inj: "to_string (v :: 'a::len word) = to_string w \<Longrightarrow> v = w"
  by (auto simp: to_string_def dest!: dec_string_inj intro: word_unat_eq_iff [THEN iffD2])

section \<open>std::stoi\<close>

text \<open>The characters for which \<open>isspace\<close> holds in the default locale.\<close>

definition is_space :: "char \<Rightarrow> bool" where
  "is_space c \<longleftrightarrow> (of_char c :: nat) \<in> {9, 10, 11, 12, 13, 32}"

definition stoi_sign :: "string \<Rightarrow> int \<times> string" where
  "stoi_sign s = (case s of
      c # r \<Rightarrow> if c = CHR ''-'' then (- 1, r) else if c = CHR ''+'' then (1, r) else (1, s)
    | [] \<Rightarrow> (1, s))"

text \<open>
  \<open>std::stoi\<close>: leading white space, an optional sign, then as many digits as there are; what
  follows is ignored. No digit at all is \<open>std::invalid_argument\<close>, a value outside the 32 bit
  range is \<open>std::out_of_range\<close>.
\<close>

definition stoi :: "string \<Rightarrow> std_exception + int" where
  "stoi str =
     (let (sign, rest) = stoi_sign (dropWhile is_space str);
          digits = takeWhile is_digit rest;
          v = sign * int (dec_value 0 digits)
      in if digits = [] then Inl Invalid_Argument
         else if v < - (2 ^ 31) \<or> 2 ^ 31 \<le> v then Inl Out_Of_Range
         else Inr v)"

lemma is_digit_not_space: "is_digit c \<Longrightarrow> \<not> is_space c \<and> c \<noteq> CHR ''-'' \<and> c \<noteq> CHR ''+''"
  by (auto simp: is_digit_def is_space_def)

lemma takeWhile_dec_string [simp]: "takeWhile is_digit (dec_string n) = dec_string n"
  using dec_string_digits by simp

lemma stoi_dec_string:
  "stoi (dec_string n) = (if n < 2 ^ 31 then Inr (int n) else Inl Out_Of_Range)"
proof -
  obtain c cs where s: "dec_string n = c # cs" and c: "is_digit c"
    using dec_string_nonempty [of n] dec_string_digits [of n] by (cases "dec_string n") auto
  have "stoi_sign (dropWhile is_space (dec_string n)) = (1, dec_string n)"
    using is_digit_not_space [OF c] by (simp add: s stoi_sign_def)
  then show ?thesis
    using dec_string_nonempty [of n] by (simp add: stoi_def Let_def dec_value_dec_string)
qed

lemma stoi_minus_dec_string:
  "stoi (CHR ''-'' # dec_string n) = (if n \<le> 2 ^ 31 then Inr (- int n) else Inl Out_Of_Range)"
proof -
  have "stoi_sign (dropWhile is_space (CHR ''-'' # dec_string n)) = (- 1, dec_string n)"
    by (simp add: stoi_sign_def is_space_def)
  then show ?thesis
    using dec_string_nonempty [of n] by (simp add: stoi_def Let_def dec_value_dec_string)
qed

section \<open>Serialisation of headers\<close>

text \<open>
  \<open>reinterpret_cast<const char*>(&header)\<close> gives access to the object representation of a header,
  \<open>rep\<close>, a list of \<open>sizeof(HEADER)\<close> bytes; \<open>val\<close> reads the fields back from such bytes.
  \<open>serialized\<close> is an array that the copy overwrites completely.
\<close>

definition serializeHeader :: "('h \<Rightarrow> byte list) \<Rightarrow> 'h \<Rightarrow> byte list" where
  "serializeHeader rep header =
     (let serialized = replicate (length (rep header)) CHR 0x00
      in std_copy (rep header) serialized)"

definition deserializeHeader :: "('h \<Rightarrow> byte list) \<Rightarrow> (byte list \<Rightarrow> 'h) \<Rightarrow> 'h \<Rightarrow> byte list \<Rightarrow> 'h" where
  "deserializeHeader rep val default_header binaries = val (std_copy binaries (rep default_header))"

locale trivially_copyable =
  fixes rep :: "'h \<Rightarrow> byte list"
    and val :: "byte list \<Rightarrow> 'h"
    and size_of :: nat
    and default_header :: 'h
  assumes length_rep: "length (rep h) = size_of"
    and val_rep: "val (rep h) = h"
begin

lemma serialize_length: "length (serializeHeader rep h) = size_of"
  by (simp add: serializeHeader_def length_rep)

lemma deserialize_bytes:
  "length bs = size_of \<Longrightarrow> deserializeHeader rep val default_header bs = val bs"
  by (simp add: deserializeHeader_def length_rep)

lemma deserialize_serialize:
  "deserializeHeader rep val default_header (serializeHeader rep h) = h"
  by (simp add: deserialize_bytes serialize_length)
     (simp add: serializeHeader_def val_rep)

lemma serialize_inj: "serializeHeader rep h = serializeHeader rep h' \<Longrightarrow> h = h'"
  by (metis deserialize_serialize)

end

section \<open>The logger\<close>

text \<open>The line \<open>log\<close> prints for arguments that have already been formatted.\<close>

definition log_line :: "string list \<Rightarrow> string" where
  "log_line args = ''[LOGGER] '' @ concat args @ [CHR 0x0A]"

section \<open>Files\<close>

text \<open>
  The part of a file system the program sees: the regular files by path, whether an input
  (output) stream can be opened on a path, and how many bytes still fit on the device. That a
  directory is missing shows as \<open>writable\<close> being false for the paths below it.
\<close>

record filesystem =
  files :: "string \<rightharpoonup> string"
  readable :: "string \<Rightarrow> bool"
  writable :: "string \<Rightarrow> bool"
  free_space :: nat

definition is_regular_file :: "filesystem \<Rightarrow> string \<Rightarrow> bool" where
  "is_regular_file fs path \<longleftrightarrow> files fs path \<noteq> None"

text \<open>\<open>std::filesystem::path::operator/\<close> for a relative second path.\<close>

definition path_append :: "string \<Rightarrow> string \<Rightarrow> string" where
  "path_append dir name = dir @ ''/'' @ name"

text \<open>\<open>std::ifstream::read\<close>: fills the front of the buffer with what the file has.\<close>

definition stream_read :: "string \<Rightarrow> nat \<Rightarrow> string \<Rightarrow> string" where
  "stream_read content n out = std_copy (take n content) out"

definition loadFile :: "filesystem \<Rightarrow> string \<Rightarrow> string option" where
  "loadFile fs path =
     (case files fs path of
        None \<Rightarrow> None
      | Some content \<Rightarrow>
          if \<not> readable fs path then None
          else let fileSize = length content;
                   out = std_resize CHR 0x00 fileSize ''''
               in Some (stream_read content fileSize out))"

text \<open>
  Opening the output stream creates the file; \<open>write\<close> stores as many bytes as fit. The source
  does not look at the state of the stream after \<open>write\<close>.
\<close>

definition stream_write :: "filesystem \<Rightarrow> string \<Rightarrow> string \<Rightarrow> filesystem" where
  "stream_write fs path binary =
     (let stored = take (free_space fs) binary
      in fs\<lparr>files := (files fs)(path \<mapsto> stored), free_space := free_space fs - length stored\<rparr>)"

definition saveFile :: "filesystem \<Rightarrow> string \<Rightarrow> string \<Rightarrow> bool \<times> filesystem" where
  "saveFile fs binary path =
     (if is_regular_file fs path then (False, fs)
      else if \<not> writable fs path then (False, fs)
      else (True, stream_write fs path binary))"

lemma loadFile_eq: "loadFile fs path = (if readable fs path then files fs path else None)"
  by (simp add: loadFile_def stream_read_def split: option.split)

text \<open>Saving a list of files one after the other, without looking at the results.\<close>

fun store_all :: "('fs \<Rightarrow> string \<Rightarrow> 'p \<Rightarrow> bool \<times> 'fs) \<Rightarrow> 'fs \<Rightarrow> ('p \<times> string) list \<Rightarrow> 'fs" where
  "store_all save fs [] = fs"
| "store_all save fs ((p, c) # rest) = store_all save (snd (save fs c p)) rest"

text \<open>
  What a client of the store relies on: a path that is present keeps its content for ever, a
  fresh path with enough room takes the content completely, and saving one file does not
  change what is known about the others.
\<close>

locale file_store =
  fixes save :: "'fs \<Rightarrow> string \<Rightarrow> 'p \<Rightarrow> bool \<times> 'fs"
    and load :: "'fs \<Rightarrow> 'p \<Rightarrow> string option"
    and present :: "'fs \<Rightarrow> 'p \<Rightarrow> string option"
    and usable :: "'fs \<Rightarrow> 'p \<Rightarrow> bool"
    and room :: "'fs \<Rightarrow> nat"
  assumes save_keeps: "present fs q = Some c \<Longrightarrow> present (snd (save fs b p)) q = Some c"
    and save_fresh: "present fs p = None \<Longrightarrow> usable fs p \<Longrightarrow> length b \<le> room fs \<Longrightarrow>
      fst (save fs b p) \<and> present (snd (save fs b p)) p = Some b \<and>
      room (snd (save fs b p)) = room fs - length b"
    and save_others: "q \<noteq> p \<Longrightarrow> present (snd (save fs b p)) q = present fs q"
    and save_usable: "usable (snd (save fs b p)) q = usable fs q"
    and load_present: "usable fs p \<Longrightarrow> load fs p = present fs p"
begin

lemma store_all_keeps: "present fs q = Some c \<Longrightarrow> present (store_all save fs ps) q = Some c"
proof (induction ps arbitrary: fs)
  case (Cons pc ps)
  then show ?case
    by (cases pc) (simp add: save_keeps)
qed simp

lemma store_all_others: "q \<notin> fst ` set ps \<Longrightarrow> present (store_all save fs ps) q = present fs q"
proof (induction ps arbitrary: fs)
  case (Cons pc ps)
  then show ?case
    by (cases pc) (simp add: save_others)
qed simp

lemma store_all_usable: "usable (store_all save fs ps) q = usable fs q"
proof (induction ps arbitrary: fs)
  case (Cons pc ps)
  then show ?case
    by (cases pc) (simp add: save_usable)
qed simp

lemma store_all_fresh:
  assumes "distinct (map fst ps)" "\<forall>(p, c) \<in> set ps. present fs p = None \<and> usable fs p"
    "length (concat (map snd ps)) \<le> room fs"
  shows "\<forall>(p, c) \<in> set ps. present (store_all save fs ps) p = Some c"
  using assms
proof (induction ps arbitrary: fs)
  case (Cons pc ps)
  obtain p c where pc: "pc = (p, c)"
    by (cases pc)
  let ?fs = "snd (save fs c p)"
  have this_one: "present ?fs p = Some c" "room ?fs = room fs - length c"
    using Cons.prems save_fresh [of fs p c] by (auto simp: pc)
  have other: "q \<noteq> p" if "(q, d) \<in> set ps" for q d
    using Cons.prems(1) that by (force simp: pc)
  have "\<forall>(q, d) \<in> set ps. present ?fs q = None \<and> usable ?fs q"
    using Cons.prems(2) by (auto simp: pc save_usable save_others [OF other])
  moreover have "length (concat (map snd ps)) \<le> room ?fs"
    using Cons.prems(3) this_one(2) by (simp add: pc)
  ultimately have "\<forall>(q, d) \<in> set ps. present (store_all save ?fs ps) q = Some d"
    using Cons.prems(1) by (intro Cons.IH) (simp_all add: pc)
  with this_one(1) show ?case
    by (simp add: pc store_all_keeps)
qed simp

lemma load_stored:
  assumes "distinct (map fst ps)" "\<forall>(p, c) \<in> set ps. present fs p = None \<and> usable fs p"
    "length (concat (map snd ps)) \<le> room fs" and "(p, c) \<in> set ps"
  shows "load (store_all save fs ps) p = Some c"
  using assms(2,4) bspec [OF store_all_fresh [OF assms(1-3)] assms(4)]
  by (force simp: load_present store_all_usable)

end

definition usable_path :: "filesystem \<Rightarrow> string \<Rightarrow> bool" where
  "usable_path fs p \<longleftrightarrow> readable fs p \<and> writable fs p"

interpretation disk: file_store saveFile loadFile files usable_path free_space
  by unfold_locales
    (auto simp: saveFile_def is_regular_file_def stream_write_def Let_def usable_path_def
        loadFile_eq)

section \<open>The command line of the client\<close>

record ClientSaveOptions =
  mHorcruxCount :: u32
  mInputPath :: string

text \<open>
  \<open>argc\<close> is the number of entries of \<open>argv\<close>. \<open>std::invalid_argument\<close> is caught; any other
  exception of \<open>std::stoi\<close> leaves the function.
\<close>

definition parseHorcruxCommand :: "string list \<Rightarrow> std_exception + ClientSaveOptions option" where
  "parseHorcruxCommand argv =
     (if length argv \<noteq> 5 then Inr None
      else if argv ! 1 \<noteq> ''save'' then Inr None
      else if argv ! 2 \<noteq> ''-n'' then Inr None
      else case stoi (argv ! 3) of
             Inl Invalid_Argument \<Rightarrow> Inr None
           | Inl e \<Rightarrow> Inl e
           | Inr v \<Rightarrow> Inr (Some \<lparr>mHorcruxCount = word_of_int v, mInputPath = argv ! 4\<rparr>))"

section \<open>File identifiers\<close>

text \<open>
  \<open>std::mt19937_64\<close>: the state is filled from the seed by a linear recurrence, and the first
  output depends on the words 0, 1 and 156 of it. A uniform distribution over all 64 bit values
  returns the output unchanged.
\<close>

fun mt64_state :: "u64 \<Rightarrow> nat \<Rightarrow> u64" where
  "mt64_state seed 0 = seed"
| "mt64_state seed (Suc i) =
     (let p = mt64_state seed i
      in 6364136223846793005 * (p XOR drop_bit 62 p) + word_of_nat (Suc i))"

definition mt64_twist :: "u64 \<Rightarrow> u64 \<Rightarrow> u64 \<Rightarrow> u64" where
  "mt64_twist upper lower m =
     (let x = (upper AND 0xFFFFFFFF80000000) OR (lower AND 0x7FFFFFFF)
      in m XOR drop_bit 1 x XOR (if x AND 1 = 1 then 0xB5026F5AA96619E9 else 0))"

definition mt64_temper :: "u64 \<Rightarrow> u64" where
  "mt64_temper y0 =
     (let y1 = y0 XOR (drop_bit 29 y0 AND 0x5555555555555555);
          y2 = y1 XOR (push_bit 17 y1 AND 0x71D67FFFEDA60000);
          y3 = y2 XOR (push_bit 37 y2 AND 0xFFF7EEE000000000)
      in y3 XOR drop_bit 43 y3)"

definition mt64_first :: "u64 \<Rightarrow> u64" where
  "mt64_first seed =
     mt64_temper (mt64_twist (mt64_state seed 0) (mt64_state seed 1) (mt64_state seed 156))"

text \<open>\<open>rd\<close> is the value of \<open>std::random_device\<close>, an \<open>unsigned int\<close>.\<close>

definition generateRandomUint64 :: "u32 \<Rightarrow> u64" where
  "generateRandomUint64 rd = mt64_first (ucast rd)"

text \<open>Saving to paths that all exist changes nothing.\<close>

lemma store_all_existing:
  "(\<And>p b. (p, b) \<in> set pbs \<Longrightarrow> files fs p \<noteq> None) \<Longrightarrow> store_all saveFile fs pbs = fs"
  by (induction pbs) (fastforce simp: saveFile_def is_regular_file_def)+

section \<open>Properties\<close>

text \<open>
  C17. \<open>saveFile\<close> and \<open>loadFile\<close>, on every branch. Saving changes no other path, and never a file that
  exists. It reports failure exactly when the path is already a regular file or cannot be opened, and
  then changes nothing; otherwise the path holds as much of the data as fits on the device.
  Loading gives nothing exactly when the path is not a regular file or cannot be opened, and
  otherwise the content of the file; loading a file that was saved returns the data itself when there was
  room, and what was stored of it when there was not.
\<close>

theorem saveFile_loadFile:
  "(\<forall>q. q \<noteq> p \<or> files fs q \<noteq> None \<longrightarrow> files (snd (saveFile fs b p)) q = files fs q) \<and>
   (fst (saveFile fs b p) \<longleftrightarrow> files fs p = None \<and> writable fs p) \<and>
   (\<not> fst (saveFile fs b p) \<longrightarrow> snd (saveFile fs b p) = fs) \<and>
   (fst (saveFile fs b p) \<longrightarrow> files (snd (saveFile fs b p)) p = Some (take (free_space fs) b)) \<and>
   (loadFile fs p = None \<longleftrightarrow> files fs p = None \<or> \<not> readable fs p) \<and>
   (\<forall>c. files fs p = Some c \<and> readable fs p \<longrightarrow> loadFile fs p = Some c) \<and>
   (files fs p = None \<longrightarrow> usable_path fs p \<longrightarrow>
      loadFile (snd (saveFile fs b p)) p = Some (take (free_space fs) b) \<and>
      (length b \<le> free_space fs \<longrightarrow> loadFile (snd (saveFile fs b p)) p = Some b))"
proof -
  have "loadFile (snd (saveFile fs b p)) p = Some b"
    if "files fs p = None" "usable_path fs p" "length b \<le> free_space fs"
    using disk.load_stored [of "[(p, b)]" fs p b] that by simp
  moreover have "files (snd (saveFile fs b p)) q = files fs q" if "q \<noteq> p \<or> files fs q \<noteq> None" for q
    using that by (auto simp: saveFile_def is_regular_file_def stream_write_def Let_def)
  moreover have "loadFile (snd (saveFile fs b p)) p = Some (take (free_space fs) b)"
    if "files fs p = None" "usable_path fs p"
    using that by (simp add: loadFile_eq saveFile_def is_regular_file_def stream_write_def usable_path_def Let_def)
  ultimately show ?thesis
    by (auto simp: saveFile_def is_regular_file_def stream_write_def loadFile_eq Let_def)
qed

definition empty_disk :: filesystem where
  "empty_disk = \<lparr>files = Map.empty, readable = (\<lambda>_. True), writable = (\<lambda>_. True),
     free_space = 10 ^ 9\<rparr>"

theorem saveFile_loadFile_witness:
  "loadFile (snd (saveFile empty_disk ''AAAABBBBCCCCDDDD'' ''outfile.test'')) ''outfile.test'' =
     Some ''AAAABBBBCCCCDDDD'' \<and>
   \<not> fst (saveFile (snd (saveFile empty_disk ''a'' ''f'')) ''b'' ''f'')"
proof -
  have "usable_path empty_disk ''outfile.test''" "files empty_disk ''outfile.test'' = None"
    "16 \<le> free_space empty_disk"
    by (simp_all add: usable_path_def empty_disk_def)
  moreover have "files (snd (saveFile empty_disk ''a'' ''f'')) ''f'' = Some ''a''"
    by (simp add: saveFile_def is_regular_file_def empty_disk_def stream_write_def)
  ultimately show ?thesis
    using saveFile_loadFile [of "''outfile.test''" empty_disk "''AAAABBBBCCCCDDDD''"]
      saveFile_loadFile [of "''f''" "snd (saveFile empty_disk ''a'' ''f'')" "''b''"]
    by simp
qed

text \<open>
  A full device goes unnoticed: \<open>saveFile\<close> does not check the stream after writing and
  reports success although the stored file is a proper prefix of the data.
\<close>

lemma saveFile_short_write_unnoticed:
  assumes "files fs p = None" "writable fs p" "free_space fs < length b"
  shows "fst (saveFile fs b p) \<and> files (snd (saveFile fs b p)) p = Some (take (free_space fs) b) \<and>
    take (free_space fs) b \<noteq> b"
proof -
  have "length (take (free_space fs) b) \<noteq> length b"
    using assms(3) by simp
  then show ?thesis
    using assms by (auto simp: saveFile_def is_regular_file_def stream_write_def Let_def)
qed

lemma saveFile_short_write_unnoticed_example:
  "fst (saveFile (empty_disk\<lparr>free_space := 3\<rparr>) ''data'' ''f'') \<and>
   files (snd (saveFile (empty_disk\<lparr>free_space := 3\<rparr>) ''data'' ''f'')) ''f'' = Some ''dat''"
  using saveFile_short_write_unnoticed [of "empty_disk\<lparr>free_space := 3\<rparr>" "''f''" "''data''"]
  by (simp add: empty_disk_def)

text \<open>
  C18. The command line \<open>save -n <count> <path>\<close>: a command that is accepted has exactly five
  words with \<open>save\<close> and \<open>-n\<close> in their places, and the count is the value of its fourth word
  taken modulo \<open>2 ^ 32\<close>; every count below \<open>2 ^ 31\<close> in decimal notation is read back exactly.
\<close>

theorem parseHorcruxCommand_correct:
  "(\<forall>argv opt. parseHorcruxCommand argv = Inr (Some opt) \<longrightarrow>
      length argv = 5 \<and> argv ! 1 = ''save'' \<and> argv ! 2 = ''-n'' \<and> mInputPath opt = argv ! 4 \<and>
      (\<exists>v. stoi (argv ! 3) = Inr v \<and> int (unat (mHorcruxCount opt)) = v mod 2 ^ 32)) \<and>
   (\<forall>prog count path. count < 2 ^ 31 \<longrightarrow>
      parseHorcruxCommand [prog, ''save'', ''-n'', dec_string count, path] =
        Inr (Some \<lparr>mHorcruxCount = word_of_nat count, mInputPath = path\<rparr>))"
  by (auto simp: parseHorcruxCommand_def stoi_dec_string take_bit_eq_mod uint_word_of_int
      split: if_splits sum.splits std_exception.splits)

theorem parseHorcruxCommand_correct_witness:
  "parseHorcruxCommand [''./horcrux'', ''save'', ''-n'', dec_string 15, ''pic.png''] =
     Inr (Some \<lparr>mHorcruxCount = 15, mInputPath = ''pic.png''\<rparr>)"
  using parseHorcruxCommand_correct by simp

text \<open>
  C38. Two inputs the parser does not treat as its messages announce: a negative count is
  accepted and becomes a huge one, and a count beyond the \<open>int\<close> range raises
  \<open>std::out_of_range\<close>, which only \<open>std::invalid_argument\<close> being caught leaves the function.
\<close>

theorem parseHorcruxCommand_bad_counts:
  "(\<forall>prog path count. 0 < count \<and> count \<le> 2 ^ 31 \<longrightarrow>
      parseHorcruxCommand [prog, ''save'', ''-n'', CHR ''-'' # dec_string count, path] =
        Inr (Some \<lparr>mHorcruxCount = word_of_nat (2 ^ 32 - count), mInputPath = path\<rparr>)) \<and>
   (\<forall>prog path count. 2 ^ 31 \<le> count \<longrightarrow>
      parseHorcruxCommand [prog, ''save'', ''-n'', dec_string count, path] = Inl Out_Of_Range)"
proof -
  have "(word_of_int (- int count) :: u32) = word_of_nat (2 ^ 32 - count)" if "count \<le> 2 ^ 31" for count
  proof -
    have "int (2 ^ 32 - count) = 2 ^ 32 - int count"
      using that by (simp add: of_nat_diff)
    then have "(word_of_nat (2 ^ 32 - count) :: u32) = word_of_int (2 ^ 32 - int count)"
      by (metis of_int_of_nat_eq)
    also have "\<dots> = word_of_int (- int count)"
      by (simp add: of_int_diff)
    finally show ?thesis
      by simp
  qed
  then show ?thesis
    by (simp add: parseHorcruxCommand_def stoi_dec_string stoi_minus_dec_string)
qed

theorem parseHorcruxCommand_bad_counts_witness:
  "parseHorcruxCommand [''./horcrux'', ''save'', ''-n'', CHR ''-'' # dec_string 1, ''pic.png''] =
     Inr (Some \<lparr>mHorcruxCount = 4294967295, mInputPath = ''pic.png''\<rparr>) \<and>
   parseHorcruxCommand [''./horcrux'', ''save'', ''-n'', dec_string 3000000000, ''pic.png''] =
     Inl Out_Of_Range"
proof -
  have "parseHorcruxCommand [''./horcrux'', ''save'', ''-n'', CHR ''-'' # dec_string 1, ''pic.png''] =
     Inr (Some \<lparr>mHorcruxCount = word_of_nat (2 ^ 32 - 1), mInputPath = ''pic.png''\<rparr>)"
    by (rule parseHorcruxCommand_bad_counts [THEN conjunct1, rule_format]) simp
  moreover have "parseHorcruxCommand [''./horcrux'', ''save'', ''-n'', dec_string 3000000000, ''pic.png''] =
     Inl Out_Of_Range"
    by (rule parseHorcruxCommand_bad_counts [THEN conjunct2, rule_format]) simp
  ultimately show ?thesis
    by simp
qed

text \<open>
  The file identifiers are 64 bit numbers but at most \<open>2 ^ 32\<close> of them can ever be drawn,
  since the generator is seeded with one 32 bit value.
\<close>

theorem generateRandomUint64_range: "card (range generateRandomUint64) \<le> 2 ^ 32"
proof -
  have "card (range generateRandomUint64) \<le> card (UNIV :: u32 set)"
    by (rule card_image_le) simp
  then show ?thesis
    by (simp add: card_word)
qed

end
