(* ===== verification/Requests.thy ===== *)
theory Requests
  imports Horcrux_Data Utils
begin

text \<open>
  Model of \<open>networking/Requests.hpp\<close> and \<open>networking/Requests.cpp\<close>: the two headers of the save
  protocol with their memory layout, the requests built from the horcruxes of a file, and the
  text the logger prints for a header.

  Layout (x86-64 ABI): \<open>PreRequestHeader\<close> has 16 bytes and no padding; \<open>Request::Header\<close> has 20
  bytes of fields and 4 bytes of padding at its end, whose values are not determined by the
  fields and are a parameter \<open>pad\<close> of the model.
\<close>

section \<open>Headers\<close>

record PreRequestHeader =
  mUuid :: u64
  mTotalSize :: u32
  mNumHorcruxes :: u32

record RequestHeader =
  mReqUuid :: u64
  mIndex :: u32
  mContentSize :: u32
  mChecksumSize :: u32

record Request =
  mHeader :: RequestHeader
  mReqContent :: string
  mReqChecksum :: string

definition default_PreRequestHeader :: PreRequestHeader where
  "default_PreRequestHeader = \<lparr>mUuid = 0, mTotalSize = 0, mNumHorcruxes = 0\<rparr>"

definition default_RequestHeader :: RequestHeader where
  "default_RequestHeader = \<lparr>mReqUuid = 0, mIndex = 0, mContentSize = 0, mChecksumSize = 0\<rparr>"

section \<open>Memory layout\<close>

definition pre_rep :: "PreRequestHeader \<Rightarrow> byte list" where
  "pre_rep h = store_u64 (mUuid h) @ store_u32 (mTotalSize h) @ store_u32 (mNumHorcruxes h)"

definition pre_val :: "byte list \<Rightarrow> PreRequestHeader" where
  "pre_val bs = \<lparr>mUuid = load_u64 bs, mTotalSize = load_u32 (drop 8 bs),
     mNumHorcruxes = load_u32 (drop 12 bs)\<rparr>"

type_synonym padding = "byte \<times> byte \<times> byte \<times> byte"

definition pad_bytes :: "padding \<Rightarrow> byte list" where
  "pad_bytes pad = (case pad of (a, b, c, d) \<Rightarrow> [a, b, c, d])"

definition req_rep :: "padding \<Rightarrow> RequestHeader \<Rightarrow> byte list" where
  "req_rep pad h = store_u64 (mReqUuid h) @ store_u32 (mIndex h) @ store_u32 (mContentSize h) @
     store_u32 (mChecksumSize h) @ pad_bytes pad"

definition req_val :: "byte list \<Rightarrow> RequestHeader" where
  "req_val bs = \<lparr>mReqUuid = load_u64 bs, mIndex = load_u32 (drop 8 bs),
     mContentSize = load_u32 (drop 12 bs), mChecksumSize = load_u32 (drop 16 bs)\<rparr>"

definition sizeof_PreRequestHeader :: nat where
  "sizeof_PreRequestHeader = 16"

definition sizeof_RequestHeader :: nat where
  "sizeof_RequestHeader = 24"

lemma length_pad_bytes [simp]: "length (pad_bytes pad) = 4"
  by (simp add: pad_bytes_def split: prod.split)

lemma drop_store:
  "drop 8 (store_u64 w @ bs) = bs" "drop 12 (store_u64 w @ bs) = drop 4 bs"
  "drop 16 (store_u64 w @ bs) = drop 8 bs" "drop 4 (store_u32 v @ bs) = bs"
  "drop 8 (store_u32 v @ bs) = drop 4 bs"
  by simp_all

lemma load_store_end [simp]: "load_u32 (store_u32 w) = w"
  using load_store_u32 [of w "[]"] by simp

interpretation pre_header:
  trivially_copyable pre_rep pre_val sizeof_PreRequestHeader default_PreRequestHeader
  by unfold_locales
    (simp_all add: pre_rep_def pre_val_def sizeof_PreRequestHeader_def drop_store)

interpretation req_header:
  trivially_copyable "req_rep pad" req_val sizeof_RequestHeader default_RequestHeader
  for pad :: padding
  by unfold_locales
    (simp_all add: req_rep_def req_val_def sizeof_RequestHeader_def drop_store)

section \<open>Text for the logger\<close>

definition show_PreRequestHeader :: "PreRequestHeader \<Rightarrow> string" where
  "show_PreRequestHeader header =
     ''UUID: '' @ to_string (mUuid header) @ '', '' @
     ''TOTAL_SIZE: '' @ to_string (mTotalSize header) @
     '' NUM_HORCRUXES: '' @ to_string (mNumHorcruxes header)"

definition show_RequestHeader :: "RequestHeader \<Rightarrow> string" where
  "show_RequestHeader header =
     ''UUID: '' @ to_string (mReqUuid header) @ '', '' @
     ''INDEX: '' @ to_string (mIndex header) @ '', '' @
     ''SIZE: '' @ to_string (mContentSize header) @ '', '' @
     ''CHECKSUM_SIZE: '' @ to_string (mChecksumSize header)"

section \<open>Requests from horcruxes\<close>

text \<open>The size of a content, a \<open>size_t\<close>, is added to a 32 bit field.\<close>

definition pre_add_size :: "PreRequestHeader \<Rightarrow> HorcruxData \<Rightarrow> PreRequestHeader" where
  "pre_add_size header hcx =
     header\<lparr>mTotalSize := ucast ((ucast (mTotalSize header) :: u64) + string_size (mContent hcx))\<rparr>"

definition PreRequestHeader_fromHorcruxes :: "u64 \<Rightarrow> HorcruxData list \<Rightarrow> PreRequestHeader" where
  "PreRequestHeader_fromHorcruxes uuid horcruxes =
     (let header = \<lparr>mUuid = uuid, mTotalSize = 0, mNumHorcruxes = ucast (string_size horcruxes)\<rparr>
      in foldl pre_add_size header horcruxes)"

fun requests_loop :: "u64 \<Rightarrow> Request list \<Rightarrow> HorcruxData list \<Rightarrow> Request list" where
  "requests_loop uuid requests [] = requests"
| "requests_loop uuid requests (hcx # rest) =
     (let header = \<lparr>mReqUuid = uuid, mIndex = ucast (string_size requests),
            mContentSize = ucast (string_size (mContent hcx)), mChecksumSize = 0\<rparr>;
          request = \<lparr>mHeader = header, mReqContent = mContent hcx, mReqChecksum = mChecksum hcx\<rparr>
      in requests_loop uuid (requests @ [request]) rest)"

definition Request_fromHorcruxes :: "u64 \<Rightarrow> HorcruxData list \<Rightarrow> Request list" where
  "Request_fromHorcruxes uuid horcruxes = requests_loop uuid [] horcruxes"

section \<open>Lemmas\<close>

definition request_of :: "u64 \<Rightarrow> nat \<Rightarrow> HorcruxData \<Rightarrow> Request" where
  "request_of uuid i hcx =
     \<lparr>mHeader = \<lparr>mReqUuid = uuid, mIndex = word_of_nat i,
        mContentSize = word_of_nat (length (mContent hcx)), mChecksumSize = 0\<rparr>,
      mReqContent = mContent hcx, mReqChecksum = mChecksum hcx\<rparr>"

lemma ucast_string_size: "(ucast (string_size s) :: u32) = word_of_nat (length s)"
  by (simp add: string_size_def ucast_down_of_nat)

lemma requests_loop_nth:
  "requests_loop uuid acc hs = acc @ map (\<lambda>(i, h). request_of uuid i h) (enumerate (length acc) hs)"
  by (induction hs arbitrary: acc) (simp_all add: Let_def ucast_string_size request_of_def)

lemma Request_fromHorcruxes_eq:
  "Request_fromHorcruxes uuid hs = map (\<lambda>(i, h). request_of uuid i h) (enumerate 0 hs)"
  by (simp add: Request_fromHorcruxes_def requests_loop_nth)

lemma deserialize_any_padding:
  "deserializeHeader (req_rep pad') req_val default_RequestHeader (serializeHeader (req_rep pad) r) = r"
proof -
  have "deserializeHeader (req_rep pad') req_val default_RequestHeader bs =
      deserializeHeader (req_rep pad) req_val default_RequestHeader bs" if "length bs = 24" for bs
    using that by (simp add: req_header.deserialize_bytes sizeof_RequestHeader_def)
  then show ?thesis
    using req_header.serialize_length [of pad r]
    by (simp add: req_header.deserialize_serialize sizeof_RequestHeader_def)
qed

lemma fold_pre_add_size:
  "foldl pre_add_size h hs =
     h\<lparr>mTotalSize := mTotalSize h + word_of_nat (length (concat (map mContent hs)))\<rparr>"
proof (induction hs arbitrary: h)
  case (Cons x hs)
  have "pre_add_size h x = h\<lparr>mTotalSize := mTotalSize h + word_of_nat (length (mContent x))\<rparr>"
    by (simp add: pre_add_size_def string_size_def ucast_add_of_nat)
  then show ?case
    by (simp add: Cons.IH)
qed simp

lemma PreRequestHeader_fromHorcruxes_eq:
  "PreRequestHeader_fromHorcruxes uuid hs =
     \<lparr>mUuid = uuid, mTotalSize = word_of_nat (length (concat (map mContent hs))),
      mNumHorcruxes = word_of_nat (length hs)\<rparr>"
  by (simp add: PreRequestHeader_fromHorcruxes_def fold_pre_add_size ucast_string_size)

lemma length_Request_fromHorcruxes [simp]: "length (Request_fromHorcruxes uuid hs) = length hs"
  by (simp add: Request_fromHorcruxes_eq)

lemma nth_Request_fromHorcruxes [simp]:
  "i < length hs \<Longrightarrow> Request_fromHorcruxes uuid hs ! i = request_of uuid i (hs ! i)"
  by (simp add: Request_fromHorcruxes_eq nth_enumerate_eq)

section \<open>Properties\<close>

text \<open>
  C15. The wire format: both headers have their fixed size (16 and 24 bytes, the latter with
  four bytes of padding), deserialising what was serialised gives the header back whatever the
  padding holds, and the padding a receiver sees never changes the header it reads.
\<close>

theorem header_roundtrip:
  "length (serializeHeader pre_rep p) = 16 \<and>
   deserializeHeader pre_rep pre_val default_PreRequestHeader (serializeHeader pre_rep p) = p \<and>
   length (serializeHeader (req_rep pad) r) = 24 \<and>
   deserializeHeader (req_rep pad') req_val default_RequestHeader (serializeHeader (req_rep pad) r) = r"
  using pre_header.serialize_length [of p] req_header.serialize_length [of pad r]
  by (simp add: pre_header.deserialize_serialize deserialize_any_padding
      sizeof_PreRequestHeader_def sizeof_RequestHeader_def)

text \<open>
  Every 16 bytes are the representation of exactly one pre-request header, so the server
  can read the header of any client and nothing on the wire is lost: serialising a
  deserialised pre-request header gives the same bytes.
\<close>

lemma pre_header_bytes_roundtrip:
  assumes "length bs = 16"
  shows "serializeHeader pre_rep (deserializeHeader pre_rep pre_val default_PreRequestHeader bs) = bs"
proof -
  define a b c where "a = take 8 bs" and "b = take 4 (drop 8 bs)" and "c = drop 4 (drop 8 bs)"
  then have bs: "bs = a @ b @ c"
    by (simp only: append_take_drop_id)
  have len: "length a = 8" "length b = 4" "length c = 4"
    using assms by (simp_all add: a_def b_def c_def)
  have "le_value a < 2 ^ 64" "le_value b < 2 ^ 32" "le_value c < 2 ^ 32"
    using le_value_bound [of a] le_value_bound [of b] le_value_bound [of c] len by simp_all
  then show ?thesis
    using len le_bytes_le_value [of a] le_bytes_le_value [of b] le_bytes_le_value [of c]
    by (simp add: pre_header.deserialize_bytes sizeof_PreRequestHeader_def serializeHeader_def
        pre_rep_def pre_val_def bs store_u64_def store_u32_def load_u64_def load_u32_def
        unat_of_nat_u32 unat_of_nat_u64)
qed

lemma pre_header_bytes_example:
  "serializeHeader pre_rep (deserializeHeader pre_rep pre_val default_PreRequestHeader ''0123456789abcdef'') =
     ''0123456789abcdef''"
  by (rule pre_header_bytes_roundtrip) simp

text \<open>
  C16. What the client announces. The pre-request header carries the number of pieces and their
  total size, both modulo \<open>2 ^ 32\<close>; there is one request per piece, in order, with the
  identifier of the file, its position, its size modulo \<open>2 ^ 32\<close> and a checksum size of 0.
\<close>

theorem fromHorcruxes_correct:
  "mUuid (PreRequestHeader_fromHorcruxes uuid hs) = uuid \<and>
   unat (mNumHorcruxes (PreRequestHeader_fromHorcruxes uuid hs)) = length hs mod 2 ^ 32 \<and>
   unat (mTotalSize (PreRequestHeader_fromHorcruxes uuid hs)) = length (join hs) mod 2 ^ 32 \<and>
   length (Request_fromHorcruxes uuid hs) = length hs \<and>
   (\<forall>i<length hs. let r = Request_fromHorcruxes uuid hs ! i in
      mReqUuid (mHeader r) = uuid \<and> unat (mIndex (mHeader r)) = i mod 2 ^ 32 \<and>
      unat (mContentSize (mHeader r)) = length (mContent (hs ! i)) mod 2 ^ 32 \<and>
      mChecksumSize (mHeader r) = 0 \<and>
      mReqContent r = mContent (hs ! i) \<and> mReqChecksum r = mChecksum (hs ! i))"
  by (simp add: PreRequestHeader_fromHorcruxes_eq join_concat request_of_def unat_of_nat_u32 Let_def)

theorem fromHorcruxes_correct_witness:
  "let r = Request_fromHorcruxes 42 [\<lparr>mContent = ''AA'', mChecksum = ''''\<rparr>, \<lparr>mContent = ''CCC'', mChecksum = ''''\<rparr>] ! 1
   in unat (mContentSize (mHeader r)) = 3 \<and> mReqContent r = ''CCC''"
  using fromHorcruxes_correct [of 42 "[\<lparr>mContent = ''AA'', mChecksum = ''''\<rparr>, \<lparr>mContent = ''CCC'', mChecksum = ''''\<rparr>]"]
  by (simp add: Let_def All_less_Suc)

end
