(* ===== verification/Asio_Error.thy ===== *)
theory Asio_Error
  imports Main
begin

text \<open>
  Model of \<open>asio/include/asio/error.hpp\<close> and \<open>impl/error.ipp\<close>: error codes are pairs of a value
  and a category, the enumerations with their Linux values, and the messages of the categories
  that Asio defines itself.
\<close>

datatype error_category = System_Category | Netdb_Category | Addrinfo_Category | Misc_Category

record error_code =
  ec_value :: int
  ec_category :: error_category

text \<open>A default constructed error code, and the conversion of an error code to \<open>bool\<close>.\<close>

definition no_error :: error_code where
  "no_error = \<lparr>ec_value = 0, ec_category = System_Category\<rparr>"

definition failed :: "error_code \<Rightarrow> bool" where
  "failed ec \<longleftrightarrow> ec_value ec \<noteq> 0"

datatype basic_errors =
    access_denied | address_family_not_supported | address_in_use | already_connected
  | already_started | broken_pipe | connection_aborted | connection_refused | connection_reset
  | bad_descriptor | fault | host_unreachable | in_progress | interrupted | invalid_argument
  | message_size | name_too_long | network_down | network_reset | network_unreachable
  | no_descriptors | no_buffer_space | no_memory | no_permission | no_protocol_option
  | no_such_device | not_connected | not_socket | operation_aborted | operation_not_supported
  | shut_down | timed_out | try_again | would_block

fun basic_value :: "basic_errors \<Rightarrow> int" where
  "basic_value access_denied = 13"
| "basic_value address_family_not_supported = 97"
| "basic_value address_in_use = 98"
| "basic_value already_connected = 106"
| "basic_value already_started = 114"
| "basic_value broken_pipe = 32"
| "basic_value connection_aborted = 103"
| "basic_value connection_refused = 111"
| "basic_value connection_reset = 104"
| "basic_value bad_descriptor = 9"
| "basic_value fault = 14"
| "basic_value host_unreachable = 113"
| "basic_value in_progress = 115"
| "basic_value interrupted = 4"
| "basic_value invalid_argument = 22"
| "basic_value message_size = 90"
| "basic_value name_too_long = 36"
| "basic_value network_down = 100"
| "basic_value network_reset = 102"
| "basic_value network_unreachable = 101"
| "basic_value no_descriptors = 24"
| "basic_value no_buffer_space = 105"
| "basic_value no_memory = 12"
| "basic_value no_permission = 1"
| "basic_value no_protocol_option = 92"
| "basic_value no_such_device = 19"
| "basic_value not_connected = 107"
| "basic_value not_socket = 88"
| "basic_value operation_aborted = 125"
| "basic_value operation_not_supported = 95"
| "basic_value shut_down = 108"
| "basic_value timed_out = 110"
| "basic_value try_again = 11"
| "basic_value would_block = 11"

datatype netdb_errors = host_not_found | host_not_found_try_again | no_data | no_recovery

fun netdb_value :: "netdb_errors \<Rightarrow> int" where
  "netdb_value host_not_found = 1"
| "netdb_value host_not_found_try_again = 2"
| "netdb_value no_data = 4"
| "netdb_value no_recovery = 3"

datatype addrinfo_errors = service_not_found | socket_type_not_supported

fun addrinfo_value :: "addrinfo_errors \<Rightarrow> int" where
  "addrinfo_value service_not_found = - 8"
| "addrinfo_value socket_type_not_supported = - 7"

datatype misc_errors = already_open | eof | not_found | fd_set_failure

fun misc_value :: "misc_errors \<Rightarrow> int" where
  "misc_value already_open = 1"
| "misc_value eof = 2"
| "misc_value not_found = 3"
| "misc_value fd_set_failure = 4"

definition basic_ec :: "basic_errors \<Rightarrow> error_code" where
  "basic_ec e = \<lparr>ec_value = basic_value e, ec_category = System_Category\<rparr>"

definition netdb_ec :: "netdb_errors \<Rightarrow> error_code" where
  "netdb_ec e = \<lparr>ec_value = netdb_value e, ec_category = Netdb_Category\<rparr>"

definition addrinfo_ec :: "addrinfo_errors \<Rightarrow> error_code" where
  "addrinfo_ec e = \<lparr>ec_value = addrinfo_value e, ec_category = Addrinfo_Category\<rparr>"

definition misc_ec :: "misc_errors \<Rightarrow> error_code" where
  "misc_ec e = \<lparr>ec_value = misc_value e, ec_category = Misc_Category\<rparr>"

text \<open>\<open>asio::error::clear\<close> keeps the category.\<close>

definition clear_ec :: "error_code \<Rightarrow> error_code" where
  "clear_ec ec = ec\<lparr>ec_value := 0\<rparr>"

definition netdb_message :: "int \<Rightarrow> string" where
  "netdb_message value =
     (if value = netdb_value host_not_found then ''Host not found (authoritative)''
      else if value = netdb_value host_not_found_try_again then
        ''Host not found (non-authoritative), try again later''
      else if value = netdb_value no_data then
        ''The query is valid, but it does not have associated data''
      else if value = netdb_value no_recovery then
        ''A non-recoverable error occurred during database lookup''
      else ''asio.netdb error'')"

definition addrinfo_message :: "int \<Rightarrow> string" where
  "addrinfo_message value =
     (if value = addrinfo_value service_not_found then ''Service not found''
      else if value = addrinfo_value socket_type_not_supported then ''Socket type not supported''
      else ''asio.addrinfo error'')"

definition misc_message :: "int \<Rightarrow> string" where
  "misc_message value =
     (if value = misc_value already_open then ''Already open''
      else if value = misc_value eof then ''End of file''
      else if value = misc_value not_found then ''Element not found''
      else if value = misc_value fd_set_failure then
        ''The descriptor does not fit into the select call's fd_set''
      else ''asio.misc error'')"

definition category_name :: "error_category \<Rightarrow> string" where
  "category_name c = (case c of
      System_Category \<Rightarrow> ''system''
    | Netdb_Category \<Rightarrow> ''asio.netdb''
    | Addrinfo_Category \<Rightarrow> ''asio.addrinfo''
    | Misc_Category \<Rightarrow> ''asio.misc'')"

lemma not_failed_no_error [simp]: "\<not> failed no_error" "\<not> failed (clear_ec ec)"
  by (simp_all add: failed_def no_error_def clear_ec_def)

lemma failed_basic_ec [simp]: "failed (basic_ec e)"
  by (cases e) (simp_all add: failed_def basic_ec_def)

lemma failed_netdb_ec [simp]: "failed (netdb_ec e)"
  by (cases e) (simp_all add: failed_def netdb_ec_def)

lemma failed_addrinfo_ec [simp]: "failed (addrinfo_ec e)"
  by (cases e) (simp_all add: failed_def addrinfo_ec_def)

lemma failed_misc_ec [simp]: "failed (misc_ec e)"
  by (cases e) (simp_all add: failed_def misc_ec_def)

lemma misc_not_basic [simp]: "misc_ec m \<noteq> basic_ec b" "basic_ec b \<noteq> misc_ec m"
  by (simp_all add: misc_ec_def basic_ec_def)

lemma ec_distinct_no_error [simp]:
  "basic_ec b \<noteq> no_error" "misc_ec m \<noteq> no_error" "no_error \<noteq> basic_ec b" "no_error \<noteq> misc_ec m"
  by (metis not_failed_no_error(1) failed_basic_ec failed_misc_ec)+

end
