(* ===== verification/Asio_Buffer.thy ===== *)
theory Asio_Buffer
  imports Asio_Error Horcrux_Prelude
begin

text \<open>
  Model of the buffer layer of Asio that the program's reads and writes go through:
  \<open>mutable_buffer\<close> / \<open>const_buffer\<close> with \<open>operator+\<close>, \<open>buffer()\<close>, \<open>buffer_size\<close> and
  \<open>buffer_copy\<close> (\<open>asio/buffer.hpp\<close>), the proxies \<open>consuming_buffers\<close> and
  \<open>consuming_single_buffer\<close> (\<open>detail/consuming_buffers.hpp\<close>), and the completion conditions
  (\<open>completion_condition.hpp\<close>, \<open>detail/base_from_completion_cond.hpp\<close>).

  A buffer is an address and a size. Mutable and constant buffers have the same operations and
  are one type. Sizes are natural numbers: every size here is at most the size of an object in
  memory, so no sum of sizes wraps around at 64 bits.
\<close>

section \<open>Buffers\<close>

record buffer =
  buf_data :: nat
  buf_size :: nat

definition buffer_plus :: "buffer \<Rightarrow> nat \<Rightarrow> buffer" where
  "buffer_plus b n =
     (let offset = (if n < buf_size b then n else buf_size b)
      in \<lparr>buf_data = buf_data b + offset, buf_size = buf_size b - offset\<rparr>)"

definition buffer_max :: "buffer \<Rightarrow> nat \<Rightarrow> buffer" where
  "buffer_max b max_size = \<lparr>buf_data = buf_data b, buf_size = (if buf_size b < max_size then buf_size b else max_size)\<rparr>"

text \<open>The loop of \<open>detail::buffer_size\<close> over a sequence.\<close>

definition buffer_size :: "buffer list \<Rightarrow> nat" where
  "buffer_size bs = foldl (\<lambda>total_buffer_size b. total_buffer_size + buf_size b) 0 bs"

text \<open>The addresses a buffer (a sequence of buffers) covers, in order.\<close>

definition extent :: "buffer \<Rightarrow> nat list" where
  "extent b = [buf_data b..<buf_data b + buf_size b]"

definition extents :: "buffer list \<Rightarrow> nat list" where
  "extents bs = concat (map extent bs)"

lemma extent_plus [simp]: "extent (buffer_plus b n) = drop n (extent b)"
  by (simp add: extent_def buffer_plus_def drop_upt)

lemma extent_max [simp]: "extent (buffer_max b n) = take n (extent b)"
  by (simp add: extent_def buffer_max_def take_upt min_def)

lemma length_extent [simp]: "length (extent b) = buf_size b"
  by (simp add: extent_def)

lemma size_plus [simp]: "buf_size (buffer_plus b n) = buf_size b - n"
  by (simp add: buffer_plus_def)

lemma size_max [simp]: "buf_size (buffer_max b n) = min (buf_size b) n"
  by (simp add: buffer_max_def min_def)

lemma extents_simps [simp]:
  "extents [] = []" "extents (b # bs) = extent b @ extents bs"
  "extents (bs @ cs) = extents bs @ extents cs"
  by (simp_all add: extents_def)

lemma buffer_size_foldl: "foldl (\<lambda>t b. t + buf_size b) n bs = n + length (extents bs)"
  by (induction bs arbitrary: n) auto

lemma buffer_size_extents [simp]: "buffer_size bs = length (extents bs)"
  by (simp add: buffer_size_def buffer_size_foldl)

section \<open>Completion conditions\<close>

definition default_max_transfer_size :: nat where
  "default_max_transfer_size = 65536"

text \<open>\<open>adapt_completion_condition_result\<close> for old-style (bool) and current (size) conditions.\<close>

definition adapt_bool_result :: "bool \<Rightarrow> nat" where
  "adapt_bool_result result = (if result then 0 else default_max_transfer_size)"

definition adapt_size_result :: "nat \<Rightarrow> nat" where
  "adapt_size_result result = result"

type_synonym completion_condition = "error_code \<Rightarrow> nat \<Rightarrow> nat"

definition transfer_all :: completion_condition where
  "transfer_all err bytes_transferred = (if failed err then 0 else default_max_transfer_size)"

definition transfer_at_least :: "nat \<Rightarrow> completion_condition" where
  "transfer_at_least minimum err bytes_transferred =
     (if failed err \<or> bytes_transferred \<ge> minimum then 0 else default_max_transfer_size)"

definition transfer_exactly :: "nat \<Rightarrow> completion_condition" where
  "transfer_exactly sz err bytes_transferred =
     (if failed err \<or> bytes_transferred \<ge> sz then 0
      else if sz - bytes_transferred < default_max_transfer_size
      then sz - bytes_transferred else default_max_transfer_size)"

text \<open>\<open>base_from_completion_cond::check_for_completion\<close>.\<close>

definition check_for_completion :: "completion_condition \<Rightarrow> error_code \<Rightarrow> nat \<Rightarrow> nat" where
  "check_for_completion completion_condition ec total_transferred =
     adapt_size_result (completion_condition ec total_transferred)"

section \<open>Consuming a single buffer\<close>

record consuming_single_buffer =
  single_buffer :: buffer
  single_consumed :: nat

definition single_new :: "buffer \<Rightarrow> consuming_single_buffer" where
  "single_new b = \<lparr>single_buffer = b, single_consumed = 0\<rparr>"

definition single_empty :: "consuming_single_buffer \<Rightarrow> bool" where
  "single_empty cb \<longleftrightarrow> single_consumed cb \<ge> buf_size (single_buffer cb)"

definition single_prepare :: "consuming_single_buffer \<Rightarrow> nat \<Rightarrow> buffer" where
  "single_prepare cb max_size = buffer_max (buffer_plus (single_buffer cb) (single_consumed cb)) max_size"

definition single_consume :: "consuming_single_buffer \<Rightarrow> nat \<Rightarrow> consuming_single_buffer" where
  "single_consume cb sz = cb\<lparr>single_consumed := single_consumed cb + sz\<rparr>"

section \<open>Consuming a sequence of buffers\<close>

text \<open>At most this many buffers are prepared for one transfer.\<close>

definition max_buffers :: nat where
  "max_buffers = 16"

record consuming_buffers =
  cb_buffers :: "buffer list"
  cb_total_size :: nat
  cb_total_consumed :: nat
  cb_next_elem :: nat
  cb_next_elem_offset :: nat

definition consuming_new :: "buffer list \<Rightarrow> consuming_buffers" where
  "consuming_new bs = \<lparr>cb_buffers = bs, cb_total_size = buffer_size bs, cb_total_consumed = 0,
     cb_next_elem = 0, cb_next_elem_offset = 0\<rparr>"

definition consuming_empty :: "consuming_buffers \<Rightarrow> bool" where
  "consuming_empty cb \<longleftrightarrow> cb_total_consumed cb \<ge> cb_total_size cb"

text \<open>The loop of \<open>prepare\<close>, over the buffers from \<open>next\<close> on.\<close>

fun prepare_loop :: "buffer list \<Rightarrow> nat \<Rightarrow> nat \<Rightarrow> buffer list \<Rightarrow> buffer list" where
  "prepare_loop [] elem_offset max_size result = result"
| "prepare_loop (b # rest) elem_offset max_size result =
     (if max_size > 0 \<and> length result < max_buffers then
        let next_buf = buffer_plus b elem_offset;
            elem = buffer_max next_buf max_size
        in prepare_loop rest 0 (max_size - buf_size elem)
             (if buf_size elem > 0 then result @ [elem] else result)
      else result)"

definition consuming_prepare :: "consuming_buffers \<Rightarrow> nat \<Rightarrow> buffer list" where
  "consuming_prepare cb max_size =
     prepare_loop (drop (cb_next_elem cb) (cb_buffers cb)) (cb_next_elem_offset cb) max_size []"

text \<open>The loop of \<open>consume\<close>: returns the new \<open>cb_next_elem\<close> and \<open>cb_next_elem_offset\<close>.\<close>

fun consume_loop :: "buffer list \<Rightarrow> nat \<Rightarrow> nat \<Rightarrow> nat \<Rightarrow> nat \<times> nat" where
  "consume_loop [] next_elem offset sz = (next_elem, offset)"
| "consume_loop (b # rest) next_elem offset sz =
     (if sz > 0 then
        let next_buf = buffer_plus b offset
        in if sz < buf_size next_buf then consume_loop (b # rest) next_elem (offset + sz) 0
           else consume_loop rest (next_elem + 1) 0 (sz - buf_size next_buf)
      else (next_elem, offset))"

definition consuming_consume :: "consuming_buffers \<Rightarrow> nat \<Rightarrow> consuming_buffers" where
  "consuming_consume cb sz =
     (let (next_elem, offset) =
        consume_loop (drop (cb_next_elem cb) (cb_buffers cb)) (cb_next_elem cb) (cb_next_elem_offset cb) sz
      in cb\<lparr>cb_total_consumed := cb_total_consumed cb + sz, cb_next_elem := next_elem,
           cb_next_elem_offset := offset\<rparr>)"

section \<open>The contract of the consuming proxies\<close>

text \<open>
  The composed operations are templates over a type of proxies. A record collects the
  operations they use; the locale states what they rely on, in terms of the addresses that
  are still to be transferred.
\<close>

record 'c buffers_type =
  bt_empty :: "'c \<Rightarrow> bool"
  bt_prepare :: "'c \<Rightarrow> nat \<Rightarrow> buffer list"
  bt_consume :: "'c \<Rightarrow> nat \<Rightarrow> 'c"
  bt_total_consumed :: "'c \<Rightarrow> nat"

definition single_buffers :: "consuming_single_buffer buffers_type" where
  "single_buffers = \<lparr>bt_empty = single_empty, bt_prepare = (\<lambda>cb n. [single_prepare cb n]),
     bt_consume = single_consume, bt_total_consumed = single_consumed\<rparr>"

definition sequence_buffers :: "consuming_buffers buffers_type" where
  "sequence_buffers = \<lparr>bt_empty = consuming_empty, bt_prepare = consuming_prepare,
     bt_consume = consuming_consume, bt_total_consumed = cb_total_consumed\<rparr>"

locale consuming =
  fixes bt :: "'c buffers_type"
    and invar :: "'c \<Rightarrow> bool"
    and remaining :: "'c \<Rightarrow> nat list"
  assumes empty_remaining: "invar c \<Longrightarrow> bt_empty bt c \<longleftrightarrow> remaining c = []"
    and consume_remaining: "invar c \<Longrightarrow> k \<le> length (remaining c) \<Longrightarrow>
      invar (bt_consume bt c k) \<and> remaining (bt_consume bt c k) = drop k (remaining c) \<and>
      bt_total_consumed bt (bt_consume bt c k) = bt_total_consumed bt c + k"
    and prepare_prefix: "invar c \<Longrightarrow> \<exists>k \<le> n. extents (bt_prepare bt c n) = take k (remaining c)"
    and prepare_progress: "invar c \<Longrightarrow> 0 < n \<Longrightarrow> remaining c \<noteq> [] \<Longrightarrow>
      extents (bt_prepare bt c n) \<noteq> []"
begin

text \<open>A transfer of \<open>k\<close> bytes into what was prepared touches the next \<open>k\<close> addresses.\<close>

lemma transfer_addresses:
  assumes "invar c" and "k \<le> length (extents (bt_prepare bt c n))"
  shows "take k (extents (bt_prepare bt c n)) = take k (remaining c)" "k \<le> length (remaining c)"
proof -
  obtain j where "extents (bt_prepare bt c n) = take j (remaining c)"
    using prepare_prefix [OF assms(1)] by blast
  with assms(2) show "take k (extents (bt_prepare bt c n)) = take k (remaining c)"
    and "k \<le> length (remaining c)"
    by (auto simp: min_def split: if_splits)
qed

end

definition single_remaining :: "consuming_single_buffer \<Rightarrow> nat list" where
  "single_remaining cb = drop (single_consumed cb) (extent (single_buffer cb))"

interpretation single: consuming single_buffers "\<lambda>_. True" single_remaining
proof
  fix c :: consuming_single_buffer and n :: nat
  show "\<exists>k \<le> n. extents (bt_prepare single_buffers c n) = take k (single_remaining c)"
    by (auto simp: single_buffers_def single_prepare_def single_remaining_def)
qed (auto simp: single_buffers_def single_prepare_def single_remaining_def single_empty_def
    single_consume_def add.commute simp flip: length_0_conv)

definition seq_remaining :: "consuming_buffers \<Rightarrow> nat list" where
  "seq_remaining cb = drop (cb_next_elem_offset cb) (extents (drop (cb_next_elem cb) (cb_buffers cb)))"

text \<open>The offset lies within the current buffer, and what was counted as consumed is gone.\<close>

definition offset_ok :: "buffer list \<Rightarrow> nat \<Rightarrow> bool" where
  "offset_ok bs off \<longleftrightarrow> (case bs of [] \<Rightarrow> off = 0 | b # _ \<Rightarrow> off \<le> buf_size b)"

lemma offset_ok_simps [simp]:
  "offset_ok bs 0" "offset_ok [] off \<longleftrightarrow> off = 0" "offset_ok (b # bs) off \<longleftrightarrow> off \<le> buf_size b"
  by (auto simp: offset_ok_def split: list.split)

definition seq_invar :: "consuming_buffers \<Rightarrow> bool" where
  "seq_invar cb \<longleftrightarrow> cb_next_elem cb \<le> length (cb_buffers cb) \<and>
     cb_total_size cb = cb_total_consumed cb + length (seq_remaining cb) \<and>
     offset_ok (drop (cb_next_elem cb) (cb_buffers cb)) (cb_next_elem_offset cb)"

lemma consume_loop_correct:
  assumes "k \<le> length (drop off (extents bs))"
    and "offset_ok bs off"
    and "consume_loop bs i off k = (i', off')"
  shows "i \<le> i' \<and> i' - i \<le> length bs \<and>
    drop off' (extents (drop (i' - i) bs)) = drop k (drop off (extents bs)) \<and>
    offset_ok (drop (i' - i) bs) off'"
  using assms
proof (induction bs i off k rule: consume_loop.induct)
  case (2 b rest i off k)
  show ?case
  proof (cases "0 < k")
    case True
    show ?thesis
    proof (cases "k < buf_size b - off")
      case True
      with \<open>0 < k\<close> "2.prems" show ?thesis
        by (auto simp: add.commute)
    next
      case False
      let ?k = "k - (buf_size b - off)"
      have off: "off \<le> buf_size b"
        using "2.prems"(2) by simp
      have "consume_loop rest (i + 1) 0 ?k = (i', off')"
        using False True "2.prems"(3) by simp
      moreover have "?k \<le> length (drop 0 (extents rest))"
        using "2.prems"(1) off by auto
      ultimately have IH: "i + 1 \<le> i' \<and> i' - (i + 1) \<le> length rest \<and>
          drop off' (extents (drop (i' - (i + 1)) rest)) = drop ?k (drop 0 (extents rest)) \<and>
          offset_ok (drop (i' - (i + 1)) rest) off'"
        using "2.IH"(2) [OF True refl] False by simp
      then have "i' - i = Suc (i' - (i + 1))"
        by linarith
      then have "drop (i' - i) (b # rest) = drop (i' - (i + 1)) rest"
        by (simp only: drop_Suc_Cons)
      moreover have "drop k (drop off (extents (b # rest))) = drop ?k (extents rest)"
        using False off by simp
      ultimately show ?thesis
        using IH by auto
    qed
  next
    case False
    with "2.prems" show ?thesis
      by auto
  qed
qed auto

lemma prepare_loop_correct:
  assumes "offset_ok bs off"
  shows "\<exists>k \<le> n. extents (prepare_loop bs off n acc) = extents acc @ take k (drop off (extents bs))"
  using assms
proof (induction bs off n acc rule: prepare_loop.induct)
  case (2 b rest off n acc)
  show ?case
  proof (cases "0 < n \<and> length acc < max_buffers")
    case True
    let ?e = "buffer_max (buffer_plus b off) n"
    let ?acc = "if buf_size ?e > 0 then acc @ [?e] else acc"
    have off: "off \<le> buf_size b"
      using "2.prems" by simp
    have loop: "prepare_loop (b # rest) off n acc = prepare_loop rest 0 (n - buf_size ?e) ?acc"
      using True by (simp add: Let_def)
    have "extents ?acc = extents acc @ take n (drop off (extent b))"
      by (auto simp: min_def simp flip: length_0_conv)
    moreover obtain k where "k \<le> n - buf_size ?e"
      "extents (prepare_loop rest 0 (n - buf_size ?e) ?acc) = extents ?acc @ take k (extents rest)"
      using "2.IH" [OF True refl refl] by auto
    moreover have "take n (drop off (extent b)) @ take k (extents rest) =
        take (buf_size ?e + k) (drop off (extent b @ extents rest))"
      if "k \<le> n - buf_size ?e" for k
      using that off by (cases "n \<le> buf_size b - off") (auto simp: min_def)
    ultimately show ?thesis
      unfolding loop by (intro exI [of _ "buf_size ?e + k"]) auto
  next
    case False
    then show ?thesis
      by (intro exI [of _ 0]) auto
  qed
qed auto

lemma prepare_loop_acc: "\<exists>cs. prepare_loop bs off n acc = acc @ cs"
proof (induction bs off n acc rule: prepare_loop.induct)
  case (2 b rest off n acc)
  then show ?case
    by (auto simp: Let_def) (metis append.assoc append_Cons append_Nil)
qed simp

lemma prepare_loop_nonempty:
  assumes "0 < n" "drop off (extents bs) \<noteq> []" "length acc < max_buffers"
    and "offset_ok bs off"
  shows "extents (prepare_loop bs off n acc) \<noteq> []"
  using assms
proof (induction bs off n acc rule: prepare_loop.induct)
  case (2 b rest off n acc)
  let ?e = "buffer_max (buffer_plus b off) n"
  show ?case
  proof (cases "0 < buf_size ?e")
    case True
    then have "prepare_loop (b # rest) off n acc =
        prepare_loop rest 0 (n - buf_size ?e) (acc @ [?e])"
      using "2.prems" by (simp add: Let_def)
    moreover obtain cs where "prepare_loop rest 0 (n - buf_size ?e) (acc @ [?e]) = (acc @ [?e]) @ cs"
      using prepare_loop_acc by blast
    moreover have "extent ?e \<noteq> []"
      using True by (metis length_extent length_greater_0_conv)
    ultimately show ?thesis
      by simp
  next
    case False
    then have off: "off = buf_size b"
      using "2.prems" by (simp add: min_def split: if_splits)
    then have "prepare_loop (b # rest) off n acc = prepare_loop rest 0 n acc"
      using "2.prems" by (simp add: Let_def)
    moreover have "extents (prepare_loop rest 0 n acc) \<noteq> []"
      using "2.IH" [OF _ refl refl] "2.prems" off False by auto
    ultimately show ?thesis
      by simp
  qed
qed simp

interpretation sequence: consuming sequence_buffers seq_invar seq_remaining
proof
  fix c and k :: nat
  assume inv: "seq_invar c" and k: "k \<le> length (seq_remaining c)"
  obtain i' off' where loop: "consume_loop (drop (cb_next_elem c) (cb_buffers c)) (cb_next_elem c)
      (cb_next_elem_offset c) k = (i', off')"
    by fastforce
  let ?d = "i' - cb_next_elem c"
  from consume_loop_correct [OF _ _ loop] inv k
  have res: "cb_next_elem c \<le> i'" "?d \<le> length (cb_buffers c) - cb_next_elem c"
    "drop off' (extents (drop ?d (drop (cb_next_elem c) (cb_buffers c)))) = drop k (seq_remaining c)"
    "offset_ok (drop ?d (drop (cb_next_elem c) (cb_buffers c))) off'"
    by (auto simp: seq_invar_def seq_remaining_def)
  then have "drop ?d (drop (cb_next_elem c) (cb_buffers c)) = drop i' (cb_buffers c)"
    by simp
  with res inv k show "seq_invar (bt_consume sequence_buffers c k) \<and>
      seq_remaining (bt_consume sequence_buffers c k) = drop k (seq_remaining c) \<and>
      bt_total_consumed sequence_buffers (bt_consume sequence_buffers c k) =
        bt_total_consumed sequence_buffers c + k"
    by (auto simp: sequence_buffers_def consuming_consume_def loop seq_invar_def seq_remaining_def)
next
  fix c n
  assume "seq_invar c"
  then show "\<exists>k \<le> n. extents (bt_prepare sequence_buffers c n) = take k (seq_remaining c)"
    using prepare_loop_correct [of "drop (cb_next_elem c) (cb_buffers c)" "cb_next_elem_offset c" n "[]"]
    by (simp add: sequence_buffers_def consuming_prepare_def seq_invar_def seq_remaining_def)
next
  fix c and n :: nat
  assume "seq_invar c" "0 < n" "seq_remaining c \<noteq> []"
  then show "extents (bt_prepare sequence_buffers c n) \<noteq> []"
    using prepare_loop_nonempty [of n "cb_next_elem_offset c" "drop (cb_next_elem c) (cb_buffers c)" "[]"]
    by (simp add: sequence_buffers_def consuming_prepare_def seq_invar_def seq_remaining_def max_buffers_def)
qed (auto simp: sequence_buffers_def consuming_empty_def seq_invar_def)

lemma consuming_new_invar: "seq_invar (consuming_new bs)" "seq_remaining (consuming_new bs) = extents bs"
  by (auto simp: consuming_new_def seq_invar_def seq_remaining_def)

end
