(* ===== verification/Asio_Transfer.thy ===== *)
theory Asio_Transfer
  imports Asio_Buffer
begin

text \<open>
  Model of the composed operations of Asio: the synchronous \<open>read\<close> and \<open>write\<close> and the
  asynchronous \<open>async_read\<close> and \<open>async_write\<close> (\<open>impl/read.hpp\<close>, \<open>impl/write.hpp\<close>). Both are
  templates over the type of the consuming buffers, a parameter \<open>bt\<close> here.

  The stream is the environment: what its \<open>read_some\<close> or \<open>write_some\<close> reports, an error code and a
  number of bytes, comes from a list of completions, one for each operation issued. A
  synchronous call that needs more completions than there are blocks, which is \<open>None\<close>.
\<close>

type_synonym completion = "error_code \<times> nat"

section \<open>Synchronous operations\<close>

fun read_buffer_seq_loop ::
  "'c buffers_type \<Rightarrow> completion_condition \<Rightarrow> 'c \<Rightarrow> error_code \<Rightarrow> completion list \<Rightarrow>
   (nat \<times> error_code) option"
where
  "read_buffer_seq_loop bt completion_condition tmp ec script =
     (if \<not> bt_empty bt tmp then
        let max_size = adapt_size_result (completion_condition ec (bt_total_consumed bt tmp))
        in if max_size \<noteq> 0 then
             (case script of
                [] \<Rightarrow> None
              | (ec', n) # rest \<Rightarrow>
                  read_buffer_seq_loop bt completion_condition (bt_consume bt tmp n) ec' rest)
           else Some (bt_total_consumed bt tmp, ec)
      else Some (bt_total_consumed bt tmp, ec))"

declare read_buffer_seq_loop.simps [simp del]

definition read_buffer_seq ::
  "'c buffers_type \<Rightarrow> completion_condition \<Rightarrow> 'c \<Rightarrow> completion list \<Rightarrow> (nat \<times> error_code) option"
where
  "read_buffer_seq bt completion_condition buffers script =
     read_buffer_seq_loop bt completion_condition buffers no_error script"

fun write_buffer_seq_loop ::
  "'c buffers_type \<Rightarrow> completion_condition \<Rightarrow> 'c \<Rightarrow> error_code \<Rightarrow> completion list \<Rightarrow>
   (nat \<times> error_code) option"
where
  "write_buffer_seq_loop bt completion_condition tmp ec script =
     (if \<not> bt_empty bt tmp then
        let max_size = adapt_size_result (completion_condition ec (bt_total_consumed bt tmp))
        in if max_size \<noteq> 0 then
             (case script of
                [] \<Rightarrow> None
              | (ec', n) # rest \<Rightarrow>
                  write_buffer_seq_loop bt completion_condition (bt_consume bt tmp n) ec' rest)
           else Some (bt_total_consumed bt tmp, ec)
      else Some (bt_total_consumed bt tmp, ec))"

declare write_buffer_seq_loop.simps [simp del]

definition write_buffer_seq ::
  "'c buffers_type \<Rightarrow> completion_condition \<Rightarrow> 'c \<Rightarrow> completion list \<Rightarrow> (nat \<times> error_code) option"
where
  "write_buffer_seq bt completion_condition buffers script =
     write_buffer_seq_loop bt completion_condition buffers no_error script"

text \<open>
  The overloads without an error code throw \<open>system_error\<close>, which is \<open>Inl\<close>
  (\<open>detail::throw_error\<close>).
\<close>

definition throw_error :: "error_code \<Rightarrow> 'a \<Rightarrow> error_code + 'a" where
  "throw_error err result = (if failed err then Inl err else Inr result)"

definition read_or_throw :: "'c buffers_type \<Rightarrow> 'c \<Rightarrow> completion list \<Rightarrow> (error_code + nat) option" where
  "read_or_throw bt buffers script =
     map_option (\<lambda>(n, ec). throw_error ec n) (read_buffer_seq bt transfer_all buffers script)"

definition write_or_throw :: "'c buffers_type \<Rightarrow> 'c \<Rightarrow> completion list \<Rightarrow> (error_code + nat) option" where
  "write_or_throw bt buffers script =
     map_option (\<lambda>(n, ec). throw_error ec n) (write_buffer_seq bt transfer_all buffers script)"

section \<open>Asynchronous operations\<close>

text \<open>
  A call of the function object either issues one more operation on the stream, for the
  prepared buffers, or invokes the handler with an error code and the number of bytes.
\<close>

datatype 'c op_outcome =
    Issue "buffer list" 'c
  | Invoke_Handler error_code nat 'c

definition read_op_call ::
  "'c buffers_type \<Rightarrow> completion_condition \<Rightarrow> bool \<Rightarrow> 'c \<Rightarrow> error_code \<Rightarrow> nat \<Rightarrow> int \<Rightarrow> 'c op_outcome"
where
  "read_op_call bt cond cancelled buffers ec bytes_transferred start =
     (if start = 1 then
        let max_size = check_for_completion cond ec (bt_total_consumed bt buffers)
        in Issue (bt_prepare bt buffers max_size) buffers
      else
        let buffers' = bt_consume bt buffers bytes_transferred in
        if (\<not> failed ec \<and> bytes_transferred = 0) \<or> bt_empty bt buffers'
        then Invoke_Handler ec (bt_total_consumed bt buffers') buffers'
        else
          let max_size = check_for_completion cond ec (bt_total_consumed bt buffers') in
          if max_size = 0 then Invoke_Handler ec (bt_total_consumed bt buffers') buffers'
          else if cancelled
          then Invoke_Handler (basic_ec operation_aborted) (bt_total_consumed bt buffers') buffers'
          else Issue (bt_prepare bt buffers' max_size) buffers')"

definition write_op_call ::
  "'c buffers_type \<Rightarrow> completion_condition \<Rightarrow> bool \<Rightarrow> 'c \<Rightarrow> error_code \<Rightarrow> nat \<Rightarrow> int \<Rightarrow> 'c op_outcome"
where
  "write_op_call bt cond cancelled buffers ec bytes_transferred start =
     (if start = 1 then
        let max_size = check_for_completion cond ec (bt_total_consumed bt buffers)
        in Issue (bt_prepare bt buffers max_size) buffers
      else
        let buffers' = bt_consume bt buffers bytes_transferred in
        if (\<not> failed ec \<and> bytes_transferred = 0) \<or> bt_empty bt buffers'
        then Invoke_Handler ec (bt_total_consumed bt buffers') buffers'
        else
          let max_size = check_for_completion cond ec (bt_total_consumed bt buffers') in
          if max_size = 0 then Invoke_Handler ec (bt_total_consumed bt buffers') buffers'
          else if cancelled
          then Invoke_Handler (basic_ec operation_aborted) (bt_total_consumed bt buffers') buffers'
          else Issue (bt_prepare bt buffers' max_size) buffers')"

text \<open>\<open>start_read_op\<close> / \<open>start_write_op\<close>, as \<open>async_read\<close> and \<open>async_write\<close> with \<open>transfer_all\<close> use them.\<close>

definition start_read_op :: "'c buffers_type \<Rightarrow> completion_condition \<Rightarrow> 'c \<Rightarrow> 'c op_outcome" where
  "start_read_op bt cond buffers = read_op_call bt cond False buffers no_error 0 1"

definition start_write_op :: "'c buffers_type \<Rightarrow> completion_condition \<Rightarrow> 'c \<Rightarrow> 'c op_outcome" where
  "start_write_op bt cond buffers = write_op_call bt cond False buffers no_error 0 1"

text \<open>
  The completions of the issued operations, delivered one after the other until the handler
  is invoked; a handler without a cancellation slot is never cancelled.
\<close>

fun read_op_run ::
  "'c buffers_type \<Rightarrow> completion_condition \<Rightarrow> 'c op_outcome \<Rightarrow> completion list \<Rightarrow> 'c op_outcome"
where
  "read_op_run bt cond (Issue p c) ((ec, n) # rest) =
     read_op_run bt cond (read_op_call bt cond False c ec n 0) rest"
| "read_op_run bt cond out script = out"

definition async_read :: "'c buffers_type \<Rightarrow> 'c \<Rightarrow> completion list \<Rightarrow> 'c op_outcome" where
  "async_read bt buffers script =
     read_op_run bt transfer_all (start_read_op bt transfer_all buffers) script"

text \<open>
  What a stream socket may report for an operation on the prepared buffers: never more bytes
  than there is room, and 0 bytes without an error only if there was no room at all.
\<close>

definition stream_completion :: "buffer list \<Rightarrow> completion \<Rightarrow> bool" where
  "stream_completion prepared r \<longleftrightarrow>
     snd r \<le> buffer_size prepared \<and>
     (\<not> failed (fst r) \<longrightarrow> snd r = 0 \<longrightarrow> buffer_size prepared = 0)"

fun stream_script :: "'c buffers_type \<Rightarrow> completion_condition \<Rightarrow> 'c op_outcome \<Rightarrow> completion list \<Rightarrow> bool" where
  "stream_script bt cond (Issue p c) (r # rest) \<longleftrightarrow>
     stream_completion p r \<and>
     stream_script bt cond (read_op_call bt cond False c (fst r) (snd r) 0) rest"
| "stream_script bt cond out script \<longleftrightarrow> True"

section \<open>Lemmas\<close>

lemma write_op_is_read_op: "write_op_call = read_op_call"
  by (simp add: fun_eq_iff write_op_call_def read_op_call_def)

lemma write_seq_is_read_seq:
  "write_buffer_seq_loop bt cond c ec script = read_buffer_seq_loop bt cond c ec script"
proof (induction script arbitrary: c ec)
  case Nil
  show ?case
    by (subst write_buffer_seq_loop.simps, subst read_buffer_seq_loop.simps) simp
next
  case (Cons r script)
  then show ?case
    by (subst write_buffer_seq_loop.simps, subst read_buffer_seq_loop.simps)
       (simp split: prod.split)
qed

lemma transfer_all_simps [simp]:
  "check_for_completion transfer_all ec n = (if failed ec then 0 else 65536)"
  by (simp add: check_for_completion_def adapt_size_result_def transfer_all_def
      default_max_transfer_size_def)

context consuming
begin

text \<open>
  Invariant of an operation in flight: either it has issued a transfer that is not empty
  unless the buffer was, or it has ended, with everything transferred unless there was an error.
\<close>

definition progressed :: "'c \<Rightarrow> 'c \<Rightarrow> nat \<Rightarrow> bool" where
  "progressed c0 c k \<longleftrightarrow> k \<le> length (remaining c0) \<and> remaining c = drop k (remaining c0) \<and>
     bt_total_consumed bt c = bt_total_consumed bt c0 + k"

definition outcome_ok :: "'c \<Rightarrow> 'c op_outcome \<Rightarrow> bool" where
  "outcome_ok c0 out \<longleftrightarrow> (case out of
      Issue p c \<Rightarrow> invar c \<and> p = bt_prepare bt c 65536 \<and>
        (\<exists>k. progressed c0 c k) \<and> (remaining c = [] \<longrightarrow> remaining c0 = [])
    | Invoke_Handler ec n c \<Rightarrow> n = bt_total_consumed bt c \<and>
        (\<exists>k. progressed c0 c k \<and> (\<not> failed ec \<longrightarrow> k = length (remaining c0))))"

lemma outcome_ok_start:
  "invar c \<Longrightarrow> outcome_ok c (start_read_op bt transfer_all c)"
  by (auto simp: outcome_ok_def start_read_op_def read_op_call_def progressed_def intro: exI [of _ 0])

lemma stream_within:
  assumes "invar c" "stream_completion (bt_prepare bt c m) (ec, n)"
  shows "n \<le> length (remaining c)"
  using transfer_addresses(2) [OF assms(1), of n m] assms(2) by (simp add: stream_completion_def)

lemma transfer_progress:
  assumes "invar c" "progressed c0 c k" "stream_completion (bt_prepare bt c 65536) (ec, n)"
  shows "invar (bt_consume bt c n)" "progressed c0 (bt_consume bt c n) (k + n)"
proof -
  have n: "n \<le> length (remaining c)"
    using stream_within [OF assms(1,3)] .
  from consume_remaining [OF assms(1) n] n assms(2)
  show "invar (bt_consume bt c n)" "progressed c0 (bt_consume bt c n) (k + n)"
    by (auto simp: progressed_def add.commute)
qed

lemma outcome_ok_step:
  assumes ok: "outcome_ok c0 (Issue p c)" and stream: "stream_completion p (ec, n)"
  shows "outcome_ok c0 (read_op_call bt transfer_all False c ec n 0)"
proof -
  from ok obtain k where c: "invar c" "progressed c0 c k" and p: "p = bt_prepare bt c 65536"
    and nil: "remaining c = [] \<Longrightarrow> remaining c0 = []"
    by (auto simp: outcome_ok_def)
  let ?c = "bt_consume bt c n"
  have c': "invar ?c" "progressed c0 ?c (k + n)"
    using transfer_progress [OF c, of ec n] stream p by simp_all
  have empty: "bt_empty bt ?c \<longleftrightarrow> remaining ?c = []"
    using c'(1) by (rule empty_remaining)
  have all: "k + n = length (remaining c0)" if "remaining ?c = []"
    using that c'(2) by (auto simp: progressed_def)
  show ?thesis
  proof (cases "\<not> failed ec \<and> n = 0")
    case True
    then have "remaining c = []"
      using stream prepare_progress [OF c(1), of 65536] by (auto simp: stream_completion_def p)
    then have "remaining c0 = []"
      by (rule nil)
    with True c'(2) show ?thesis
      by (auto simp: outcome_ok_def read_op_call_def progressed_def)
  next
    case False
    with c' empty all show ?thesis
      by (auto simp: outcome_ok_def read_op_call_def Let_def)
  qed
qed

lemma outcome_ok_run:
  "outcome_ok c0 out \<Longrightarrow> stream_script bt transfer_all out script \<Longrightarrow>
   outcome_ok c0 (read_op_run bt transfer_all out script)"
proof (induction script arbitrary: out)
  case (Cons r script)
  then show ?case
    by (cases out; cases r) (auto intro: outcome_ok_step)
qed (cases out; simp)

text \<open>Safety: what the handler of \<open>async_read\<close> is told.\<close>

lemma async_read_handler:
  assumes "invar c" "stream_script bt transfer_all (start_read_op bt transfer_all c) script"
    and "async_read bt c script = Invoke_Handler ec n c'"
  shows "bt_total_consumed bt c \<le> n \<and> n - bt_total_consumed bt c \<le> length (remaining c) \<and>
    remaining c' = drop (n - bt_total_consumed bt c) (remaining c) \<and>
    (\<not> failed ec \<longrightarrow> n - bt_total_consumed bt c = length (remaining c))"
proof -
  have "outcome_ok c (async_read bt c script)"
    unfolding async_read_def by (intro outcome_ok_run outcome_ok_start assms)
  then show ?thesis
    by (auto simp: assms(3) outcome_ok_def progressed_def)
qed

text \<open>
  The handler is invoked after the first completion with an error or the one that fills the buffers, with
  the error code of this completion and the sum of the bytes of all completions up to it.
\<close>

lemma run_counts:
  assumes "outcome_ok c0 (Issue p c)" "stream_script bt transfer_all (Issue p c) script"
    and "read_op_run bt transfer_all (Issue p c) script = Invoke_Handler ec n c'"
  shows "\<exists>k. 0 < k \<and> k \<le> length script \<and> ec = fst (script ! (k - 1)) \<and>
    n = bt_total_consumed bt c + sum_list (map snd (take k script)) \<and> (\<forall>j < k - 1. \<not> failed (fst (script ! j)))"
  using assms
proof (induction script arbitrary: p c)
  case (Cons r script)
  obtain ec1 n1 where r: "r = (ec1, n1)"
    by (cases r)
  let ?out = "read_op_call bt transfer_all False c ec1 n1 0"
  have stream: "stream_completion p (ec1, n1)" "stream_script bt transfer_all ?out script"
    and run: "read_op_run bt transfer_all ?out script = Invoke_Handler ec n c'"
    using Cons.prems(2,3) by (auto simp: r)
  obtain k0 where k0: "progressed c0 c k0" "progressed c0 (bt_consume bt c n1) (k0 + n1)"
    using Cons.prems(1) transfer_progress [of c c0 _ ec1 n1] stream(1) by (auto simp: outcome_ok_def)
  then have count: "bt_total_consumed bt (bt_consume bt c n1) = bt_total_consumed bt c + n1"
    by (simp add: progressed_def)
  show ?case
  proof (cases ?out)
    case (Issue p1 c1)
    then have c1: "c1 = bt_consume bt c n1" "\<not> failed ec1"
      by (auto simp: read_op_call_def Let_def split: if_splits)
    have "outcome_ok c0 (Issue p1 c1)"
      using outcome_ok_step [OF Cons.prems(1) stream(1)] Issue by simp
    then obtain k where k: "0 < k" "k \<le> length script" "ec = fst (script ! (k - 1))"
      "n = bt_total_consumed bt c1 + sum_list (map snd (take k script))" "\<forall>j < k - 1. \<not> failed (fst (script ! j))"
      using Cons.IH [of p1 c1] stream(2) run Issue by auto
    then have "\<not> failed (fst ((r # script) ! j))" if "j < k" for j
      using that c1(2) r by (cases j) auto
    with k show ?thesis
      using c1(1) count r by (intro exI [of _ "Suc k"]) (auto simp: nth_Cons')
  next
    case (Invoke_Handler ec2 n2 c2)
    then have "ec2 = ec1" "n2 = bt_total_consumed bt c + n1"
      using count by (auto simp: read_op_call_def Let_def split: if_splits)
    then show ?thesis
      using run Invoke_Handler r by (intro exI [of _ 1]) simp
  qed
qed simp

lemma async_read_counts:
  assumes "invar c" "stream_script bt transfer_all (start_read_op bt transfer_all c) script"
    and "async_read bt c script = Invoke_Handler ec n c'"
  shows "\<exists>k. 0 < k \<and> k \<le> length script \<and> ec = fst (script ! (k - 1)) \<and>
    n = bt_total_consumed bt c + sum_list (map snd (take k script)) \<and> (\<forall>j < k - 1. \<not> failed (fst (script ! j)))"
  using run_counts [of c "bt_prepare bt c 65536" c script] outcome_ok_start [OF assms(1)] assms(2,3)
  by (simp add: async_read_def start_read_op_def read_op_call_def)

text \<open>
  Liveness: a stream that reports no errors ends the operation after at most as many
  completions as there are bytes (and at least one).
\<close>

lemma run_ends:
  assumes "outcome_ok c0 (Issue p c)" "stream_script bt transfer_all (Issue p c) script"
    and "max 1 (length (remaining c)) \<le> length script"
  shows "\<exists>ec n c'. read_op_run bt transfer_all (Issue p c) script = Invoke_Handler ec n c'"
  using assms
proof (induction script arbitrary: p c)
  case (Cons r script)
  obtain ec n where r: "r = (ec, n)"
    by (cases r)
  let ?out = "read_op_call bt transfer_all False c ec n 0"
  have stream: "stream_completion p (ec, n)" "stream_script bt transfer_all ?out script"
    using Cons.prems(2) by (auto simp: r)
  have ok: "outcome_ok c0 ?out"
    using outcome_ok_step [OF Cons.prems(1) stream(1)] .
  show ?case
  proof (cases ?out)
    case (Issue p' c')
    then have c': "c' = bt_consume bt c n" "\<not> bt_empty bt c'" "\<not> failed ec" "n \<noteq> 0"
      by (auto simp: read_op_call_def Let_def split: if_splits)
    have inv: "invar c" "p = bt_prepare bt c 65536"
      using Cons.prems(1) by (auto simp: outcome_ok_def)
    then have n: "n \<le> length (remaining c)"
      using stream_within stream(1) by simp
    have "length (remaining c') = length (remaining c) - n" "remaining c' \<noteq> []"
      using consume_remaining [OF inv(1) n] c' empty_remaining [of c'] by auto
    then have "max 1 (length (remaining c')) \<le> length script"
      using Cons.prems(3) c'(4) n by (cases "remaining c'") auto
    with Cons.IH [of p' c'] ok stream(2) Issue show ?thesis
      by (simp add: r)
  next
    case (Invoke_Handler ec' n' c')
    then show ?thesis
      by (simp add: r)
  qed
qed simp

lemma async_read_ends:
  assumes "invar c" "stream_script bt transfer_all (start_read_op bt transfer_all c) script"
    and "max 1 (length (remaining c)) \<le> length script"
  shows "\<exists>ec n c'. async_read bt c script = Invoke_Handler ec n c'"
  using run_ends [of c "bt_prepare bt c 65536" c script] outcome_ok_start [OF assms(1)] assms(2,3)
  by (simp add: async_read_def start_read_op_def read_op_call_def)

text \<open>The synchronous loop gives the same answer as the asynchronous operation.\<close>

lemma sync_is_async_run:
  assumes "outcome_ok c0 (Issue p c)" "stream_script bt transfer_all (Issue p c) script"
    "remaining c \<noteq> []" "\<not> failed ec"
  shows "read_buffer_seq_loop bt transfer_all c ec script =
    (case read_op_run bt transfer_all (Issue p c) script of
       Issue _ _ \<Rightarrow> None | Invoke_Handler ec n _ \<Rightarrow> Some (n, ec))"
  using assms
proof (induction script arbitrary: p c ec)
  case Nil
  then have "\<not> bt_empty bt c"
    using empty_remaining by (simp add: outcome_ok_def)
  with Nil show ?case
    by (subst read_buffer_seq_loop.simps)
       (simp add: adapt_size_result_def transfer_all_def default_max_transfer_size_def)
next
  case (Cons r script)
  obtain ec' n where r: "r = (ec', n)"
    by (cases r)
  let ?c = "bt_consume bt c n"
  let ?out = "read_op_call bt transfer_all False c ec' n 0"
  have c: "invar c" "p = bt_prepare bt c 65536"
    using Cons.prems(1) by (auto simp: outcome_ok_def)
  have stream: "stream_completion p (ec', n)" "stream_script bt transfer_all ?out script"
    using Cons.prems(2) by (auto simp: r)
  have c': "invar ?c" "bt_empty bt ?c \<longleftrightarrow> remaining ?c = []"
    using consume_remaining [OF c(1) stream_within] stream(1) c by (auto simp: empty_remaining)
  have moved: "failed ec' \<or> n \<noteq> 0"
    using stream(1) prepare_progress [OF c(1), of 65536] Cons.prems(3)
    by (auto simp: stream_completion_def c(2))
  have "\<not> bt_empty bt c"
    using Cons.prems(3) c(1) by (simp add: empty_remaining)
  then have sync: "read_buffer_seq_loop bt transfer_all c ec ((ec', n) # script) =
      read_buffer_seq_loop bt transfer_all ?c ec' script"
    using Cons.prems(4) by (subst read_buffer_seq_loop.simps)
       (simp add: adapt_size_result_def transfer_all_def default_max_transfer_size_def)
  show ?case
  proof (cases "bt_empty bt ?c \<or> failed ec'")
    case True
    then have "?out = Invoke_Handler ec' (bt_total_consumed bt ?c) ?c"
      by (auto simp: read_op_call_def Let_def)
    moreover have "read_buffer_seq_loop bt transfer_all ?c ec' script = Some (bt_total_consumed bt ?c, ec')"
      using True by (subst read_buffer_seq_loop.simps)
        (auto simp: adapt_size_result_def transfer_all_def default_max_transfer_size_def)
    ultimately show ?thesis
      by (simp add: r sync)
  next
    case False
    then have "?out = Issue (bt_prepare bt ?c 65536) ?c"
      using moved by (auto simp: read_op_call_def Let_def)
    with Cons.IH [of _ ?c ec'] outcome_ok_step [OF Cons.prems(1) stream(1)] stream(2) False c'(2)
    show ?thesis
      by (simp add: r sync)
  qed
qed

lemma sync_is_async:
  assumes "invar c" "stream_script bt transfer_all (start_read_op bt transfer_all c) script"
    "remaining c \<noteq> []"
  shows "read_buffer_seq bt transfer_all c script =
    (case async_read bt c script of Issue _ _ \<Rightarrow> None | Invoke_Handler ec n _ \<Rightarrow> Some (n, ec))"
  using sync_is_async_run [of c "bt_prepare bt c 65536" c script no_error]
    outcome_ok_start [OF assms(1)] assms(2,3)
  by (simp add: read_buffer_seq_def async_read_def start_read_op_def read_op_call_def)

end

section \<open>Properties\<close>

text \<open>
  C19. \<open>async_read\<close> into a sequence of buffers, with any splitting of the data by the network.
  When the handler is invoked, it is told the error code of the last completion, no completion before
  had an error, and the number of bytes is the sum over all completions up to it, one with an error
  included; so many bytes of the buffers are filled, all of them if there was no error. As
  long as the stream reports completions the operation ends after at most one completion per byte.
\<close>

theorem async_read_total:
  assumes "stream_script sequence_buffers transfer_all
      (start_read_op sequence_buffers transfer_all (consuming_new bs)) script"
  shows "(\<forall>ec n c. async_read sequence_buffers (consuming_new bs) script = Invoke_Handler ec n c \<longrightarrow>
      (\<exists>k. 0 < k \<and> k \<le> length script \<and> ec = fst (script ! (k - 1)) \<and> n = sum_list (map snd (take k script)) \<and>
         (\<forall>j < k - 1. \<not> failed (fst (script ! j)))) \<and>
      n \<le> buffer_size bs \<and> seq_remaining c = drop n (extents bs) \<and>
      (\<not> failed ec \<longrightarrow> n = buffer_size bs)) \<and>
    (max 1 (buffer_size bs) \<le> length script \<longrightarrow>
      (\<exists>ec n c. async_read sequence_buffers (consuming_new bs) script = Invoke_Handler ec n c))"
proof -
  have "bt_total_consumed sequence_buffers (consuming_new bs) = 0"
    by (simp add: sequence_buffers_def consuming_new_def)
  then show ?thesis
    using sequence.async_read_handler [OF consuming_new_invar(1) assms]
      sequence.async_read_counts [OF consuming_new_invar(1) assms]
      sequence.async_read_ends [OF consuming_new_invar(1) assms]
    by (fastforce simp: consuming_new_invar(2))
qed

text \<open>
  C20. The synchronous \<open>read\<close> and \<open>write\<close> return exactly the count and error code that the
  asynchronous operation passes to its handler for the same behaviour of the stream, and block
  exactly when the asynchronous operation is still waiting.
\<close>

theorem sync_async_agree:
  assumes "stream_script sequence_buffers transfer_all
      (start_read_op sequence_buffers transfer_all (consuming_new bs)) script"
    and "0 < buffer_size bs"
  shows "read_buffer_seq sequence_buffers transfer_all (consuming_new bs) script =
      (case async_read sequence_buffers (consuming_new bs) script of
         Issue _ _ \<Rightarrow> None | Invoke_Handler ec n _ \<Rightarrow> Some (n, ec)) \<and>
    write_buffer_seq sequence_buffers transfer_all (consuming_new bs) script =
      read_buffer_seq sequence_buffers transfer_all (consuming_new bs) script"
  using sequence.sync_is_async [OF consuming_new_invar(1) assms(1)] assms(2)
  by (auto simp: consuming_new_invar(2) write_buffer_seq_def read_buffer_seq_def write_seq_is_read_seq)

text \<open>Witnesses: five bytes into two buffers, arriving in three pieces, and a lost connection.\<close>

definition two_buffers :: "buffer list" where
  "two_buffers = [\<lparr>buf_data = 0, buf_size = 2\<rparr>, \<lparr>buf_data = 10, buf_size = 3\<rparr>]"

definition three_pieces :: "completion list" where
  "three_pieces = [(no_error, 1), (no_error, 3), (no_error, 1), (no_error, 0), (no_error, 0)]"

lemma three_pieces_script:
  "stream_script sequence_buffers transfer_all
     (start_read_op sequence_buffers transfer_all (consuming_new two_buffers)) three_pieces"
  by (simp add: two_buffers_def three_pieces_def sequence_buffers_def start_read_op_def
      read_op_call_def consuming_new_def consuming_prepare_def consuming_consume_def
      consuming_empty_def buffer_plus_def buffer_max_def max_buffers_def stream_completion_def
      extent_def upt_rec buffer_size_def del: buffer_size_extents)

theorem async_read_total_witness:
  "\<exists>ec n c. async_read sequence_buffers (consuming_new two_buffers) three_pieces = Invoke_Handler ec n c \<and>
     (\<not> failed ec \<longrightarrow> n = 5)"
proof -
  have size: "buffer_size two_buffers = 5"
    by (simp add: two_buffers_def buffer_size_def del: buffer_size_extents)
  have "max 1 (buffer_size two_buffers) \<le> length three_pieces"
    by (simp add: size three_pieces_def del: buffer_size_extents)
  with async_read_total [OF three_pieces_script] size show ?thesis
    by metis
qed

theorem sync_async_agree_witness:
  "\<exists>r. read_buffer_seq sequence_buffers transfer_all (consuming_new two_buffers) three_pieces = r \<and>
     write_buffer_seq sequence_buffers transfer_all (consuming_new two_buffers) three_pieces = r"
proof -
  have "0 < buffer_size two_buffers"
    by (simp add: two_buffers_def buffer_size_def del: buffer_size_extents)
  from sync_async_agree [OF three_pieces_script this] show ?thesis
    by metis
qed

end
