(* ===== verification/Tcp_Connection.thy ===== *)
theory Tcp_Connection
  imports Requests Asio_Transfer
begin

text \<open>
  Model of \<open>networking/TcpConnection.hpp\<close> and \<open>networking/TcpConnection.cpp\<close>: the server's side of
  one connection. The record holds the members of the class; \<open>pending\<close> is the asynchronous
  operation that is outstanding on \<open>mTcpSocket\<close>, with the state of Asio's \<open>read_op\<close> or \<open>write_op\<close> and, for
  a response, the operation that follows it. A connection without a pending operation is
  finished: no handler refers to it any more and it is destroyed.

  An event is the completion of one \<open>read_some\<close> or \<open>write_some\<close> on the socket. The network may split
  the data in any way; the composed operation of Asio collects it, and its handler is called
  when the operation is complete.
\<close>

section \<open>State\<close>

record Config =
  mMaxNumHorcruxAccepted :: u64
  mMaxTotalSizeAccepted :: u64

definition default_Config :: Config where
  "default_Config = \<lparr>mMaxNumHorcruxAccepted = 20, mMaxTotalSizeAccepted = 10000000\<rparr>"

text \<open>The lambda \<open>NEXT_OP\<close> that is given to \<open>sendResponse\<close>.\<close>

datatype next_op = Next_ReadRequestHeader | Next_saveHorcruxes | Next_Nothing

datatype pending_op =
    No_Operation
  | Reading_PreRequestHeader consuming_single_buffer
  | Reading_RequestHeader consuming_single_buffer
  | Reading_RequestContent consuming_single_buffer
  | Writing_Response consuming_single_buffer next_op
  | Undefined_Behaviour

record TcpConnection =
  mConfig :: Config
  mPreRequestHeaderBuffer :: "byte list"
  mPreRequestHeader :: PreRequestHeader
  mRequestHeaderBuffer :: "byte list"
  mRequestHeader :: RequestHeader
  mMessageBuffer :: string
  mCurrentRequestHorcruxes :: "HorcruxData option list"
  pending :: pending_op

definition kOutPath :: string where
  "kOutPath = ''out''"

text \<open>\<open>createNew\<close>: all members have their default values and nothing is pending yet.\<close>

definition createNew :: TcpConnection where
  "createNew = \<lparr>mConfig = default_Config,
     mPreRequestHeaderBuffer = replicate sizeof_PreRequestHeader CHR 0x00,
     mPreRequestHeader = default_PreRequestHeader,
     mRequestHeaderBuffer = replicate sizeof_RequestHeader CHR 0x00,
     mRequestHeader = default_RequestHeader,
     mMessageBuffer = '''', mCurrentRequestHorcruxes = [], pending = No_Operation\<rparr>"

section \<open>Checks\<close>

definition checkPreRequestHeader :: "TcpConnection \<Rightarrow> bool" where
  "checkPreRequestHeader conn =
     (if ucast (mNumHorcruxes (mPreRequestHeader conn)) > mMaxNumHorcruxAccepted (mConfig conn) then False
      else if ucast (mTotalSize (mPreRequestHeader conn)) > mMaxTotalSizeAccepted (mConfig conn) then False
      else True)"

definition checkRequestHeader :: "TcpConnection \<Rightarrow> bool" where
  "checkRequestHeader conn =
     (if mReqUuid (mRequestHeader conn) \<noteq> mUuid (mPreRequestHeader conn) then False
      else if unat (mIndex (mRequestHeader conn)) \<ge> length (mCurrentRequestHorcruxes conn) then False
      else if mCurrentRequestHorcruxes conn ! unat (mIndex (mRequestHeader conn)) \<noteq> None then False
      else True)"

section \<open>Saving\<close>

definition horcrux_path :: "u64 \<Rightarrow> u32 \<Rightarrow> string" where
  "horcrux_path uuid counter =
     path_append kOutPath (to_string uuid @ ''.hcx.'' @ to_string counter)"

text \<open>
  \<open>hcx->mContent\<close> on an empty optional is undefined behaviour, which is \<open>None\<close>. The result of
  \<open>saveFile\<close> is ignored.
\<close>

fun saveHorcruxes_loop :: "u64 \<Rightarrow> filesystem \<Rightarrow> u32 \<Rightarrow> HorcruxData option list \<Rightarrow> filesystem option" where
  "saveHorcruxes_loop uuid fs counter [] = Some fs"
| "saveHorcruxes_loop uuid fs counter (hcx # rest) =
     (case hcx of
        None \<Rightarrow> None
      | Some h \<Rightarrow>
          saveHorcruxes_loop uuid (snd (saveFile fs (mContent h) (horcrux_path uuid counter)))
            (counter + 1) rest)"

definition saveHorcruxes :: "TcpConnection \<Rightarrow> filesystem \<Rightarrow> (bool \<times> filesystem) option" where
  "saveHorcruxes conn fs =
     map_option (Pair True)
       (saveHorcruxes_loop (mUuid (mPreRequestHeader conn)) fs 0 (mCurrentRequestHorcruxes conn))"

section \<open>Starting operations\<close>

text \<open>The proxy over a whole member buffer with which \<open>async_read\<close> and \<open>async_write\<close> start.\<close>

definition whole_buffer :: "nat \<Rightarrow> consuming_single_buffer" where
  "whole_buffer n = single_new \<lparr>buf_data = 0, buf_size = n\<rparr>"

definition ReadPreRequestHeader :: "TcpConnection \<Rightarrow> TcpConnection" where
  "ReadPreRequestHeader conn =
     conn\<lparr>pending := Reading_PreRequestHeader (whole_buffer (length (mPreRequestHeaderBuffer conn)))\<rparr>"

definition ReadRequestHeader :: "TcpConnection \<Rightarrow> TcpConnection" where
  "ReadRequestHeader conn =
     conn\<lparr>pending := Reading_RequestHeader (whole_buffer (length (mRequestHeaderBuffer conn)))\<rparr>"

definition ReadRequestContent :: "TcpConnection \<Rightarrow> TcpConnection" where
  "ReadRequestContent conn =
     conn\<lparr>pending := Reading_RequestContent (single_new (buffer_max
       \<lparr>buf_data = 0, buf_size = length (mMessageBuffer conn)\<rparr>
       (unat (mContentSize (mRequestHeader conn)))))\<rparr>"

definition Start :: "TcpConnection \<Rightarrow> TcpConnection" where
  "Start conn = ReadPreRequestHeader conn"

definition sendResponse :: "bool \<Rightarrow> next_op \<Rightarrow> TcpConnection \<Rightarrow> TcpConnection" where
  "sendResponse outcome next conn =
     (let conn1 = conn\<lparr>mMessageBuffer := (if outcome then ''SUCCESS'' else ''FAILURE'')\<rparr>
      in conn1\<lparr>pending := Writing_Response (whole_buffer (length (mMessageBuffer conn1))) next\<rparr>)"

section \<open>Handlers\<close>

text \<open>The lambda of \<open>ReadPreRequestHeader\<close>.\<close>

definition handle_PreRequestHeader :: "error_code \<Rightarrow> nat \<Rightarrow> TcpConnection \<Rightarrow> TcpConnection" where
  "handle_PreRequestHeader ec len conn =
     (if failed ec then conn\<lparr>pending := No_Operation\<rparr>
      else
        let conn1 = conn\<lparr>mPreRequestHeader :=
              deserializeHeader pre_rep pre_val default_PreRequestHeader (mPreRequestHeaderBuffer conn)\<rparr>
        in if checkPreRequestHeader conn1 then
             sendResponse True Next_ReadRequestHeader
               (conn1\<lparr>mCurrentRequestHorcruxes :=
                  std_resize None (unat (mNumHorcruxes (mPreRequestHeader conn1)))
                    (mCurrentRequestHorcruxes conn1)\<rparr>)
           else sendResponse False Next_Nothing conn1)"

text \<open>The lambda of \<open>ReadRequestHeader\<close>. Deserialising does not look at the padding.\<close>

definition no_padding :: padding where
  "no_padding = (CHR 0x00, CHR 0x00, CHR 0x00, CHR 0x00)"

definition handle_RequestHeader :: "error_code \<Rightarrow> nat \<Rightarrow> TcpConnection \<Rightarrow> TcpConnection" where
  "handle_RequestHeader ec len conn =
     (if failed ec then conn\<lparr>pending := No_Operation\<rparr>
      else
        let conn1 = conn\<lparr>mRequestHeader :=
              deserializeHeader (req_rep no_padding) req_val default_RequestHeader
                (mRequestHeaderBuffer conn)\<rparr>
        in if checkRequestHeader conn1 then
             ReadRequestContent
               (conn1\<lparr>mMessageBuffer := std_resize CHR 0x00
                  (unat (mContentSize (mRequestHeader conn1))) (mMessageBuffer conn1)\<rparr>)
           else sendResponse False Next_Nothing conn1)"

text \<open>The lambda of \<open>ReadRequestContent\<close>.\<close>

definition handle_RequestContent :: "error_code \<Rightarrow> nat \<Rightarrow> TcpConnection \<Rightarrow> TcpConnection" where
  "handle_RequestContent ec len conn =
     (if failed ec then conn\<lparr>pending := No_Operation\<rparr>
      else
        let conn1 = conn\<lparr>mCurrentRequestHorcruxes :=
              (mCurrentRequestHorcruxes conn)[unat (mIndex (mRequestHeader conn)) :=
                 Some \<lparr>mContent = mMessageBuffer conn, mChecksum = ''''\<rparr>]\<rparr>;
            messageComplete = list_all (\<lambda>optHcx. optHcx \<noteq> None) (mCurrentRequestHorcruxes conn1)
        in if messageComplete then sendResponse True Next_saveHorcruxes conn1
           else sendResponse True Next_ReadRequestHeader conn1)"

text \<open>The lambda of \<open>sendResponse\<close>: \<open>writeHandler\<close> only logs, so \<open>NEXT_OP\<close> runs even after an error.\<close>

definition run_next_op :: "next_op \<Rightarrow> TcpConnection \<Rightarrow> filesystem \<Rightarrow> TcpConnection \<times> filesystem" where
  "run_next_op next conn fs = (case next of
      Next_ReadRequestHeader \<Rightarrow> (ReadRequestHeader conn, fs)
    | Next_saveHorcruxes \<Rightarrow>
        (case saveHorcruxes conn fs of
           None \<Rightarrow> (conn\<lparr>pending := Undefined_Behaviour\<rparr>, fs)
         | Some (_, fs') \<Rightarrow> (conn\<lparr>pending := No_Operation\<rparr>, fs'))
    | Next_Nothing \<Rightarrow> (conn\<lparr>pending := No_Operation\<rparr>, fs))"

definition handle_Response ::
  "error_code \<Rightarrow> nat \<Rightarrow> next_op \<Rightarrow> TcpConnection \<Rightarrow> filesystem \<Rightarrow> TcpConnection \<times> filesystem" where
  "handle_Response ec len next conn fs = run_next_op next conn fs"

section \<open>Events\<close>

text \<open>
  Completion of \<open>read_some\<close>: the received bytes are in the member buffer behind what was received
  before, and \<open>read_op\<close> is called.
\<close>

definition on_read_some :: "error_code \<Rightarrow> byte list \<Rightarrow> TcpConnection \<Rightarrow> TcpConnection" where
  "on_read_some ec bytes conn = (case pending conn of
      Reading_PreRequestHeader c \<Rightarrow>
        let conn1 = conn\<lparr>mPreRequestHeaderBuffer :=
              write_at (single_consumed c) bytes (mPreRequestHeaderBuffer conn)\<rparr>
        in (case read_op_call single_buffers transfer_all False c ec (length bytes) 0 of
              Issue _ c' \<Rightarrow> conn1\<lparr>pending := Reading_PreRequestHeader c'\<rparr>
            | Invoke_Handler ec' n _ \<Rightarrow> handle_PreRequestHeader ec' n conn1)
    | Reading_RequestHeader c \<Rightarrow>
        let conn1 = conn\<lparr>mRequestHeaderBuffer :=
              write_at (single_consumed c) bytes (mRequestHeaderBuffer conn)\<rparr>
        in (case read_op_call single_buffers transfer_all False c ec (length bytes) 0 of
              Issue _ c' \<Rightarrow> conn1\<lparr>pending := Reading_RequestHeader c'\<rparr>
            | Invoke_Handler ec' n _ \<Rightarrow> handle_RequestHeader ec' n conn1)
    | Reading_RequestContent c \<Rightarrow>
        let conn1 = conn\<lparr>mMessageBuffer := write_at (single_consumed c) bytes (mMessageBuffer conn)\<rparr>
        in (case read_op_call single_buffers transfer_all False c ec (length bytes) 0 of
              Issue _ c' \<Rightarrow> conn1\<lparr>pending := Reading_RequestContent c'\<rparr>
            | Invoke_Handler ec' n _ \<Rightarrow> handle_RequestContent ec' n conn1)
    | _ \<Rightarrow> conn)"

text \<open>Completion of \<open>write_some\<close>, with the number of bytes that were sent.\<close>

definition on_write_some ::
  "error_code \<Rightarrow> nat \<Rightarrow> TcpConnection \<Rightarrow> filesystem \<Rightarrow> TcpConnection \<times> filesystem" where
  "on_write_some ec n conn fs = (case pending conn of
      Writing_Response c next \<Rightarrow>
        (case write_op_call single_buffers transfer_all False c ec n 0 of
           Issue _ c' \<Rightarrow> (conn\<lparr>pending := Writing_Response c' next\<rparr>, fs)
         | Invoke_Handler ec' m _ \<Rightarrow> handle_Response ec' m next conn fs)
    | _ \<Rightarrow> (conn, fs))"

datatype conn_event = Read_Some error_code "byte list" | Write_Some error_code nat

fun conn_step :: "conn_event \<Rightarrow> TcpConnection \<times> filesystem \<Rightarrow> TcpConnection \<times> filesystem" where
  "conn_step (Read_Some ec bytes) (conn, fs) = (on_read_some ec bytes conn, fs)"
| "conn_step (Write_Some ec n) (conn, fs) = on_write_some ec n conn fs"

text \<open>The bytes an event puts on the wire, towards the client.\<close>

fun conn_output :: "conn_event \<Rightarrow> TcpConnection \<Rightarrow> byte list" where
  "conn_output (Write_Some ec n) conn = (case pending conn of
      Writing_Response c next \<Rightarrow> take n (drop (single_consumed c) (mMessageBuffer conn))
    | _ \<Rightarrow> [])"
| "conn_output (Read_Some ec bytes) conn = []"

text \<open>The events the socket can produce in a state of the connection.\<close>

fun conn_event_ok :: "conn_event \<Rightarrow> TcpConnection \<Rightarrow> bool" where
  "conn_event_ok (Read_Some ec bytes) conn = (case pending conn of
      Reading_PreRequestHeader c \<Rightarrow> stream_completion [single_prepare c 65536] (ec, length bytes)
    | Reading_RequestHeader c \<Rightarrow> stream_completion [single_prepare c 65536] (ec, length bytes)
    | Reading_RequestContent c \<Rightarrow> stream_completion [single_prepare c 65536] (ec, length bytes)
    | _ \<Rightarrow> False)"
| "conn_event_ok (Write_Some ec n) conn = (case pending conn of
      Writing_Response c next \<Rightarrow> stream_completion [single_prepare c 65536] (ec, n)
    | _ \<Rightarrow> False)"

section \<open>Reachable states and their invariant\<close>

inductive conn_reach :: "filesystem \<Rightarrow> TcpConnection \<Rightarrow> filesystem \<Rightarrow> bool" for fs0 where
  started: "conn_reach fs0 (Start createNew) fs0"
| event: "conn_reach fs0 conn fs \<Longrightarrow> conn_event_ok ev conn \<Longrightarrow>
    conn_step ev (conn, fs) = (conn', fs') \<Longrightarrow> conn_reach fs0 conn' fs'"

definition accepted :: "TcpConnection \<Rightarrow> bool" where
  "accepted conn \<longleftrightarrow> checkPreRequestHeader conn \<and>
     length (mCurrentRequestHorcruxes conn) = unat (mNumHorcruxes (mPreRequestHeader conn))"

definition all_received :: "TcpConnection \<Rightarrow> bool" where
  "all_received conn \<longleftrightarrow> list_all (\<lambda>h. h \<noteq> None) (mCurrentRequestHorcruxes conn)"

text \<open>An operation in progress on the first \<open>n\<close> bytes of a member buffer.\<close>

definition in_progress_on :: "nat \<Rightarrow> consuming_single_buffer \<Rightarrow> bool" where
  "in_progress_on n c \<longleftrightarrow> single_buffer c = \<lparr>buf_data = 0, buf_size = n\<rparr> \<and> single_consumed c \<le> n"

definition pending_inv :: "TcpConnection \<Rightarrow> bool" where
  "pending_inv conn \<longleftrightarrow> (case pending conn of
      No_Operation \<Rightarrow> True
    | Reading_PreRequestHeader c \<Rightarrow> in_progress_on 16 c \<and> mCurrentRequestHorcruxes conn = []
    | Reading_RequestHeader c \<Rightarrow> in_progress_on 24 c \<and> accepted conn
    | Reading_RequestContent c \<Rightarrow>
        in_progress_on (unat (mContentSize (mRequestHeader conn))) c \<and>
        length (mMessageBuffer conn) = unat (mContentSize (mRequestHeader conn)) \<and>
        accepted conn \<and> checkRequestHeader conn
    | Writing_Response c next \<Rightarrow>
        in_progress_on 7 c \<and> length (mMessageBuffer conn) = 7 \<and>
        (next \<noteq> Next_Nothing \<longrightarrow> accepted conn) \<and> (next = Next_saveHorcruxes \<longrightarrow> all_received conn)
    | Undefined_Behaviour \<Rightarrow> False)"

definition conn_inv :: "TcpConnection \<Rightarrow> bool" where
  "conn_inv conn \<longleftrightarrow> mConfig conn = default_Config \<and>
     length (mPreRequestHeaderBuffer conn) = 16 \<and> length (mRequestHeaderBuffer conn) = 24 \<and>
     length (mCurrentRequestHorcruxes conn) \<le> 20 \<and> pending_inv conn"


lemma read_op_single:
  "read_op_call single_buffers transfer_all False c ec n 0 =
     (if (\<not> failed ec \<and> n = 0) \<or> buf_size (single_buffer c) \<le> single_consumed c + n \<or> failed ec
      then Invoke_Handler ec (single_consumed c + n) (single_consume c n)
      else Issue [single_prepare (single_consume c n) 65536] (single_consume c n))"
  by (auto simp: read_op_call_def single_buffers_def single_empty_def single_consume_def Let_def)

lemma start_read_op_whole:
  "start_read_op single_buffers transfer_all c = Issue [single_prepare c 65536] c"
  by (simp add: start_read_op_def read_op_call_def single_buffers_def)

lemma single_consume_simps [simp]:
  "single_buffer (single_consume c n) = single_buffer c"
  "single_consumed (single_consume c n) = single_consumed c + n"
  by (simp_all add: single_consume_def)

lemma whole_buffer_simps [simp]:
  "single_buffer (whole_buffer n) = \<lparr>buf_data = 0, buf_size = n\<rparr>" "single_consumed (whole_buffer n) = 0"
  by (simp_all add: whole_buffer_def single_new_def)

lemma stream_completion_single:
  "stream_completion [single_prepare c 65536] (ec, n) \<longleftrightarrow>
     n \<le> min (buf_size (single_buffer c) - single_consumed c) 65536 \<and>
     (\<not> failed ec \<longrightarrow> n = 0 \<longrightarrow> buf_size (single_buffer c) - single_consumed c = 0)"
proof -
  have "buffer_size [single_prepare c 65536] = min (buf_size (single_buffer c) - single_consumed c) 65536"
    by (simp add: single_prepare_def)
  then show ?thesis
    unfolding stream_completion_def by (auto simp: min_def split: if_splits)
qed

text \<open>The checks read the two headers, the configuration and the list of horcruxes.\<close>

lemma check_frame [simp]:
  "checkPreRequestHeader (conn\<lparr>mMessageBuffer := m\<rparr>) = checkPreRequestHeader conn"
  "checkPreRequestHeader (conn\<lparr>pending := p\<rparr>) = checkPreRequestHeader conn"
  "checkPreRequestHeader (conn\<lparr>mRequestHeader := r\<rparr>) = checkPreRequestHeader conn"
  "checkPreRequestHeader (conn\<lparr>mRequestHeaderBuffer := b\<rparr>) = checkPreRequestHeader conn"
  "checkPreRequestHeader (conn\<lparr>mPreRequestHeaderBuffer := b\<rparr>) = checkPreRequestHeader conn"
  "checkPreRequestHeader (conn\<lparr>mCurrentRequestHorcruxes := hs\<rparr>) = checkPreRequestHeader conn"
  "checkRequestHeader (conn\<lparr>mMessageBuffer := m\<rparr>) = checkRequestHeader conn"
  "checkRequestHeader (conn\<lparr>pending := p\<rparr>) = checkRequestHeader conn"
  "checkRequestHeader (conn\<lparr>mRequestHeaderBuffer := b\<rparr>) = checkRequestHeader conn"
  "checkRequestHeader (conn\<lparr>mPreRequestHeaderBuffer := b\<rparr>) = checkRequestHeader conn"
  by (simp_all add: checkPreRequestHeader_def checkRequestHeader_def)

lemma accepted_frame [simp]:
  "accepted (conn\<lparr>mMessageBuffer := m\<rparr>) = accepted conn"
  "accepted (conn\<lparr>pending := p\<rparr>) = accepted conn"
  "accepted (conn\<lparr>mRequestHeader := r\<rparr>) = accepted conn"
  "accepted (conn\<lparr>mRequestHeaderBuffer := b\<rparr>) = accepted conn"
  "accepted (conn\<lparr>mPreRequestHeaderBuffer := b\<rparr>) = accepted conn"
  "accepted (conn\<lparr>mCurrentRequestHorcruxes := (mCurrentRequestHorcruxes conn)[i := h]\<rparr>) = accepted conn"
  "accepted (conn\<lparr>mCurrentRequestHorcruxes :=
     std_resize None (unat (mNumHorcruxes (mPreRequestHeader conn))) hs\<rparr>) = checkPreRequestHeader conn"
  by (simp_all add: accepted_def)

lemma all_received_frame [simp]:
  "all_received (conn\<lparr>mMessageBuffer := m\<rparr>) = all_received conn"
  "all_received (conn\<lparr>pending := p\<rparr>) = all_received conn"
  by (simp_all add: all_received_def)

lemma in_progress_whole [simp]: "in_progress_on n (whole_buffer m) \<longleftrightarrow> m = n"
  by (auto simp: in_progress_on_def)

lemma in_progress_consume:
  "in_progress_on m c \<Longrightarrow> n \<le> m - single_consumed c \<Longrightarrow> in_progress_on m (single_consume c n)"
  by (auto simp: in_progress_on_def)

lemma conn_inv_start: "conn_inv (Start createNew)"
  by (simp add: conn_inv_def pending_inv_def Start_def ReadPreRequestHeader_def createNew_def
      sizeof_PreRequestHeader_def sizeof_RequestHeader_def)

text \<open>The states a handler leaves behind are good whenever the checks it made are.\<close>

lemma pending_inv_none [simp]: "pending_inv (conn\<lparr>pending := No_Operation\<rparr>)"
  by (simp add: pending_inv_def)

lemma pending_inv_sendResponse [simp]:
  "pending_inv (sendResponse b next conn) \<longleftrightarrow>
     (next \<noteq> Next_Nothing \<longrightarrow> accepted conn) \<and> (next = Next_saveHorcruxes \<longrightarrow> all_received conn)"
  by (simp add: pending_inv_def sendResponse_def)

lemma pending_inv_content:
  assumes "accepted conn" "checkRequestHeader conn"
  shows "pending_inv (ReadRequestContent
    (conn\<lparr>mMessageBuffer := std_resize CHR 0x00 (unat (mContentSize (mRequestHeader conn))) msg\<rparr>))"
  using assms
  by (simp add: pending_inv_def in_progress_on_def ReadRequestContent_def single_new_def buffer_max_def)

text \<open>The configuration and the two header buffers are left alone by the handlers.\<close>

lemma handler_frame [simp]:
  "mConfig (handle_PreRequestHeader ec n conn) = mConfig conn"
  "mConfig (handle_RequestHeader ec n conn) = mConfig conn"
  "mConfig (handle_RequestContent ec n conn) = mConfig conn"
  "mPreRequestHeaderBuffer (handle_PreRequestHeader ec n conn) = mPreRequestHeaderBuffer conn"
  "mPreRequestHeaderBuffer (handle_RequestHeader ec n conn) = mPreRequestHeaderBuffer conn"
  "mPreRequestHeaderBuffer (handle_RequestContent ec n conn) = mPreRequestHeaderBuffer conn"
  "mRequestHeaderBuffer (handle_PreRequestHeader ec n conn) = mRequestHeaderBuffer conn"
  "mRequestHeaderBuffer (handle_RequestHeader ec n conn) = mRequestHeaderBuffer conn"
  "mRequestHeaderBuffer (handle_RequestContent ec n conn) = mRequestHeaderBuffer conn"
  by (simp_all add: handle_PreRequestHeader_def handle_RequestHeader_def handle_RequestContent_def
      sendResponse_def ReadRequestContent_def Let_def)

lemma handlers_pending_inv:
  "pending_inv (handle_PreRequestHeader ec n conn)"
  "accepted conn \<Longrightarrow> pending_inv (handle_RequestHeader ec n conn)"
  "accepted conn \<Longrightarrow> pending_inv (handle_RequestContent ec n conn)"
proof -
  show "pending_inv (handle_PreRequestHeader ec n conn)"
    by (auto simp: handle_PreRequestHeader_def Let_def accepted_def)
  show "pending_inv (handle_RequestHeader ec n conn)" if "accepted conn"
    using that by (auto simp: handle_RequestHeader_def Let_def
        intro!: pending_inv_content[of "conn\<lparr>mRequestHeader := _\<rparr>", simplified])
  show "pending_inv (handle_RequestContent ec n conn)" if "accepted conn"
    using that by (auto simp: handle_RequestContent_def Let_def all_received_def)
qed

section \<open>The files of a request\<close>

definition horcrux_files :: "u64 \<Rightarrow> nat \<Rightarrow> string list \<Rightarrow> (string \<times> string) list" where
  "horcrux_files uuid k contents =
     map (\<lambda>(i, c). (horcrux_path uuid (word_of_nat i), c)) (enumerate k contents)"

lemma horcrux_files_simps [simp]:
  "horcrux_files uuid k [] = []"
  "horcrux_files uuid k (c # cs) = (horcrux_path uuid (word_of_nat k), c) # horcrux_files uuid (Suc k) cs"
  by (simp_all add: horcrux_files_def)

lemma saveHorcruxes_loop_Some:
  "saveHorcruxes_loop uuid fs (word_of_nat k) (map Some hs) =
     Some (store_all saveFile fs (horcrux_files uuid k (map mContent hs)))"
proof (induction hs arbitrary: fs k)
  case (Cons h hs)
  show ?case
    using Cons.IH [of _ "Suc k"] by (simp add: add.commute)
qed simp

lemma all_received_Some:
  "all_received conn \<Longrightarrow> mCurrentRequestHorcruxes conn = map Some (map the (mCurrentRequestHorcruxes conn))"
  by (simp add: all_received_def list_all_iff map_idI)

definition received_contents :: "TcpConnection \<Rightarrow> string list" where
  "received_contents conn = map (\<lambda>h. mContent (the h)) (mCurrentRequestHorcruxes conn)"

lemma saveHorcruxes_received:
  assumes "all_received conn"
  shows "saveHorcruxes conn fs = Some (True, store_all saveFile fs
    (horcrux_files (mUuid (mPreRequestHeader conn)) 0 (received_contents conn)))"
proof -
  have "saveHorcruxes_loop uuid fs 0 (mCurrentRequestHorcruxes conn) =
      Some (store_all saveFile fs (horcrux_files uuid 0 (received_contents conn)))" for uuid
    using saveHorcruxes_loop_Some [of uuid fs 0 "map the (mCurrentRequestHorcruxes conn)"]
      all_received_Some [OF assms] by (simp add: received_contents_def comp_def)
  then show ?thesis
    by (simp add: saveHorcruxes_def)
qed

lemma to_string_no_dot: "CHR ''.'' \<notin> set (to_string w)"
  using dec_string_digits [of "unat w"] by (auto simp: to_string_def is_digit_def)

lemma horcrux_path_inj: "horcrux_path u i = horcrux_path v j \<longleftrightarrow> u = v \<and> i = j"
proof
  assume "horcrux_path u i = horcrux_path v j"
  then have eq: "to_string u @ ''.hcx.'' @ to_string i = to_string v @ ''.hcx.'' @ to_string j"
    by (simp add: horcrux_path_def path_append_def)
  have front: "takeWhile (\<lambda>c. c \<noteq> CHR ''.'') (to_string w @ ''.hcx.'' @ s) = to_string w" for w :: u64 and s
    using to_string_no_dot [of w] by (subst takeWhile_append2) auto
  from eq have "to_string u = to_string v"
    using front by metis
  with eq show "u = v \<and> i = j"
    by (auto dest: to_string_inj)
qed simp

lemma horcrux_files_paths:
  "map fst (horcrux_files uuid k cs) =
     map (\<lambda>i. horcrux_path uuid (word_of_nat i)) [k..<k + length cs]"
  by (induction cs arbitrary: k) (simp_all add: upt_rec)

lemma horcrux_files_distinct:
  "k + length cs \<le> 2 ^ 32 \<Longrightarrow> distinct (map fst (horcrux_files uuid k cs))"
proof -
  assume bound: "k + length cs \<le> 2 ^ 32"
  have "inj_on (\<lambda>i. horcrux_path uuid (word_of_nat i)) {k..<k + length cs}"
    using bound by (auto intro!: inj_onI dest!: arg_cong [where f = unat]
        simp: horcrux_path_inj unat_of_nat_u32)
  then show ?thesis
    by (simp add: horcrux_files_paths distinct_map)
qed

section \<open>The invariant is preserved\<close>

lemma checkPreRequestHeader_default:
  "mConfig conn = default_Config \<Longrightarrow> checkPreRequestHeader conn \<longleftrightarrow>
     unat (mNumHorcruxes (mPreRequestHeader conn)) \<le> 20 \<and>
     unat (mTotalSize (mPreRequestHeader conn)) \<le> 10000000"
  by (simp add: checkPreRequestHeader_def default_Config_def word_less_nat_alt unat_ucast_u64 not_less)

lemma handler_horcrux_count:
  assumes "mConfig conn = default_Config" "length (mCurrentRequestHorcruxes conn) \<le> 20"
  shows "length (mCurrentRequestHorcruxes (handle_PreRequestHeader ec n conn)) \<le> 20"
    "length (mCurrentRequestHorcruxes (handle_RequestHeader ec n conn)) \<le> 20"
    "length (mCurrentRequestHorcruxes (handle_RequestContent ec n conn)) \<le> 20"
  using assms
  by (auto simp: handle_PreRequestHeader_def handle_RequestHeader_def handle_RequestContent_def
      sendResponse_def ReadRequestContent_def Let_def checkPreRequestHeader_default)

lemma pending_inv_simps:
  "pending_inv (conn\<lparr>pending := Reading_PreRequestHeader c\<rparr>) \<longleftrightarrow>
     in_progress_on 16 c \<and> mCurrentRequestHorcruxes conn = []"
  "pending_inv (conn\<lparr>pending := Reading_RequestHeader c\<rparr>) \<longleftrightarrow> in_progress_on 24 c \<and> accepted conn"
  "pending_inv (conn\<lparr>pending := Reading_RequestContent c\<rparr>) \<longleftrightarrow>
     in_progress_on (unat (mContentSize (mRequestHeader conn))) c \<and>
     length (mMessageBuffer conn) = unat (mContentSize (mRequestHeader conn)) \<and>
     accepted conn \<and> checkRequestHeader conn"
  by (simp_all add: pending_inv_def)

lemma conn_inv_read:
  assumes inv: "conn_inv conn" and ok: "conn_event_ok (Read_Some ec bytes) conn"
  shows "conn_inv (on_read_some ec bytes conn)"
proof (cases "pending conn")
  case (Reading_PreRequestHeader c)
  then have c: "in_progress_on 16 c" "length bytes \<le> 16 - single_consumed c" and
    facts: "mCurrentRequestHorcruxes conn = []" "single_consumed c + length bytes \<le> 16"
    using inv ok by (auto simp: conn_inv_def pending_inv_def in_progress_on_def stream_completion_single)
  then show ?thesis
    using Reading_PreRequestHeader inv in_progress_consume [OF c]
    by (simp add: on_read_some_def read_op_single conn_inv_def handlers_pending_inv pending_inv_simps
        handler_horcrux_count)
next
  case (Reading_RequestHeader c)
  then have c: "in_progress_on 24 c" "length bytes \<le> 24 - single_consumed c" and
    facts: "accepted conn" "single_consumed c + length bytes \<le> 24"
    using inv ok by (auto simp: conn_inv_def pending_inv_def in_progress_on_def stream_completion_single)
  then show ?thesis
    using Reading_RequestHeader inv in_progress_consume [OF c]
    by (simp add: on_read_some_def read_op_single conn_inv_def handlers_pending_inv pending_inv_simps
        handler_horcrux_count)
next
  case (Reading_RequestContent c)
  let ?n = "unat (mContentSize (mRequestHeader conn))"
  have c: "in_progress_on ?n c" "length bytes \<le> ?n - single_consumed c" and
    facts: "accepted conn" "checkRequestHeader conn" "length (mMessageBuffer conn) = ?n"
      "single_consumed c + length bytes \<le> ?n"
    using Reading_RequestContent inv ok
    by (auto simp: conn_inv_def pending_inv_def in_progress_on_def stream_completion_single)
  then show ?thesis
    using Reading_RequestContent inv in_progress_consume [OF c]
    by (simp add: on_read_some_def read_op_single conn_inv_def handlers_pending_inv pending_inv_simps
        handler_horcrux_count)
qed (use ok in simp_all)

lemma run_next_op_cases:
  assumes "accepted conn \<or> next = Next_Nothing" "next = Next_saveHorcruxes \<longrightarrow> all_received conn"
  shows "run_next_op next conn fs = (case next of
      Next_ReadRequestHeader \<Rightarrow> (ReadRequestHeader conn, fs)
    | Next_saveHorcruxes \<Rightarrow> (conn\<lparr>pending := No_Operation\<rparr>, store_all saveFile fs
        (horcrux_files (mUuid (mPreRequestHeader conn)) 0 (received_contents conn)))
    | Next_Nothing \<Rightarrow> (conn\<lparr>pending := No_Operation\<rparr>, fs))"
  using assms by (auto simp: run_next_op_def saveHorcruxes_received split: next_op.split)

lemma conn_inv_write:
  assumes inv: "conn_inv conn" and ok: "conn_event_ok (Write_Some ec n) conn"
  shows "conn_inv (fst (on_write_some ec n conn fs))"
proof (cases "pending conn")
  case (Writing_Response c nx_op)
  then have c: "in_progress_on 7 c" "n \<le> 7 - single_consumed c" and
    nx: "accepted conn \<or> nx_op = Next_Nothing" "nx_op = Next_saveHorcruxes \<longrightarrow> all_received conn"
    using inv ok by (auto simp: conn_inv_def pending_inv_def in_progress_on_def stream_completion_single)
  have "conn_inv (fst (run_next_op nx_op conn fs))"
    using inv nx unfolding run_next_op_cases [OF nx]
    by (auto simp: conn_inv_def ReadRequestHeader_def pending_inv_def split: next_op.split)
  moreover have "conn_inv (conn\<lparr>pending := Writing_Response (single_consume c n) nx_op\<rparr>)"
    using Writing_Response inv in_progress_consume [OF c] by (simp add: conn_inv_def pending_inv_def)
  ultimately show ?thesis
    by (simp add: on_write_some_def Writing_Response write_op_is_read_op read_op_single handle_Response_def)
qed (use ok in simp_all)

lemma conn_inv_step:
  assumes "conn_inv conn" "conn_event_ok ev conn" "conn_step ev (conn, fs) = (conn', fs')"
  shows "conn_inv conn'"
  using assms conn_inv_read conn_inv_write [where fs = fs] by (cases ev) (auto, metis fst_conv)

lemma conn_reach_inv: "conn_reach fs0 conn fs \<Longrightarrow> conn_inv conn"
  by (induction rule: conn_reach.induct) (auto intro: conn_inv_start conn_inv_step)

text \<open>The disk is written once, in the last step of a complete request.\<close>

lemma conn_step_files:
  assumes inv: "conn_inv conn" and "conn_event_ok ev conn" "conn_step ev (conn, fs) = (conn', fs')"
  shows "fs' = fs \<or>
    pending conn' = No_Operation \<and> accepted conn' \<and> all_received conn' \<and>
    fs' = store_all saveFile fs
      (horcrux_files (mUuid (mPreRequestHeader conn')) 0 (received_contents conn'))"
proof (cases ev)
  case (Write_Some ec n)
  with assms obtain c "next" where p: "pending conn = Writing_Response c next"
    by (cases "pending conn") auto
  then have nx: "accepted conn \<or> next = Next_Nothing" "next = Next_saveHorcruxes \<longrightarrow> all_received conn"
    using inv by (auto simp: conn_inv_def pending_inv_def)
  show ?thesis
    using assms(3) nx unfolding Write_Some
    by (auto simp: on_write_some_def p write_op_is_read_op read_op_single handle_Response_def
        run_next_op_cases [OF nx] received_contents_def split: if_splits next_op.splits)
qed (use assms in simp)

lemma conn_reach_files:
  "conn_reach fs0 conn fs \<Longrightarrow> fs = fs0 \<or>
    pending conn = No_Operation \<and> accepted conn \<and> all_received conn \<and>
    fs = store_all saveFile fs0 (horcrux_files (mUuid (mPreRequestHeader conn)) 0 (received_contents conn))"
proof (induction rule: conn_reach.induct)
  case (event conn fs ev conn' fs')
  then have "pending conn \<noteq> No_Operation"
    by (cases ev) auto
  with event conn_step_files [OF conn_reach_inv [OF event.hyps(1)] event.hyps(2,3)] show ?case
    by auto
qed simp

section \<open>Runs\<close>

fun conn_run :: "conn_event list \<Rightarrow> TcpConnection \<times> filesystem \<Rightarrow> TcpConnection \<times> filesystem" where
  "conn_run [] s = s"
| "conn_run (ev # evs) s = conn_run evs (conn_step ev s)"

fun conn_run_output :: "conn_event list \<Rightarrow> TcpConnection \<times> filesystem \<Rightarrow> byte list" where
  "conn_run_output [] s = []"
| "conn_run_output (ev # evs) s = conn_output ev (fst s) @ conn_run_output evs (conn_step ev s)"

fun conn_run_ok :: "conn_event list \<Rightarrow> TcpConnection \<times> filesystem \<Rightarrow> bool" where
  "conn_run_ok [] s = True"
| "conn_run_ok (ev # evs) s \<longleftrightarrow> conn_event_ok ev (fst s) \<and> conn_run_ok evs (conn_step ev s)"

lemma conn_run_append [simp]:
  "conn_run (xs @ ys) s = conn_run ys (conn_run xs s)"
  "conn_run_output (xs @ ys) s = conn_run_output xs s @ conn_run_output ys (conn_run xs s)"
  "conn_run_ok (xs @ ys) s \<longleftrightarrow> conn_run_ok xs s \<and> conn_run_ok ys (conn_run xs s)"
  by (induction xs arbitrary: s) auto

lemma conn_run_reach:
  "conn_reach fs0 conn fs \<Longrightarrow> conn_run_ok evs (conn, fs) \<Longrightarrow>
   conn_reach fs0 (fst (conn_run evs (conn, fs))) (snd (conn_run evs (conn, fs)))"
proof (induction evs arbitrary: conn fs)
  case (Cons ev evs)
  obtain conn' fs' where "conn_step ev (conn, fs) = (conn', fs')"
    by (cases "conn_step ev (conn, fs)")
  with Cons show ?case
    by (auto intro: conn_reach.event)
qed simp

text \<open>How the network may cut a message into pieces.\<close>

definition chunking :: "byte list \<Rightarrow> byte list list \<Rightarrow> bool" where
  "chunking msg chunks \<longleftrightarrow> concat chunks = msg \<and>
     (if msg = [] then chunks = [[]] else list_all (\<lambda>b. b \<noteq> [] \<and> length b \<le> 65536) chunks)"

definition write_cuts :: "nat \<Rightarrow> nat list \<Rightarrow> bool" where
  "write_cuts n ns \<longleftrightarrow> sum_list ns = n \<and> list_all (\<lambda>k. 0 < k \<and> k \<le> 65536) ns"

text \<open>
  The three reading states have the same structure: a member buffer, and a handler that is
  called when the buffer is full.
\<close>

locale member_read =
  fixes reading :: "consuming_single_buffer \<Rightarrow> pending_op"
    and buf :: "TcpConnection \<Rightarrow> byte list"
    and set_buf :: "byte list \<Rightarrow> TcpConnection \<Rightarrow> TcpConnection"
    and handler :: "error_code \<Rightarrow> nat \<Rightarrow> TcpConnection \<Rightarrow> TcpConnection"
  assumes read_some: "on_read_some ec bytes (conn\<lparr>pending := reading c\<rparr>) =
      (let conn1 = set_buf (write_at (single_consumed c) bytes (buf conn)) conn
       in case read_op_call single_buffers transfer_all False c ec (length bytes) 0 of
            Issue _ c' \<Rightarrow> conn1\<lparr>pending := reading c'\<rparr>
          | Invoke_Handler ec' n _ \<Rightarrow> handler ec' n conn1)"
    and read_ok: "conn_event_ok (Read_Some ec bytes) (conn\<lparr>pending := reading c\<rparr>) \<longleftrightarrow>
      stream_completion [single_prepare c 65536] (ec, length bytes)"
    and buf_set: "buf (set_buf b conn) = b"
    and set_set: "set_buf b (set_buf b' conn) = set_buf b conn"
    and failure: "failed ec \<Longrightarrow> pending (handler ec n conn) = No_Operation"
begin

lemma deliver_rest:
  assumes "chunks \<noteq> []" "list_all (\<lambda>b. b \<noteq> [] \<and> length b \<le> 65536) chunks"
    and "in_progress_on n c" "single_consumed c + length (concat chunks) = n" "length (buf conn) = n"
  shows "conn_run_ok (map (Read_Some no_error) chunks) (conn\<lparr>pending := reading c\<rparr>, fs) \<and>
    conn_run (map (Read_Some no_error) chunks) (conn\<lparr>pending := reading c\<rparr>, fs) =
      (handler no_error n (set_buf (take (single_consumed c) (buf conn) @ concat chunks) conn), fs)"
  using assms
proof (induction chunks arbitrary: c conn)
  case (Cons b chunks)
  let ?conn = "set_buf (write_at (single_consumed c) b (buf conn)) conn"
  have b: "b \<noteq> []" "length b \<le> 65536" and c: "single_buffer c = \<lparr>buf_data = 0, buf_size = n\<rparr>"
    using Cons.prems by (auto simp: in_progress_on_def)
  have ok: "conn_event_ok (Read_Some no_error b) (conn\<lparr>pending := reading c\<rparr>)"
    unfolding read_ok stream_completion_single using b c Cons.prems(4) by auto
  show ?case
  proof (cases chunks)
    case Nil
    then show ?thesis
      using ok b c Cons.prems by (simp add: read_some read_op_single write_at_def)
  next
    case (Cons b' chunks')
    have "in_progress_on n (single_consume c (length b))" "length (buf ?conn) = n"
      "single_consumed (single_consume c (length b)) + length (concat chunks) = n" "chunks \<noteq> []"
      "list_all (\<lambda>b. b \<noteq> [] \<and> length b \<le> 65536) chunks"
      using Cons.prems Cons c by (auto simp: in_progress_on_def buf_set)
    note IH = Cons.IH [OF this(4,5,1,3,2)]
    have "length b' > 0"
      using Cons.prems(2) \<open>chunks = b' # chunks'\<close> by simp
    then have "\<not> n \<le> single_consumed c + length b"
      using Cons.prems(4) \<open>chunks = b' # chunks'\<close> by auto
    then have "on_read_some no_error b (conn\<lparr>pending := reading c\<rparr>) =
        ?conn\<lparr>pending := reading (single_consume c (length b))\<rparr>"
      using b c by (simp add: read_some read_op_single)
    moreover have "take (single_consumed c + length b) (buf ?conn) = take (single_consumed c) (buf conn) @ b"
      using Cons.prems(4,5) by (simp add: buf_set take_write_at)
    ultimately show ?thesis
      using IH ok by (simp add: set_set del: conn_event_ok.simps)
  qed
qed simp

lemma deliver:
  assumes "chunking msg chunks" "length (buf conn) = length msg"
  shows "conn_run_ok (map (Read_Some no_error) chunks) (conn\<lparr>pending := reading (whole_buffer (length msg))\<rparr>, fs) \<and>
    conn_run (map (Read_Some no_error) chunks) (conn\<lparr>pending := reading (whole_buffer (length msg))\<rparr>, fs) =
      (handler no_error (length msg) (set_buf msg conn), fs)"
proof (cases "msg = []")
  case True
  with assms have "chunks = [[]]" "conn_event_ok (Read_Some no_error []) (conn\<lparr>pending := reading (whole_buffer 0)\<rparr>)"
    by (simp_all only: chunking_def read_ok stream_completion_single) simp_all
  with True assms show ?thesis
    by (simp add: read_some read_op_single write_at_def del: conn_event_ok.simps)
next
  case False
  with assms have "chunks \<noteq> []" "list_all (\<lambda>b. b \<noteq> [] \<and> length b \<le> 65536) chunks" "concat chunks = msg"
    by (auto simp: chunking_def)
  then show ?thesis
    using deliver_rest [of chunks "length msg" "whole_buffer (length msg)" conn fs] assms(2) by simp
qed

end

lemma handler_pending [simp]:
  "handle_PreRequestHeader ec n (conn\<lparr>pending := p\<rparr>) = handle_PreRequestHeader ec n conn"
  "handle_RequestHeader ec n (conn\<lparr>pending := p\<rparr>) = handle_RequestHeader ec n conn"
  "handle_RequestContent ec n (conn\<lparr>pending := p\<rparr>) = handle_RequestContent ec n conn"
  by (simp_all add: handle_PreRequestHeader_def handle_RequestHeader_def handle_RequestContent_def
      sendResponse_def ReadRequestContent_def Let_def checkPreRequestHeader_def checkRequestHeader_def)

text \<open>Updates of a member and of the pending operation commute.\<close>

lemma pending_commute:
  "conn\<lparr>pending := p, mPreRequestHeaderBuffer := b\<rparr> = conn\<lparr>mPreRequestHeaderBuffer := b, pending := p\<rparr>"
  "conn\<lparr>pending := p, mRequestHeaderBuffer := b\<rparr> = conn\<lparr>mRequestHeaderBuffer := b, pending := p\<rparr>"
  "conn\<lparr>pending := p, mMessageBuffer := m\<rparr> = conn\<lparr>mMessageBuffer := m, pending := p\<rparr>"
  by simp_all

lemma handler_read_pending:
  "handle_PreRequestHeader ec n (conn\<lparr>pending := p, mPreRequestHeaderBuffer := b\<rparr>) =
     handle_PreRequestHeader ec n (conn\<lparr>mPreRequestHeaderBuffer := b\<rparr>)"
  "handle_RequestHeader ec n (conn\<lparr>pending := p, mRequestHeaderBuffer := b\<rparr>) =
     handle_RequestHeader ec n (conn\<lparr>mRequestHeaderBuffer := b\<rparr>)"
  "handle_RequestContent ec n (conn\<lparr>pending := p, mMessageBuffer := b\<rparr>) =
     handle_RequestContent ec n (conn\<lparr>mMessageBuffer := b\<rparr>)"
  by (simp_all only: pending_commute handler_pending)

lemma handler_failed:
  assumes "failed ec"
  shows "handle_PreRequestHeader ec n conn = conn\<lparr>pending := No_Operation\<rparr>"
    "handle_RequestHeader ec n conn = conn\<lparr>pending := No_Operation\<rparr>"
    "handle_RequestContent ec n conn = conn\<lparr>pending := No_Operation\<rparr>"
  using assms by (simp_all add: handle_PreRequestHeader_def handle_RequestHeader_def handle_RequestContent_def)

interpretation pre_header_read: member_read Reading_PreRequestHeader mPreRequestHeaderBuffer
    "\<lambda>b conn. conn\<lparr>mPreRequestHeaderBuffer := b\<rparr>" handle_PreRequestHeader
  by unfold_locales
    (simp_all add: on_read_some_def Let_def handler_read_pending handler_failed split: op_outcome.split)

interpretation request_header_read: member_read Reading_RequestHeader mRequestHeaderBuffer
    "\<lambda>b conn. conn\<lparr>mRequestHeaderBuffer := b\<rparr>" handle_RequestHeader
  by unfold_locales
    (simp_all add: on_read_some_def Let_def handler_read_pending handler_failed split: op_outcome.split)

interpretation content_read: member_read Reading_RequestContent mMessageBuffer
    "\<lambda>b conn. conn\<lparr>mMessageBuffer := b\<rparr>" handle_RequestContent
  by unfold_locales
    (simp_all add: on_read_some_def Let_def handler_read_pending handler_failed split: op_outcome.split)

text \<open>Sending a response in any number of parts.\<close>

lemma run_next_op_pending [simp]: "run_next_op nx (conn\<lparr>pending := p\<rparr>) fs = run_next_op nx conn fs"
  by (simp add: run_next_op_def ReadRequestHeader_def saveHorcruxes_def split: next_op.split option.split)

lemma send_rest:
  assumes "in_progress_on (length (mMessageBuffer conn)) c" "ns \<noteq> []" "list_all (\<lambda>k. 0 < k \<and> k \<le> 65536) ns"
    "single_consumed c + sum_list ns = length (mMessageBuffer conn)"
  shows "conn_run_ok (map (Write_Some no_error) ns) (conn\<lparr>pending := Writing_Response c nx\<rparr>, fs) \<and>
    conn_run (map (Write_Some no_error) ns) (conn\<lparr>pending := Writing_Response c nx\<rparr>, fs) = run_next_op nx conn fs \<and>
    conn_run_output (map (Write_Some no_error) ns) (conn\<lparr>pending := Writing_Response c nx\<rparr>, fs) =
      drop (single_consumed c) (mMessageBuffer conn)"
  using assms
proof (induction ns arbitrary: c)
  case (Cons n ns)
  let ?s = "(conn\<lparr>pending := Writing_Response c nx\<rparr>, fs)"
  have c: "single_buffer c = \<lparr>buf_data = 0, buf_size = length (mMessageBuffer conn)\<rparr>" and n: "0 < n" "n \<le> 65536"
    using Cons.prems by (auto simp: in_progress_on_def)
  have ok: "conn_event_ok (Write_Some no_error n) (fst ?s)"
    using c n Cons.prems(4) by (auto simp: stream_completion_single)
  show ?case
  proof (cases "ns = []")
    case True
    then have "conn_step (Write_Some no_error n) ?s = run_next_op nx conn fs"
      using c n Cons.prems(4) by (simp add: on_write_some_def write_op_is_read_op read_op_single handle_Response_def)
    then show ?thesis
      using True ok Cons.prems(4) by (simp del: conn_event_ok.simps)
  next
    case False
    then have "0 < sum_list ns"
      using Cons.prems(3) by (cases ns) auto
    then have step: "conn_step (Write_Some no_error n) ?s =
        (conn\<lparr>pending := Writing_Response (single_consume c n) nx\<rparr>, fs)"
      using c n Cons.prems(4) by (simp add: on_write_some_def write_op_is_read_op read_op_single)
    have "in_progress_on (length (mMessageBuffer conn)) (single_consume c n)"
      using Cons.prems(1,4) by (intro in_progress_consume) auto
    from Cons.IH [OF this False] Cons.prems have
      "conn_run_ok (map (Write_Some no_error) ns) (conn_step (Write_Some no_error n) ?s)"
      "conn_run (map (Write_Some no_error) ns) (conn_step (Write_Some no_error n) ?s) = run_next_op nx conn fs"
      "conn_run_output (map (Write_Some no_error) ns) (conn_step (Write_Some no_error n) ?s) =
        drop (single_consumed c + n) (mMessageBuffer conn)"
      unfolding step by simp_all
    then show ?thesis
      using ok by (simp del: conn_event_ok.simps conn_step.simps)
        (metis add.commute append_take_drop_id drop_drop)
  qed
qed simp

lemma sendResponse_eq:
  "sendResponse b nx conn = conn\<lparr>mMessageBuffer := (if b then ''SUCCESS'' else ''FAILURE''),
     pending := Writing_Response (whole_buffer 7) nx\<rparr>"
  by (simp add: sendResponse_def eval_nat_numeral)

lemma send:
  assumes "write_cuts 7 ns"
  shows "conn_run_ok (map (Write_Some no_error) ns) (sendResponse b nx conn, fs) \<and>
    conn_run (map (Write_Some no_error) ns) (sendResponse b nx conn, fs) =
      run_next_op nx (sendResponse b nx conn) fs \<and>
    conn_run_output (map (Write_Some no_error) ns) (sendResponse b nx conn, fs) =
      (if b then ''SUCCESS'' else ''FAILURE'')"
proof -
  let ?conn = "conn\<lparr>mMessageBuffer := (if b then ''SUCCESS'' else ''FAILURE'')\<rparr>"
  have "ns \<noteq> []" "list_all (\<lambda>k. 0 < k \<and> k \<le> 65536) ns" "sum_list ns = 7"
    using assms by (auto simp: write_cuts_def)
  then show ?thesis
    using send_rest [of ?conn "whole_buffer 7" ns nx fs]
    unfolding sendResponse_eq by simp
qed

end
