(* ===== verification/Save_Protocol.thy ===== *)
theory Save_Protocol
  imports Tcp_Connection
begin

text \<open>
  The protocol a connection implements, as an abstract machine over whole messages, and the
  proof that \<open>TcpConnection\<close> refines it for every way in which the network may cut the messages
  and responses. The abstract machine knows nothing of buffers, operations and handlers.
\<close>

section \<open>Abstract protocol\<close>

datatype session = Collecting u64 "string option list" | Complete u64 "string list" | Rejected

definition spec_pre :: "PreRequestHeader \<Rightarrow> bool \<times> session" where
  "spec_pre p =
     (if unat (mNumHorcruxes p) \<le> 20 \<and> unat (mTotalSize p) \<le> 10000000
      then (True, Collecting (mUuid p) (replicate (unat (mNumHorcruxes p)) None))
      else (False, Rejected))"

definition spec_header_ok :: "RequestHeader \<Rightarrow> u64 \<Rightarrow> string option list \<Rightarrow> bool" where
  "spec_header_ok r uuid ps \<longleftrightarrow> mReqUuid r = uuid \<and> unat (mIndex r) < length ps \<and> ps ! unat (mIndex r) = None"

fun spec_request :: "RequestHeader \<Rightarrow> string \<Rightarrow> session \<Rightarrow> bool \<times> session" where
  "spec_request r content (Collecting uuid ps) =
     (if spec_header_ok r uuid ps then
        (let ps' = ps[unat (mIndex r) := Some content]
         in (True, if None \<in> set ps' then Collecting uuid ps' else Complete uuid (map the ps')))
      else (False, Rejected))"
| "spec_request r content s = (False, s)"

definition response :: "bool \<Rightarrow> byte list" where
  "response ok = (if ok then ''SUCCESS'' else ''FAILURE'')"

text \<open>What a session that ends in a state leaves on the disk.\<close>

fun spec_store :: "session \<Rightarrow> filesystem \<Rightarrow> filesystem" where
  "spec_store (Complete uuid contents) fs = store_all saveFile fs (horcrux_files uuid 0 contents)"
| "spec_store s fs = fs"

section \<open>Simulation\<close>

fun simulates :: "session \<Rightarrow> TcpConnection \<Rightarrow> bool" where
  "simulates (Collecting uuid ps) conn \<longleftrightarrow> conn_inv conn \<and>
     pending conn = Reading_RequestHeader (whole_buffer 24) \<and> mUuid (mPreRequestHeader conn) = uuid \<and>
     map (map_option mContent) (mCurrentRequestHorcruxes conn) = ps"
| "simulates (Complete uuid contents) conn \<longleftrightarrow>
     pending conn = No_Operation \<and> mUuid (mPreRequestHeader conn) = uuid \<and>
     map (map_option mContent) (mCurrentRequestHorcruxes conn) = map Some contents"
| "simulates Rejected conn \<longleftrightarrow> pending conn = No_Operation"

lemma conn_inv_run:
  "conn_inv conn \<Longrightarrow> conn_run_ok evs (conn, fs) \<Longrightarrow> conn_inv (fst (conn_run evs (conn, fs)))"
proof (induction evs arbitrary: conn fs)
  case (Cons ev evs)
  obtain conn' fs' where "conn_step ev (conn, fs) = (conn', fs')"
    by (cases "conn_step ev (conn, fs)")
  with Cons show ?case
    by (auto intro: conn_inv_step)
qed simp

lemma read_output [simp]: "conn_run_output (map (Read_Some ec) chunks) s = []"
  by (induction chunks arbitrary: s) auto

text \<open>The pre-request.\<close>

definition pre_round :: "byte list list \<Rightarrow> nat list \<Rightarrow> conn_event list" where
  "pre_round chunks ns = map (Read_Some no_error) chunks @ map (Write_Some no_error) ns"

lemma handle_PreRequestHeader_eq:
  assumes "mConfig conn = default_Config" "mPreRequestHeaderBuffer conn = serializeHeader pre_rep p"
    "mCurrentRequestHorcruxes conn = []"
  shows "handle_PreRequestHeader no_error n conn =
    (if fst (spec_pre p) then
       sendResponse True Next_ReadRequestHeader (conn\<lparr>mPreRequestHeader := p,
         mCurrentRequestHorcruxes := replicate (unat (mNumHorcruxes p)) None\<rparr>)
     else sendResponse False Next_Nothing (conn\<lparr>mPreRequestHeader := p\<rparr>))"
  using assms
  by (simp add: handle_PreRequestHeader_def Let_def pre_header.deserialize_serialize
      checkPreRequestHeader_default spec_pre_def)

lemma pre_round_refines:
  assumes "chunking (serializeHeader pre_rep p) chunks" "write_cuts 7 ns"
  shows "conn_run_ok (pre_round chunks ns) (Start createNew, fs) \<and>
    conn_run_output (pre_round chunks ns) (Start createNew, fs) = response (fst (spec_pre p)) \<and>
    simulates (snd (spec_pre p)) (fst (conn_run (pre_round chunks ns) (Start createNew, fs))) \<and>
    snd (conn_run (pre_round chunks ns) (Start createNew, fs)) = fs"
proof -
  let ?msg = "serializeHeader pre_rep p"
  let ?conn = "createNew\<lparr>mPreRequestHeaderBuffer := ?msg\<rparr>"
  let ?handled = "handle_PreRequestHeader no_error 16 ?conn"
  have len: "length ?msg = 16" "length (mPreRequestHeaderBuffer createNew) = 16"
    "length (mRequestHeaderBuffer createNew) = 24"
    using pre_header.serialize_length [of p]
    by (simp_all add: sizeof_PreRequestHeader_def sizeof_RequestHeader_def createNew_def)
  have start: "Start createNew = createNew\<lparr>pending := Reading_PreRequestHeader (whole_buffer (length ?msg))\<rparr>"
    by (simp add: Start_def ReadPreRequestHeader_def len)
  have read: "conn_run_ok (map (Read_Some no_error) chunks) (Start createNew, fs)"
    "conn_run (map (Read_Some no_error) chunks) (Start createNew, fs) = (?handled, fs)"
    using pre_header_read.deliver [OF assms(1), of createNew fs] len unfolding start by simp_all
  have handled: "?handled = (if fst (spec_pre p) then
      sendResponse True Next_ReadRequestHeader (?conn\<lparr>mPreRequestHeader := p,
         mCurrentRequestHorcruxes := replicate (unat (mNumHorcruxes p)) None\<rparr>)
     else sendResponse False Next_Nothing (?conn\<lparr>mPreRequestHeader := p\<rparr>))"
    by (rule handle_PreRequestHeader_eq) (simp_all add: createNew_def)
  note sent = send [OF assms(2), THEN conjunct1] send [OF assms(2), THEN conjunct2, THEN conjunct1]
    send [OF assms(2), THEN conjunct2, THEN conjunct2]
  have ok: "conn_run_ok (pre_round chunks ns) (Start createNew, fs)"
    by (simp add: pre_round_def read handled sent)
  have final: "conn_run (pre_round chunks ns) (Start createNew, fs) =
      ((if fst (spec_pre p) then ReadRequestHeader ?handled else ?handled\<lparr>pending := No_Operation\<rparr>), fs)"
    by (simp add: pre_round_def read handled sent run_next_op_def)
  have "simulates (snd (spec_pre p)) (fst (conn_run (pre_round chunks ns) (Start createNew, fs)))"
    using conn_inv_run [OF conn_inv_start ok]
    by (auto simp: final handled spec_pre_def ReadRequestHeader_def sendResponse_eq len)
  with ok final show ?thesis
    by (simp add: pre_round_def read handled sent response_def)
qed

text \<open>A request: its header, its content if the header is accepted, and the response.\<close>

definition request_round :: "bool \<Rightarrow> byte list list \<Rightarrow> byte list list \<Rightarrow> nat list \<Rightarrow> conn_event list" where
  "request_round ok hchunks cchunks ns =
     map (Read_Some no_error) hchunks @ (if ok then map (Read_Some no_error) cchunks else []) @
     map (Write_Some no_error) ns"

lemma handle_RequestHeader_eq:
  assumes "mRequestHeaderBuffer conn = serializeHeader (req_rep pad) r"
  shows "handle_RequestHeader no_error n conn =
    (let conn1 = conn\<lparr>mRequestHeader := r\<rparr> in
     if checkRequestHeader conn1 then
       conn1\<lparr>mMessageBuffer := std_resize CHR 0x00 (unat (mContentSize r)) (mMessageBuffer conn),
         pending := Reading_RequestContent (whole_buffer (unat (mContentSize r)))\<rparr>
     else sendResponse False Next_Nothing conn1)"
  using assms
  by (simp add: handle_RequestHeader_def Let_def deserialize_any_padding ReadRequestContent_def
      whole_buffer_def buffer_max_def)

lemma checkRequestHeader_spec:
  assumes "map (map_option mContent) (mCurrentRequestHorcruxes conn) = ps"
  shows "checkRequestHeader (conn\<lparr>mRequestHeader := r\<rparr>) \<longleftrightarrow> spec_header_ok r (mUuid (mPreRequestHeader conn)) ps"
  using assms by (auto simp: checkRequestHeader_def spec_header_ok_def)

lemma handle_RequestContent_eq:
  "handle_RequestContent no_error n conn =
    (let hs = (mCurrentRequestHorcruxes conn)[unat (mIndex (mRequestHeader conn)) :=
           Some \<lparr>mContent = mMessageBuffer conn, mChecksum = ''''\<rparr>]
     in sendResponse True (if None \<in> set hs then Next_ReadRequestHeader else Next_saveHorcruxes)
          (conn\<lparr>mCurrentRequestHorcruxes := hs\<rparr>))"
  by (auto simp: handle_RequestContent_def Let_def list_all_iff)

lemma none_in_contents: "None \<in> set (map (map_option f) hs) \<longleftrightarrow> None \<in> set hs"
  by (auto simp: image_iff)

lemma contents_of_complete:
  "None \<notin> set hs \<Longrightarrow> map the (map (map_option mContent) hs) = map (\<lambda>h. mContent (the h)) hs"
  by (auto simp: option.map_sel) (metis option.collapse option.map_sel)

lemma serialized_length:
  "length (serializeHeader pre_rep p) = 16" "length (serializeHeader (req_rep pad) r) = 24"
  using pre_header.serialize_length [of p] req_header.serialize_length [of pad r]
  by (simp_all add: sizeof_PreRequestHeader_def sizeof_RequestHeader_def)

lemma serialized_nonempty [simp]:
  "serializeHeader pre_rep p \<noteq> []" "serializeHeader (req_rep pad) r \<noteq> []"
  using serialized_length(1) [of p] serialized_length(2) [of pad r] by (metis list.size(3) zero_neq_numeral)+

lemma chunking_whole: "msg \<noteq> [] \<Longrightarrow> length msg \<le> 65536 \<Longrightarrow> chunking msg [msg]"
  by (simp add: chunking_def)

lemma write_cuts_whole: "write_cuts 7 [7]"
  by (simp add: write_cuts_def)

lemma deliver_header:
  assumes sim: "simulates (Collecting uuid ps) conn"
    and "chunking (serializeHeader (req_rep pad) r) hchunks"
  shows "conn_run_ok (map (Read_Some no_error) hchunks) (conn, fs) \<and>
    conn_run (map (Read_Some no_error) hchunks) (conn, fs) =
      (let conn1 = conn\<lparr>mRequestHeaderBuffer := serializeHeader (req_rep pad) r, mRequestHeader := r\<rparr> in
       if spec_header_ok r uuid ps then
         conn1\<lparr>mMessageBuffer := std_resize CHR 0x00 (unat (mContentSize r)) (mMessageBuffer conn),
           pending := Reading_RequestContent (whole_buffer (unat (mContentSize r)))\<rparr>
       else sendResponse False Next_Nothing conn1, fs)"
proof -
  let ?msg = "serializeHeader (req_rep pad) r"
  let ?conn = "conn\<lparr>mRequestHeaderBuffer := ?msg\<rparr>"
  have len: "length ?msg = 24" "length (mRequestHeaderBuffer conn) = 24"
    and conn: "conn = conn\<lparr>pending := Reading_RequestHeader (whole_buffer 24)\<rparr>"
    using sim req_header.serialize_length [of pad r]
    by (simp_all add: sizeof_RequestHeader_def conn_inv_def)
  have "conn_run_ok (map (Read_Some no_error) hchunks) (conn\<lparr>pending := Reading_RequestHeader (whole_buffer 24)\<rparr>, fs) \<and>
    conn_run (map (Read_Some no_error) hchunks) (conn\<lparr>pending := Reading_RequestHeader (whole_buffer 24)\<rparr>, fs) =
      (handle_RequestHeader no_error 24 ?conn, fs)"
    using request_header_read.deliver [OF assms(2), of conn fs] len by simp
  moreover have "checkRequestHeader (?conn\<lparr>mRequestHeader := r\<rparr>) \<longleftrightarrow> spec_header_ok r uuid ps"
    using sim checkRequestHeader_spec [of ?conn ps r] by simp
  ultimately show ?thesis
    using conn by (simp add: handle_RequestHeader_eq [of _ pad r] Let_def)
qed

lemma deliver_content:
  assumes "chunking content cchunks" "length (mMessageBuffer conn) = length content"
    "length content = unat (mContentSize (mRequestHeader conn))"
  shows "conn_run_ok (map (Read_Some no_error) cchunks)
      (conn\<lparr>pending := Reading_RequestContent (whole_buffer (unat (mContentSize (mRequestHeader conn))))\<rparr>, fs) \<and>
    conn_run (map (Read_Some no_error) cchunks)
      (conn\<lparr>pending := Reading_RequestContent (whole_buffer (unat (mContentSize (mRequestHeader conn))))\<rparr>, fs) =
      (let hs = (mCurrentRequestHorcruxes conn)[unat (mIndex (mRequestHeader conn)) :=
             Some \<lparr>mContent = content, mChecksum = ''''\<rparr>]
       in sendResponse True (if None \<in> set hs then Next_ReadRequestHeader else Next_saveHorcruxes)
            (conn\<lparr>mMessageBuffer := content, mCurrentRequestHorcruxes := hs\<rparr>), fs)"
  using content_read.deliver [OF assms(1), of conn fs] assms(2)
  by (simp add: assms(3) [symmetric] handle_RequestContent_eq Let_def)

lemma request_rejected:
  assumes sim: "simulates (Collecting uuid ps) conn" and bad: "\<not> spec_header_ok r uuid ps"
    and "chunking (serializeHeader (req_rep pad) r) hchunks" "write_cuts 7 ns"
  shows "conn_run_ok (request_round False hchunks cchunks ns) (conn, fs) \<and>
    conn_run_output (request_round False hchunks cchunks ns) (conn, fs) = response False \<and>
    simulates Rejected (fst (conn_run (request_round False hchunks cchunks ns) (conn, fs))) \<and>
    snd (conn_run (request_round False hchunks cchunks ns) (conn, fs)) = fs"
  using bad deliver_header [OF sim assms(3), of fs] send [OF assms(4), of False Next_Nothing _ fs]
  by (simp add: Let_def request_round_def response_def run_next_op_def)

lemma run_next_op_save:
  "all_received conn \<Longrightarrow> run_next_op Next_saveHorcruxes conn fs = (conn\<lparr>pending := No_Operation\<rparr>,
     store_all saveFile fs (horcrux_files (mUuid (mPreRequestHeader conn)) 0 (received_contents conn)))"
  by (simp add: run_next_op_def saveHorcruxes_received)

lemma request_accepted:
  assumes sim: "simulates (Collecting uuid ps) conn" and good: "spec_header_ok r uuid ps"
    and "chunking (serializeHeader (req_rep pad) r) hchunks" "write_cuts 7 ns"
    and "chunking content cchunks" "length content = unat (mContentSize r)"
  shows "conn_run_ok (request_round True hchunks cchunks ns) (conn, fs) \<and>
    conn_run_output (request_round True hchunks cchunks ns) (conn, fs) = response True \<and>
    simulates (snd (spec_request r content (Collecting uuid ps)))
      (fst (conn_run (request_round True hchunks cchunks ns) (conn, fs))) \<and>
    snd (conn_run (request_round True hchunks cchunks ns) (conn, fs)) =
      spec_store (snd (spec_request r content (Collecting uuid ps))) fs"
proof -
  let ?i = "unat (mIndex r)"
  let ?conn = "conn\<lparr>mRequestHeaderBuffer := serializeHeader (req_rep pad) r, mRequestHeader := r,
    mMessageBuffer := std_resize CHR 0x00 (unat (mContentSize r)) (mMessageBuffer conn)\<rparr>"
  let ?hs = "(mCurrentRequestHorcruxes conn)[?i := Some \<lparr>mContent = content, mChecksum = ''''\<rparr>]"
  let ?nx = "if None \<in> set ?hs then Next_ReadRequestHeader else Next_saveHorcruxes"
  let ?final = "sendResponse True ?nx (?conn\<lparr>mMessageBuffer := content, mCurrentRequestHorcruxes := ?hs\<rparr>)"
  have contents: "map (map_option mContent) ?hs = ps[?i := Some content]"
    using sim by (auto simp: map_update)
  then have none: "None \<in> set (ps[?i := Some content]) \<longleftrightarrow> None \<in> set ?hs"
    by (metis none_in_contents)
  have read: "conn_run_ok (map (Read_Some no_error) hchunks @ map (Read_Some no_error) cchunks) (conn, fs)"
    "conn_run (map (Read_Some no_error) hchunks @ map (Read_Some no_error) cchunks) (conn, fs) = (?final, fs)"
    using good deliver_header [OF sim assms(3), of fs] deliver_content [OF assms(5), of ?conn fs] assms(6)
    by (simp_all add: Let_def)
  let ?evs = "request_round True hchunks cchunks ns"
  have ok: "conn_run_ok ?evs (conn, fs)" and out: "conn_run_output ?evs (conn, fs) = response True"
    and run: "conn_run ?evs (conn, fs) = run_next_op ?nx ?final fs"
    using read send [OF assms(4), of True ?nx _ fs] by (simp_all add: request_round_def response_def)
  have inv: "conn_inv (fst (conn_run ?evs (conn, fs)))"
    using sim ok by (auto intro: conn_inv_run)
  show ?thesis
  proof (cases "None \<in> set ?hs")
    case True
    then show ?thesis
      using ok out inv good none contents sim
      by (simp add: run run_next_op_def ReadRequestHeader_def Let_def sendResponse_eq serialized_length)
  next
    case False
    have rc: "received_contents ?final = map the (ps[?i := Some content])"
      unfolding contents [symmetric] contents_of_complete [OF False]
      by (simp add: received_contents_def sendResponse_eq)
    have recv: "all_received ?final"
      using False by (auto simp: all_received_def sendResponse_eq list_all_iff) (metis not_None_eq)
    have uuid: "mUuid (mPreRequestHeader ?final) = uuid"
      using sim by (simp add: sendResponse_eq)
    have saved: "run_next_op Next_saveHorcruxes ?final fs = (?final\<lparr>pending := No_Operation\<rparr>,
        store_all saveFile fs (horcrux_files uuid 0 (map the (ps[?i := Some content]))))"
      using run_next_op_save [OF recv, of fs] by (simp only: rc uuid)
    have "conn_run ?evs (conn, fs) = (?final\<lparr>pending := No_Operation\<rparr>,
        store_all saveFile fs (horcrux_files uuid 0 (map the (ps[?i := Some content]))))"
      unfolding run saved [symmetric] using False by simp
    moreover have "map Some (map the (ps[?i := Some content])) = ps[?i := Some content]"
      using False none by (intro nth_equalityI) (auto simp: in_set_conv_nth)
    ultimately show ?thesis
      using False ok out good none contents sim by (simp add: Let_def sendResponse_eq)
  qed
qed

section \<open>Whole sessions\<close>

text \<open>A request on the wire: its header and content, and how the network cuts them and the response.\<close>

record wire_request =
  wr_header :: RequestHeader
  wr_content :: string
  wr_padding :: padding
  wr_header_chunks :: "byte list list"
  wr_content_chunks :: "byte list list"
  wr_cuts :: "nat list"

definition wire_ok :: "wire_request \<Rightarrow> bool" where
  "wire_ok w \<longleftrightarrow> chunking (serializeHeader (req_rep (wr_padding w)) (wr_header w)) (wr_header_chunks w) \<and>
     chunking (wr_content w) (wr_content_chunks w) \<and> write_cuts 7 (wr_cuts w) \<and>
     length (wr_content w) = unat (mContentSize (wr_header w))"

text \<open>The abstract run stops at the first rejected request and when the file is complete.\<close>

fun spec_run :: "session \<Rightarrow> wire_request list \<Rightarrow> bool list \<times> session" where
  "spec_run (Collecting uuid ps) (w # ws) =
     (let (ok, s) = spec_request (wr_header w) (wr_content w) (Collecting uuid ps);
          (oks, s') = spec_run s ws
      in (ok # oks, s'))"
| "spec_run s ws = ([], s)"

fun session_events :: "session \<Rightarrow> wire_request list \<Rightarrow> conn_event list" where
  "session_events (Collecting uuid ps) (w # ws) =
     (let (ok, s) = spec_request (wr_header w) (wr_content w) (Collecting uuid ps)
      in request_round ok (wr_header_chunks w) (wr_content_chunks w) (wr_cuts w) @ session_events s ws)"
| "session_events s ws = []"

lemma spec_request_result:
  "fst (spec_request r c (Collecting uuid ps)) = spec_header_ok r uuid ps"
  "\<not> spec_header_ok r uuid ps \<Longrightarrow> snd (spec_request r c (Collecting uuid ps)) = Rejected"
  by (simp_all add: Let_def)

lemma request_round_refines:
  assumes "simulates (Collecting uuid ps) conn" "wire_ok w"
    "spec_request (wr_header w) (wr_content w) (Collecting uuid ps) = (b, s)"
  shows "let evs = request_round b (wr_header_chunks w) (wr_content_chunks w) (wr_cuts w) in
    conn_run_ok evs (conn, fs) \<and> conn_run_output evs (conn, fs) = response b \<and>
    simulates s (fst (conn_run evs (conn, fs))) \<and> snd (conn_run evs (conn, fs)) = spec_store s fs"
proof (cases "spec_header_ok (wr_header w) uuid ps")
  case True
  have "b" "s = snd (spec_request (wr_header w) (wr_content w) (Collecting uuid ps))"
    using True assms(3) spec_request_result(1) [of "wr_header w" "wr_content w" uuid ps] by auto
  with request_accepted [OF assms(1) True, of "wr_padding w" "wr_header_chunks w" "wr_cuts w"
      "wr_content w" "wr_content_chunks w" fs] assms(2) show ?thesis
    by (simp add: wire_ok_def Let_def del: spec_request.simps simulates.simps)
next
  case False
  then have "\<not> b" "s = Rejected"
    using assms(3) by auto
  with request_rejected [OF assms(1) False, of "wr_padding w" "wr_header_chunks w" "wr_cuts w"
      "wr_content_chunks w" fs] assms(2) show ?thesis
    by (simp add: wire_ok_def Let_def)
qed

lemma spec_store_open: "\<forall>uuid cs. s \<noteq> Complete uuid cs \<Longrightarrow> spec_store s fs = fs"
  by (cases s) simp_all

lemma session_refines:
  assumes "simulates s conn" "list_all wire_ok ws" "\<forall>uuid cs. s \<noteq> Complete uuid cs"
  shows "let evs = session_events s ws in
    conn_run_ok evs (conn, fs) \<and> conn_run_output evs (conn, fs) = concat (map response (fst (spec_run s ws))) \<and>
    simulates (snd (spec_run s ws)) (fst (conn_run evs (conn, fs))) \<and>
    snd (conn_run evs (conn, fs)) = spec_store (snd (spec_run s ws)) fs"
  using assms
proof (induction s ws arbitrary: conn rule: spec_run.induct)
  case (1 uuid ps w ws)
  obtain b s where bs: "spec_request (wr_header w) (wr_content w) (Collecting uuid ps) = (b, s)"
    by fastforce
  let ?evs = "request_round b (wr_header_chunks w) (wr_content_chunks w) (wr_cuts w)"
  obtain conn' fs' where run: "conn_run ?evs (conn, fs) = (conn', fs')"
    by (cases "conn_run ?evs (conn, fs)")
  have round: "conn_run_ok ?evs (conn, fs)" "conn_run_output ?evs (conn, fs) = response b"
    "simulates s conn'" "fs' = spec_store s fs"
    using request_round_refines [OF 1(2) _ bs, of fs] 1(3) by (simp_all add: run Let_def)
  show ?case
  proof (cases s)
    case Collecting
    then have "fs' = fs" "\<forall>uuid cs. s \<noteq> Complete uuid cs"
      using round(4) by simp_all
    then show ?thesis
      using 1(1) [OF bs [symmetric] _ round(3)] 1(3) round
      by (simp add: bs run Let_def case_prod_beta del: spec_request.simps)
  qed (use round in \<open>simp_all add: bs run Let_def del: spec_request.simps\<close>)
qed (simp_all add: spec_store_open)

lemma whole_session:
  assumes "chunking (serializeHeader pre_rep p) chunks" "write_cuts 7 ns" "list_all wire_ok ws"
  shows "let evs = pre_round chunks ns @ session_events (snd (spec_pre p)) ws;
             (conn, fs') = conn_run evs (Start createNew, fs);
             (oks, s) = spec_run (snd (spec_pre p)) ws
         in conn_run_ok evs (Start createNew, fs) \<and>
            conn_run_output evs (Start createNew, fs) = concat (map response (fst (spec_pre p) # oks)) \<and>
            simulates s conn \<and> fs' = spec_store s fs"
proof -
  let ?pre = "pre_round chunks ns" and ?s = "snd (spec_pre p)"
  obtain conn where run: "conn_run ?pre (Start createNew, fs) = (conn, fs)" and sim: "simulates ?s conn"
    using pre_round_refines [OF assms(1,2), of fs] by (metis prod.collapse)
  have "\<forall>uuid cs. ?s \<noteq> Complete uuid cs"
    by (simp add: spec_pre_def)
  from session_refines [OF sim assms(3) this, of fs] show ?thesis
    using pre_round_refines [OF assms(1,2), of fs] run by (simp add: Let_def case_prod_beta)
qed

text \<open>A client that announces one empty horcrux and then a content of any size.\<close>

definition small_announcement :: "u64 \<Rightarrow> u32 \<Rightarrow> conn_event list" where
  "small_announcement uuid contentSize =
     pre_round [serializeHeader pre_rep \<lparr>mUuid = uuid, mTotalSize = 0, mNumHorcruxes = 1\<rparr>] [7] @
     [Read_Some no_error (serializeHeader (req_rep no_padding)
        \<lparr>mReqUuid = uuid, mIndex = 0, mContentSize = contentSize, mChecksumSize = 0\<rparr>)]"

lemma small_announcement_run:
  "conn_run_ok (small_announcement uuid n) (Start createNew, fs) \<and>
   (let (conn, fs') = conn_run (small_announcement uuid n) (Start createNew, fs)
    in pending conn = Reading_RequestContent (whole_buffer (unat n)) \<and> fs' = fs \<and>
       length (mMessageBuffer conn) = unat n)"
proof -
  let ?p = "\<lparr>mUuid = uuid, mTotalSize = 0, mNumHorcruxes = 1\<rparr>"
  let ?r = "\<lparr>mReqUuid = uuid, mIndex = 0, mContentSize = n, mChecksumSize = 0\<rparr>"
  have chunks: "chunking (serializeHeader pre_rep ?p) [serializeHeader pre_rep ?p]"
    "chunking (serializeHeader (req_rep no_padding) ?r) [serializeHeader (req_rep no_padding) ?r]"
    by (rule chunking_whole, simp_all add: serialized_length)+
  have spec: "spec_pre ?p = (True, Collecting uuid [None])"
    by (simp add: spec_pre_def)
  obtain conn where run: "conn_run (pre_round [serializeHeader pre_rep ?p] [7]) (Start createNew, fs) = (conn, fs)"
    "conn_run_ok (pre_round [serializeHeader pre_rep ?p] [7]) (Start createNew, fs)"
    and sim: "simulates (Collecting uuid [None]) conn"
    using pre_round_refines [OF chunks(1), of "[7]" fs] unfolding spec
    by (metis fst_conv snd_conv prod.collapse write_cuts_whole)
  have "spec_header_ok ?r uuid [None]"
    by (simp add: spec_header_ok_def)
  with deliver_header [OF sim chunks(2), of fs] run show ?thesis
    by (simp add: small_announcement_def Let_def del: conn_step.simps conn_event_ok.simps)
qed

section \<open>Requests in any order\<close>

definition wr_index :: "wire_request \<Rightarrow> nat" where
  "wr_index w = unat (mIndex (wr_header w))"

definition fill :: "string option list \<Rightarrow> wire_request list \<Rightarrow> string option list" where
  "fill ps ws = foldl (\<lambda>ps w. ps[wr_index w := Some (wr_content w)]) ps ws"

lemma length_fill [simp]: "length (fill ps ws) = length ps"
  by (induction ws arbitrary: ps) (simp_all add: fill_def)

lemma fill_other: "i \<notin> wr_index ` set ws \<Longrightarrow> fill ps ws ! i = ps ! i"
  by (induction ws arbitrary: ps) (simp_all add: fill_def)

lemma fill_nth:
  "distinct (map wr_index ws) \<Longrightarrow> w \<in> set ws \<Longrightarrow> wr_index w < length ps \<Longrightarrow>
   fill ps ws ! wr_index w = Some (wr_content w)"
proof (induction ws arbitrary: ps)
  case (Cons v ws)
  have step: "fill ps (v # ws) = fill (ps[wr_index v := Some (wr_content v)]) ws"
    by (simp add: fill_def)
  show ?case
  proof (cases "w = v")
    case True
    then show ?thesis
      using Cons.prems by (simp add: step fill_other)
  next
    case False
    then show ?thesis
      using Cons by (simp add: step)
  qed
qed simp

definition missing :: "string option list \<Rightarrow> nat set" where
  "missing ps = {i. i < length ps \<and> ps ! i = None}"

lemma missing_empty: "None \<in> set ps \<longleftrightarrow> missing ps \<noteq> {}"
  by (auto simp: missing_def in_set_conv_nth)

lemma missing_update: "i < length ps \<Longrightarrow> missing (ps[i := Some c]) = missing ps - {i}"
  by (auto simp: missing_def nth_list_update)

lemma spec_run_complete:
  assumes "distinct (map wr_index ws)" "wr_index ` set ws = missing ps"
    "\<forall>w \<in> set ws. mReqUuid (wr_header w) = uuid" "ws \<noteq> []"
  shows "spec_run (Collecting uuid ps) ws = (replicate (length ws) True, Complete uuid (map the (fill ps ws)))"
  using assms
proof (induction ws arbitrary: ps)
  case (Cons w ws)
  let ?ps = "ps[wr_index w := Some (wr_content w)]"
  have w: "wr_index w \<in> missing ps"
    using Cons.prems(2) by auto
  then have bound: "wr_index w < length ps"
    by (simp add: missing_def)
  have ok: "spec_header_ok (wr_header w) uuid ps"
    using w Cons.prems(3) by (simp add: spec_header_ok_def missing_def wr_index_def)
  have rest: "wr_index ` set ws = missing ?ps"
    using Cons.prems(1) by (simp add: missing_update [OF bound] Cons.prems(2) [symmetric])
  have step: "spec_request (wr_header w) (wr_content w) (Collecting uuid ps) =
      (True, if None \<in> set ?ps then Collecting uuid ?ps else Complete uuid (map the ?ps))"
    using ok by (simp add: wr_index_def Let_def)
  show ?case
  proof (cases "ws = []")
    case True
    then have "None \<notin> set ?ps"
      using rest by (simp add: missing_empty)
    then show ?thesis
      using True by (simp add: step fill_def del: spec_request.simps)
  next
    case False
    then have "None \<in> set ?ps"
      using rest by (auto simp: missing_empty)
    then show ?thesis
      using False Cons.IH [OF _ rest] Cons.prems(1,3) by (simp add: step fill_def del: spec_request.simps)
  qed
qed simp

section \<open>A session to evaluate\<close>

text \<open>A request for a file of two bytes in two horcruxes, the second one first.\<close>

definition demo_pre :: PreRequestHeader where
  "demo_pre = \<lparr>mUuid = 7, mTotalSize = 2, mNumHorcruxes = 2\<rparr>"

definition demo_pre_chunks :: "byte list list" where
  "demo_pre_chunks = [take 5 (serializeHeader pre_rep demo_pre), drop 5 (serializeHeader pre_rep demo_pre)]"

definition demo_request :: "u32 \<Rightarrow> string \<Rightarrow> wire_request" where
  "demo_request i content =
     (let r = \<lparr>mReqUuid = 7, mIndex = i, mContentSize = word_of_nat (length content), mChecksumSize = 0\<rparr>
      in \<lparr>wr_header = r, wr_content = content, wr_padding = no_padding,
          wr_header_chunks = [serializeHeader (req_rep no_padding) r],
          wr_content_chunks = [content], wr_cuts = [3, 4]\<rparr>)"

definition demo_requests :: "wire_request list" where
  "demo_requests = [demo_request 1 ''B'', demo_request 0 ''A'']"


lemma chunking_two:
  "0 < k \<Longrightarrow> k < length msg \<Longrightarrow> length msg \<le> 65536 \<Longrightarrow> chunking msg [take k msg, drop k msg]"
  by (auto simp: chunking_def)


lemma demo_cuts: "write_cuts 7 [3, 4]"
  by (simp add: write_cuts_def)

lemma demo_wire_ok: "0 < length c \<Longrightarrow> length c < 65536 \<Longrightarrow> wire_ok (demo_request i c)"
  using serialized_nonempty
  by (simp add: wire_ok_def demo_request_def Let_def chunking_whole serialized_length demo_cuts unat_of_nat_u32)

lemma demo_ok:
  "chunking (serializeHeader pre_rep demo_pre) demo_pre_chunks" "list_all wire_ok demo_requests"
  unfolding demo_pre_chunks_def demo_requests_def
  by (rule chunking_two) (simp_all add: serialized_length demo_wire_ok)

lemma demo_spec:
  "spec_pre demo_pre = (True, Collecting 7 [None, None])"
  "spec_run (Collecting 7 [None, None]) demo_requests = ([True, True], Complete 7 [''A'', ''B''])"
  by (simp add: spec_pre_def demo_pre_def, simp add: numeral_2_eq_2)
     (simp add: demo_requests_def demo_request_def Let_def spec_header_ok_def)

lemma demo_paths: "horcrux_path 7 0 = ''out/7.hcx.0''" "horcrux_path 7 1 = ''out/7.hcx.1''"
  by code_simp+

lemma demo_store:
  "files (spec_store (Complete 7 [''A'', ''B'']) empty_disk) ''out/7.hcx.1'' = Some ''B''"
  by (simp add: demo_paths saveFile_def is_regular_file_def stream_write_def empty_disk_def)

section \<open>Properties\<close>

text \<open>
  C2. The connection implements the protocol. For every pre-request and every sequence of
  requests, however the network cuts headers, contents and responses, the socket events are
  possible in the states in which they occur, the bytes sent to the client are exactly the
  responses of the abstract protocol, the connection ends in the state that corresponds to the
  abstract one, and the disk holds the saved horcruxes exactly when the abstract session is
  complete.
\<close>

theorem connection_refines_protocol:
  assumes "chunking (serializeHeader pre_rep p) chunks" "write_cuts 7 ns" "list_all wire_ok ws"
  shows "let evs = pre_round chunks ns @ session_events (snd (spec_pre p)) ws;
             (conn, fs') = conn_run evs (Start createNew, fs);
             (oks, s) = spec_run (snd (spec_pre p)) ws
         in conn_run_ok evs (Start createNew, fs) \<and>
            conn_run_output evs (Start createNew, fs) = concat (map response (fst (spec_pre p) # oks)) \<and>
            simulates s conn \<and> fs' = spec_store s fs"
  using assms by (rule whole_session)

theorem connection_refines_protocol_witness:
  "let evs = pre_round demo_pre_chunks [3, 4] @ session_events (snd (spec_pre demo_pre)) demo_requests;
       (conn, fs) = conn_run evs (Start createNew, empty_disk)
   in conn_run_output evs (Start createNew, empty_disk) = ''SUCCESSSUCCESSSUCCESS'' \<and>
      pending conn = No_Operation \<and> files fs ''out/7.hcx.1'' = Some ''B''"
  using connection_refines_protocol [OF demo_ok(1) demo_cuts demo_ok(2), of empty_disk] demo_store
  by (simp add: demo_spec response_def Let_def case_prod_beta del: session_events.simps spec_store.simps)

text \<open>In the abstract protocol every order of the announced indices completes.\<close>

lemma spec_any_order:
  assumes "spec_pre p = (True, s)" "ws \<noteq> []" "distinct (map wr_index ws)"
    "wr_index ` set ws = {..<unat (mNumHorcruxes p)}" "\<forall>w \<in> set ws. mReqUuid (wr_header w) = mUuid p"
  shows "\<exists>contents. spec_run s ws = (replicate (length ws) True, Complete (mUuid p) contents) \<and>
    length contents = unat (mNumHorcruxes p) \<and> (\<forall>w \<in> set ws. contents ! wr_index w = wr_content w)"
proof -
  let ?ps = "replicate (unat (mNumHorcruxes p)) None :: string option list"
  have s: "s = Collecting (mUuid p) ?ps"
    using assms(1) by (auto simp: spec_pre_def split: if_splits)
  have "missing ?ps = {..<unat (mNumHorcruxes p)}"
    by (auto simp: missing_def)
  then have "spec_run s ws = (replicate (length ws) True, Complete (mUuid p) (map the (fill ?ps ws)))"
    unfolding s using assms by (intro spec_run_complete) simp_all
  moreover have "map the (fill ?ps ws) ! wr_index w = wr_content w" if "w \<in> set ws" for w
  proof -
    have "wr_index w < unat (mNumHorcruxes p)"
      using assms(4) that by blast
    with fill_nth [OF assms(3) that, of ?ps] show ?thesis
      by simp
  qed
  ultimately show ?thesis
    by (intro exI [of _ "map the (fill ?ps ws)"]) simp
qed

text \<open>
  C5. A client that announces an acceptable request and sends every announced index exactly once,
  in any order and cut in any way by the network, is answered \<open>SUCCESS\<close> every time, and the
  connection saves the contents under the paths of their indices.
\<close>

theorem any_order_completes:
  assumes "chunking (serializeHeader pre_rep p) chunks" "write_cuts 7 ns" "list_all wire_ok ws"
    "mNumHorcruxes p \<le> 20" "mTotalSize p \<le> 10000000" "ws \<noteq> []" "distinct (map wr_index ws)"
    "wr_index ` set ws = {..<unat (mNumHorcruxes p)}" "\<forall>w \<in> set ws. mReqUuid (wr_header w) = mUuid p"
  shows "let evs = pre_round chunks ns @ session_events (snd (spec_pre p)) ws
    in conn_run_ok evs (Start createNew, fs) \<and>
       conn_run_output evs (Start createNew, fs) = concat (replicate (Suc (length ws)) ''SUCCESS'') \<and>
       (\<exists>contents. length contents = unat (mNumHorcruxes p) \<and> (\<forall>w \<in> set ws. contents ! wr_index w = wr_content w) \<and>
          snd (conn_run evs (Start createNew, fs)) = store_all saveFile fs (horcrux_files (mUuid p) 0 contents))"
proof -
  have pre: "spec_pre p = (True, snd (spec_pre p))"
    using assms(4,5) by (simp add: spec_pre_def word_le_nat_alt)
  obtain contents where run: "spec_run (snd (spec_pre p)) ws = (replicate (length ws) True, Complete (mUuid p) contents)"
    and contents: "length contents = unat (mNumHorcruxes p)" "\<forall>w \<in> set ws. contents ! wr_index w = wr_content w"
    using spec_any_order [OF pre assms(6-9)] by blast
  have "fst (spec_pre p)"
    by (simp add: pre [THEN arg_cong, of fst])
  with whole_session [OF assms(1-3), of fs] run contents show ?thesis
    by (auto simp: Let_def case_prod_beta response_def)
qed

theorem any_order_completes_witness:
  "let evs = pre_round demo_pre_chunks [3, 4] @ session_events (snd (spec_pre demo_pre)) demo_requests
   in conn_run_output evs (Start createNew, empty_disk) = ''SUCCESSSUCCESSSUCCESS''"
proof -
  have idx: "map wr_index demo_requests = [1, 0]"
    "\<forall>w \<in> set demo_requests. mReqUuid (wr_header w) = mUuid demo_pre" "demo_requests \<noteq> []"
    by (simp_all add: demo_requests_def demo_request_def Let_def wr_index_def demo_pre_def)
  have num: "unat (mNumHorcruxes demo_pre) = 2" "mNumHorcruxes demo_pre \<le> 20" "mTotalSize demo_pre \<le> 10000000"
    by (simp_all add: demo_pre_def)
  have "wr_index ` set demo_requests = {1, 0}"
    using arg_cong [OF idx(1), of set] by simp
  then have "wr_index ` set demo_requests = {..<unat (mNumHorcruxes demo_pre)}"
    by (auto simp: num)
  moreover have "distinct (map wr_index demo_requests)"
    by (simp add: idx)
  moreover have "length demo_requests = 2"
    by (simp add: demo_requests_def)
  ultimately show ?thesis
    using any_order_completes [OF demo_ok(1) demo_cuts demo_ok(2) num(2,3) idx(3) _ _ idx(2), of empty_disk]
    by (simp add: Let_def numeral_2_eq_2)
qed

text \<open>
  C3. Whatever bytes a client sends, in whatever pieces and with whatever socket errors, a
  connection never executes undefined behaviour (it never dereferences an empty horcrux), holds
  at most 20 horcruxes, and never receives past the end of a member buffer. While a content is
  received, the slot it is for exists, is still empty and belongs to the announced file, and
  the message buffer has the announced size.
\<close>

theorem connection_safe:
  assumes "conn_reach fs0 conn fs"
  shows "pending conn \<noteq> Undefined_Behaviour \<and> length (mCurrentRequestHorcruxes conn) \<le> 20 \<and>
    (\<forall>c. pending conn = Reading_PreRequestHeader c \<longrightarrow>
       single_consumed c + buf_size (single_prepare c 65536) \<le> length (mPreRequestHeaderBuffer conn)) \<and>
    (\<forall>c. pending conn = Reading_RequestHeader c \<longrightarrow>
       single_consumed c + buf_size (single_prepare c 65536) \<le> length (mRequestHeaderBuffer conn)) \<and>
    (\<forall>c. pending conn = Reading_RequestContent c \<longrightarrow>
       single_consumed c + buf_size (single_prepare c 65536) \<le> length (mMessageBuffer conn) \<and>
       length (mMessageBuffer conn) = unat (mContentSize (mRequestHeader conn)) \<and>
       mReqUuid (mRequestHeader conn) = mUuid (mPreRequestHeader conn) \<and>
       unat (mIndex (mRequestHeader conn)) < length (mCurrentRequestHorcruxes conn) \<and>
       mCurrentRequestHorcruxes conn ! unat (mIndex (mRequestHeader conn)) = None)"
  using conn_reach_inv [OF assms]
  by (auto simp: conn_inv_def pending_inv_def in_progress_on_def single_prepare_def
      checkRequestHeader_def split: if_splits)

lemma reach_run:
  "conn_run_ok evs (Start createNew, fs) \<Longrightarrow>
   conn_reach fs (fst (conn_run evs (Start createNew, fs))) (snd (conn_run evs (Start createNew, fs)))"
  by (intro conn_run_reach conn_reach.started)

theorem connection_safe_witness:
  "let conn = fst (conn_run (small_announcement 7 100) (Start createNew, empty_disk))
   in pending conn = Reading_RequestContent (whole_buffer 100) \<and>
      unat (mIndex (mRequestHeader conn)) < length (mCurrentRequestHorcruxes conn) \<and>
      mCurrentRequestHorcruxes conn ! unat (mIndex (mRequestHeader conn)) = None"
  using small_announcement_run [of 7 100 empty_disk]
    connection_safe [OF reach_run [of "small_announcement 7 100" empty_disk]]
  by (auto simp: Let_def case_prod_beta)

text \<open>
  C4. A connection never changes a file that exists, and it writes to the disk only when the
  request is complete: every announced horcrux has been received, the pre-request header passed
  its check, and the only paths that appear are those of the announced file.
\<close>

theorem connection_saves_only_complete_requests:
  assumes "conn_reach fs0 conn fs"
  shows "(\<forall>q c. files fs0 q = Some c \<longrightarrow> files fs q = Some c) \<and>
    (fs \<noteq> fs0 \<longrightarrow> pending conn = No_Operation \<and> checkPreRequestHeader conn \<and>
       length (mCurrentRequestHorcruxes conn) = unat (mNumHorcruxes (mPreRequestHeader conn)) \<and>
       None \<notin> set (mCurrentRequestHorcruxes conn) \<and>
       (\<forall>q. files fs q \<noteq> files fs0 q \<longrightarrow>
          (\<exists>i < length (mCurrentRequestHorcruxes conn).
             q = horcrux_path (mUuid (mPreRequestHeader conn)) (word_of_nat i))))"
proof -
  have keep: "files (store_all saveFile fs0 ps) q = Some c" if "files fs0 q = Some c" for ps q c
    using that by (rule disk.store_all_keeps)
  have others: "files (store_all saveFile fs0 ps) q = files fs0 q" if "q \<notin> fst ` set ps" for ps q
    using that by (rule disk.store_all_others)
  have paths: "q \<in> fst ` set (horcrux_files u 0 cs) \<longleftrightarrow> (\<exists>i < length cs. q = horcrux_path u (word_of_nat i))" for q u cs
    using arg_cong [OF horcrux_files_paths [of u 0 cs], of set] by auto
  let ?ps = "horcrux_files (mUuid (mPreRequestHeader conn)) 0 (received_contents conn)"
  consider "fs = fs0" | "pending conn = No_Operation" "accepted conn" "all_received conn"
      "fs = store_all saveFile fs0 ?ps"
    using conn_reach_files [OF assms] by blast
  then show ?thesis
  proof cases
    case 2
    have "files fs q \<noteq> files fs0 q \<longrightarrow> q \<in> fst ` set ?ps" for q
      using others [of q ?ps] 2(4) by auto
    moreover have "None \<notin> set (mCurrentRequestHorcruxes conn)"
      using 2(3) by (auto simp: all_received_def list_all_iff)
    moreover have "length (received_contents conn) = length (mCurrentRequestHorcruxes conn)"
      by (simp add: received_contents_def)
    ultimately show ?thesis
      using 2 keep [of _ _ ?ps] by (simp add: paths accepted_def)
  qed simp
qed

theorem connection_saves_only_complete_requests_witness:
  "let (conn, fs) = conn_run (pre_round demo_pre_chunks [3, 4] @
         session_events (snd (spec_pre demo_pre)) demo_requests) (Start createNew, empty_disk)
   in fs \<noteq> empty_disk \<and> None \<notin> set (mCurrentRequestHorcruxes conn)"
proof -
  let ?evs = "pre_round demo_pre_chunks [3, 4] @ session_events (snd (spec_pre demo_pre)) demo_requests"
  have "conn_run_ok ?evs (Start createNew, empty_disk)"
    and fs: "snd (conn_run ?evs (Start createNew, empty_disk)) = spec_store (Complete 7 [''A'', ''B'']) empty_disk"
    using whole_session [OF demo_ok(1) demo_cuts demo_ok(2), of empty_disk]
    by (simp_all add: demo_spec Let_def case_prod_beta del: session_events.simps spec_store.simps)
  note saved = connection_saves_only_complete_requests [OF reach_run [OF this(1)]]
  have "files empty_disk ''out/7.hcx.1'' = None"
    by (simp add: empty_disk_def)
  then have "spec_store (Complete 7 [''A'', ''B'']) empty_disk \<noteq> empty_disk"
    using demo_store by (metis option.distinct(1))
  with saved fs show ?thesis
    by (simp add: Let_def case_prod_beta del: session_events.simps spec_store.simps)
qed

text \<open>
  C36. The limit on the size of a request applies only to what the pre-request announces: after
  a pre-request for one horcrux with a total size of 0, the connection accepts a request header
  with any content size and allocates a message buffer of that size.
\<close>

theorem announced_size_not_enforced:
  "conn_run_ok (small_announcement uuid n) (Start createNew, fs) \<and>
   (let (conn, fs') = conn_run (small_announcement uuid n) (Start createNew, fs)
    in pending conn = Reading_RequestContent (whole_buffer (unat n)) \<and> fs' = fs \<and>
       length (mMessageBuffer conn) = unat n)"
  by (rule small_announcement_run)

end
