(* ===== verification/Tcp_Server.thy ===== *)
theory Tcp_Server
  imports Save_Protocol
begin

text \<open>
  Model of \<open>networking/TcpServer.hpp\<close>, \<open>networking/TcpServer.cpp\<close> and \<open>server.cpp\<close>. The server keeps
  one \<open>async_accept\<close> outstanding; every accepted connection lives on its own, kept alive by its
  pending operation. The \<open>io_context\<close> is run by one thread, so the handlers of all connections
  are executed one after the other, in any order in which their operations complete, and share
  the disk.
\<close>

section \<open>State and operations\<close>

definition kServerPort :: u32 where
  "kServerPort = 8383"

text \<open>
  \<open>accepts\<close>: the connections captured by outstanding \<open>async_accept\<close> operations; \<open>connections\<close>: the
  accepted ones, in the order of their acceptance.
\<close>

record TcpServer =
  accepts :: "TcpConnection list"
  connections :: "TcpConnection list"

definition startAccept :: "TcpServer \<Rightarrow> TcpServer" where
  "startAccept srv = srv\<lparr>accepts := accepts srv @ [createNew]\<rparr>"

definition handle_accept :: "TcpConnection \<Rightarrow> error_code \<Rightarrow> TcpServer \<Rightarrow> TcpServer" where
  "handle_accept newConnection error srv =
     startAccept (if \<not> failed error then srv\<lparr>connections := connections srv @ [Start newConnection]\<rparr> else srv)"

text \<open>
  The constructor: opening, binding and listening may fail, which throws. \<open>ec\<close> is the result of
  setting up the acceptor on port \<open>kServerPort\<close>.
\<close>

definition make_TcpServer :: "error_code \<Rightarrow> error_code + TcpServer" where
  "make_TcpServer ec = throw_error ec (startAccept \<lparr>accepts = [], connections = []\<rparr>)"

section \<open>Events\<close>

datatype server_event = Accepted error_code | On_Connection nat conn_event

text \<open>The completion of the oldest outstanding accept, or of an operation of connection \<open>i\<close>.\<close>

fun server_step :: "server_event \<Rightarrow> TcpServer \<times> filesystem \<Rightarrow> TcpServer \<times> filesystem" where
  "server_step (Accepted ec) (srv, fs) = (case accepts srv of
      [] \<Rightarrow> (srv, fs)
    | newConnection # rest \<Rightarrow> (handle_accept newConnection ec (srv\<lparr>accepts := rest\<rparr>), fs))"
| "server_step (On_Connection i ev) (srv, fs) =
     (if i < length (connections srv) then
        let (conn, fs') = conn_step ev (connections srv ! i, fs)
        in (srv\<lparr>connections := (connections srv)[i := conn]\<rparr>, fs')
      else (srv, fs))"

fun server_event_ok :: "server_event \<Rightarrow> TcpServer \<Rightarrow> bool" where
  "server_event_ok (Accepted ec) srv \<longleftrightarrow> accepts srv \<noteq> []"
| "server_event_ok (On_Connection i ev) srv \<longleftrightarrow>
     i < length (connections srv) \<and> conn_event_ok ev (connections srv ! i)"

fun server_run :: "server_event list \<Rightarrow> TcpServer \<times> filesystem \<Rightarrow> TcpServer \<times> filesystem" where
  "server_run [] s = s"
| "server_run (ev # evs) s = server_run evs (server_step ev s)"

text \<open>
  \<open>main\<close> of the server: an exception of the constructor is reported and the program ends with 0;
  otherwise the event loop runs. The event loop ends only when there is no outstanding operation.
\<close>

definition server_main ::
  "error_code \<Rightarrow> server_event list \<Rightarrow> filesystem \<Rightarrow> int + TcpServer \<times> filesystem" where
  "server_main ec evs fs = (case make_TcpServer ec of
      Inl _ \<Rightarrow> Inl 0
    | Inr srv \<Rightarrow> Inr (server_run evs (srv, fs)))"

section \<open>Reachable states\<close>

inductive server_reach :: "filesystem \<Rightarrow> TcpServer \<Rightarrow> filesystem \<Rightarrow> bool" for fs0 where
  constructed: "make_TcpServer no_error = Inr srv \<Longrightarrow> server_reach fs0 srv fs0"
| event: "server_reach fs0 srv fs \<Longrightarrow> server_event_ok ev srv \<Longrightarrow>
    server_step ev (srv, fs) = (srv', fs') \<Longrightarrow> server_reach fs0 srv' fs'"

inductive_cases server_reachE: "server_reach fs0 srv fs"

definition server_inv :: "TcpServer \<Rightarrow> bool" where
  "server_inv srv \<longleftrightarrow> accepts srv = [createNew] \<and> list_all conn_inv (connections srv)"

lemma conn_step_cases:
  obtains conn' fs' where "conn_step ev (conn, fs) = (conn', fs')"
  by (cases "conn_step ev (conn, fs)")

lemma server_inv_step:
  assumes "server_inv srv" "server_event_ok ev srv" "server_step ev (srv, fs) = (srv', fs')"
  shows "server_inv srv'"
proof (cases ev)
  case (Accepted ec)
  then show ?thesis
    using assms by (auto simp: server_inv_def handle_accept_def startAccept_def conn_inv_start)
next
  case (On_Connection i cev)
  obtain conn' fs'' where step: "conn_step cev (connections srv ! i, fs) = (conn', fs'')"
    by (rule conn_step_cases)
  have "conn_inv (connections srv ! i)"
    using assms(1,2) On_Connection by (simp add: server_inv_def list_all_length)
  then have "conn_inv conn'"
    using assms(2) step On_Connection by (auto intro: conn_inv_step)
  then show ?thesis
    using assms step On_Connection
    by (auto simp: server_inv_def list_all_iff dest!: set_update_subset_insert [THEN subsetD])
qed

lemma server_inv_new: "make_TcpServer no_error = Inr srv \<Longrightarrow> server_inv srv"
  by (auto simp: make_TcpServer_def throw_error_def startAccept_def server_inv_def)

lemma server_reach_inv: "server_reach fs0 srv fs \<Longrightarrow> server_inv srv"
  by (induction rule: server_reach.induct) (auto intro: server_inv_new server_inv_step)

text \<open>Files are only added, and only under the names of horcruxes.\<close>

definition horcrux_paths :: "string set" where
  "horcrux_paths = {horcrux_path uuid i | uuid i. True}"

lemma conn_step_disk:
  assumes "conn_inv conn" "conn_event_ok ev conn" "conn_step ev (conn, fs) = (conn', fs')"
  shows "files fs q = Some c \<longrightarrow> files fs' q = Some c" "files fs' q \<noteq> files fs q \<longrightarrow> q \<in> horcrux_paths"
proof -
  have path: "q \<in> horcrux_paths" if "q \<in> fst ` set (horcrux_files uuid k cs)" for uuid k cs
    using that arg_cong [OF horcrux_files_paths [of uuid k cs], of set] by (auto simp: horcrux_paths_def)
  have "fs' = fs \<or> (\<exists>uuid cs. fs' = store_all saveFile fs (horcrux_files uuid 0 cs))"
    using conn_step_files [OF assms] by blast
  then show "files fs q = Some c \<longrightarrow> files fs' q = Some c" "files fs' q \<noteq> files fs q \<longrightarrow> q \<in> horcrux_paths"
    using path disk.store_all_keeps [of fs q c] disk.store_all_others [of q _ fs] by auto metis
qed

lemma server_step_disk:
  assumes "server_inv srv" "server_event_ok ev srv" "server_step ev (srv, fs) = (srv', fs')"
  shows "(files fs q = Some c \<longrightarrow> files fs' q = Some c) \<and> (files fs' q \<noteq> files fs q \<longrightarrow> q \<in> horcrux_paths)"
proof -
  consider "fs' = fs" | i cev conn' where "ev = On_Connection i cev" "conn_inv (connections srv ! i)"
    "conn_event_ok cev (connections srv ! i)" "conn_step cev (connections srv ! i, fs) = (conn', fs')"
    using assms by (cases ev) (auto simp: server_inv_def list_all_length split: list.splits prod.splits)
  then show ?thesis
  proof cases
    case 2
    then show ?thesis
      using conn_step_disk [OF 2(2-4)] by blast
  qed simp
qed

lemma server_reach_disk:
  "server_reach fs0 srv fs \<Longrightarrow>
   (files fs0 q = Some c \<longrightarrow> files fs q = Some c) \<and> (files fs q \<noteq> files fs0 q \<longrightarrow> q \<in> horcrux_paths)"
proof (induction rule: server_reach.induct)
  case (event srv fs ev srv' fs')
  note step = server_step_disk [OF server_reach_inv [OF event.hyps(1)] event.hyps(2,3)]
  show ?case
    using event.IH step [of q c] by metis
qed simp

section \<open>Connections do not disturb each other\<close>

fun own_events :: "nat \<Rightarrow> server_event list \<Rightarrow> conn_event list" where
  "own_events i [] = []"
| "own_events i (On_Connection j ev # evs) = (if i = j then ev # own_events i evs else own_events i evs)"
| "own_events i (Accepted ec # evs) = own_events i evs"

lemma run_next_op_disk_independent: "fst (run_next_op nx conn fs) = fst (run_next_op nx conn fs')"
proof -
  have "(saveHorcruxes_loop uuid fs k hs = None) = (saveHorcruxes_loop uuid fs' k hs = None)" for uuid k hs
    by (induction hs arbitrary: fs fs' k) (auto split: option.split)
  then show ?thesis
    by (auto simp: run_next_op_def saveHorcruxes_def split: next_op.split option.split)
qed

lemma conn_step_disk_independent: "fst (conn_step ev (conn, fs)) = fst (conn_step ev (conn, fs'))"
  using run_next_op_disk_independent [of _ conn fs fs']
  by (cases ev) (auto simp: on_write_some_def handle_Response_def split: pending_op.split op_outcome.split)

lemma conn_run_disk_independent: "fst (conn_run evs (conn, fs)) = fst (conn_run evs (conn, fs'))"
proof (induction evs arbitrary: conn fs fs')
  case (Cons ev evs)
  show ?case
    using conn_step_disk_independent [of ev conn fs fs'] Cons.IH
    by (cases "conn_step ev (conn, fs)"; cases "conn_step ev (conn, fs')") auto
qed simp

lemma server_step_other:
  "i < length (connections srv) \<Longrightarrow> own_events i [ev] = [] \<Longrightarrow>
   connections (fst (server_step ev (srv, fs))) ! i = connections srv ! i \<and>
   length (connections srv) \<le> length (connections (fst (server_step ev (srv, fs))))"
  by (cases ev) (auto simp: handle_accept_def startAccept_def nth_append case_prod_beta split: list.split if_splits)

lemma server_step_own:
  "i < length (connections srv) \<Longrightarrow>
   connections (fst (server_step (On_Connection i ev) (srv, fs))) =
     (connections srv)[i := fst (conn_step ev (connections srv ! i, fs))]"
  by (simp add: case_prod_beta)

lemma server_run_isolated:
  "i < length (connections srv) \<Longrightarrow>
   connections (fst (server_run evs (srv, fs))) ! i =
     fst (conn_run (own_events i evs) (connections srv ! i, fs'))"
proof (induction evs arbitrary: srv fs fs')
  case (Cons ev evs)
  obtain srv1 fs1 where step: "server_step ev (srv, fs) = (srv1, fs1)"
    by (cases "server_step ev (srv, fs)")
  show ?case
  proof (cases "own_events i [ev] = []")
    case True
    then have "own_events i (ev # evs) = own_events i evs"
      by (cases ev) (auto split: if_splits)
    then show ?thesis
      using server_step_other [OF Cons.prems True, of fs] Cons.IH [of srv1 fs1 fs'] Cons.prems by (simp add: step)
  next
    case False
    then obtain cev where ev: "ev = On_Connection i cev"
      by (cases ev) (auto split: if_splits)
    obtain conn1 fs2 where cstep: "conn_step cev (connections srv ! i, fs') = (conn1, fs2)"
      by (rule conn_step_cases)
    have "connections srv1 = (connections srv)[i := conn1]"
      using server_step_own [OF Cons.prems, of cev fs] step
        conn_step_disk_independent [of cev "connections srv ! i" fs fs'] by (simp add: ev cstep)
    then show ?thesis
      using Cons.IH [of srv1 fs1 fs2] Cons.prems step by (simp add: ev cstep)
  qed
qed simp

text \<open>
  The events of connection \<open>i\<close> since its acceptance, when \<open>n\<close> connections have been accepted before.
\<close>

fun own_since :: "nat \<Rightarrow> nat \<Rightarrow> server_event list \<Rightarrow> conn_event list" where
  "own_since n i [] = []"
| "own_since n i (On_Connection j ev # evs) = (if i = j \<and> i < n then ev # own_since n i evs else own_since n i evs)"
| "own_since n i (Accepted ec # evs) = own_since (if failed ec then n else Suc n) i evs"

lemma own_since_present: "i < n \<Longrightarrow> own_since n i evs = own_events i evs"
  by (induction n i evs rule: own_since.induct) auto

lemma server_run_later:
  assumes "accepts srv = [createNew]" "length (connections srv) \<le> i" "i < length (connections (fst (server_run evs (srv, fs))))"
  shows "connections (fst (server_run evs (srv, fs))) ! i =
    fst (conn_run (own_since (length (connections srv)) i evs) (Start createNew, fs'))"
  using assms
proof (induction evs arbitrary: srv fs)
  case (Cons ev evs)
  obtain srv1 fs1 where step: "server_step ev (srv, fs) = (srv1, fs1)"
    by (cases "server_step ev (srv, fs)")
  show ?case
  proof (cases ev)
    case (Accepted ec)
    then have srv1: "accepts srv1 = [createNew]"
      "connections srv1 = (if failed ec then connections srv else connections srv @ [Start createNew])"
      using step Cons.prems(1) by (auto simp: handle_accept_def startAccept_def)
    show ?thesis
    proof (cases "i < length (connections srv1)")
      case True
      then have new: "\<not> failed ec" "i = length (connections srv)"
        using srv1(2) Cons.prems(2) by (auto split: if_splits)
      then have "connections srv1 ! i = Start createNew"
        using srv1(2) by simp
      then show ?thesis
        using server_run_isolated [OF True, of evs fs1 fs'] step Accepted new by (simp add: own_since_present)
    next
      case False
      then show ?thesis
        using Cons.IH [of srv1 fs1] Cons.prems(3) srv1 step Accepted by (auto split: if_splits)
    qed
  next
    case (On_Connection j cev)
    then have "accepts srv1 = [createNew]" "length (connections srv1) = length (connections srv)"
      using step Cons.prems(1) by (auto split: if_splits prod.splits)
    then show ?thesis
      using Cons.IH [of srv1 fs1] Cons.prems step On_Connection by simp
  qed
qed simp

section \<open>Properties\<close>

text \<open>
  C6. In every reachable state of the server, under any interleaving of accepts and of the events
  of all connections: exactly one accept is outstanding, so the server keeps listening even after
  a failed accept; no connection executes undefined behaviour or holds more than 20 horcruxes; no
  file that existed is changed; and every path that appears on the disk is that of a horcrux.
\<close>

theorem server_safe:
  assumes "server_reach fs0 srv fs"
  shows "length (accepts srv) = 1 \<and>
    (\<forall>conn \<in> set (connections srv).
       pending conn \<noteq> Undefined_Behaviour \<and> length (mCurrentRequestHorcruxes conn) \<le> 20) \<and>
    (\<forall>q c. files fs0 q = Some c \<longrightarrow> files fs q = Some c) \<and>
    (\<forall>q. files fs q \<noteq> files fs0 q \<longrightarrow> (\<exists>uuid i. q = horcrux_path uuid i))"
proof -
  have "pending conn \<noteq> Undefined_Behaviour \<and> length (mCurrentRequestHorcruxes conn) \<le> 20" if "conn_inv conn" for conn
    using that by (auto simp: conn_inv_def pending_inv_def)
  then show ?thesis
    using server_reach_inv [OF assms] server_reach_disk [OF assms]
    by (auto simp: server_inv_def list_all_iff horcrux_paths_def)
qed

theorem server_safe_witness:
  "let (srv, fs) = server_step (Accepted no_error) (startAccept \<lparr>accepts = [], connections = []\<rparr>, empty_disk)
   in length (connections srv) = 1 \<and> length (accepts srv) = 1 \<and>
      (\<forall>conn \<in> set (connections srv). length (mCurrentRequestHorcruxes conn) \<le> 20)"
proof -
  let ?srv = "startAccept \<lparr>accepts = [], connections = []\<rparr>"
  have "server_reach empty_disk ?srv empty_disk"
    by (rule server_reach.constructed) (simp add: make_TcpServer_def throw_error_def)
  from server_reach.event [OF this, of "Accepted no_error"]
  have "server_reach empty_disk (handle_accept createNew no_error (?srv\<lparr>accepts := []\<rparr>)) empty_disk"
    by (simp add: startAccept_def)
  from server_safe [OF this] show ?thesis
    by (simp add: startAccept_def handle_accept_def)
qed

text \<open>
  C34. A client whose file identifier is already in use is told \<open>SUCCESS\<close> for the pre-request and
  for every horcrux, but every file that is on the disk already stays as it is, so that the horcrux of
  its index is not saved: the responses are sent before anything is saved, and the results of
  \<open>saveFile\<close> are ignored. If the disk has a file for every index of the request, nothing of it is saved.
\<close>

theorem identifier_collision_reports_success:
  assumes "chunking (serializeHeader pre_rep p) chunks" "write_cuts 7 ns" "list_all wire_ok ws"
    "fst (spec_pre p)" "spec_run (snd (spec_pre p)) ws = (oks, Complete uuid contents)" "list_all id oks"
  shows "let evs = pre_round chunks ns @ session_events (snd (spec_pre p)) ws
         in conn_run_output evs (Start createNew, fs) = concat (replicate (Suc (length oks)) ''SUCCESS'') \<and>
            (\<forall>i old. files fs (horcrux_path uuid i) = Some old \<longrightarrow>
               files (snd (conn_run evs (Start createNew, fs))) (horcrux_path uuid i) = Some old) \<and>
            ((\<forall>k < length contents. files fs (horcrux_path uuid (word_of_nat k)) \<noteq> None) \<longrightarrow>
               snd (conn_run evs (Start createNew, fs)) = fs)"
proof -
  have "map response oks = replicate (length oks) ''SUCCESS''"
    using assms(6) by (induction oks) (auto simp: response_def)
  moreover have "store_all saveFile fs (horcrux_files uuid 0 contents) = fs"
    if "\<forall>k < length contents. files fs (horcrux_path uuid (word_of_nat k)) \<noteq> None"
    using that by (intro store_all_existing) (auto simp: horcrux_files_def enumerate_eq_zip in_set_zip)
  ultimately show ?thesis
    using whole_session [OF assms(1-3), of fs] assms(4,5) disk.store_all_keeps
    by (simp add: Let_def case_prod_beta response_def)
qed

theorem identifier_collision_reports_success_witness:
  "let evs = pre_round demo_pre_chunks [3, 4] @ session_events (snd (spec_pre demo_pre)) demo_requests;
       fs = empty_disk\<lparr>files := [''out/7.hcx.1'' \<mapsto> ''old'', ''out/7.hcx.0'' \<mapsto> ''older'']\<rparr>
   in conn_run_output evs (Start createNew, fs) = ''SUCCESSSUCCESSSUCCESS'' \<and>
      files (snd (conn_run evs (Start createNew, fs))) ''out/7.hcx.1'' = Some ''old'' \<and>
      snd (conn_run evs (Start createNew, fs)) = fs"
proof -
  let ?fs = "empty_disk\<lparr>files := [''out/7.hcx.1'' \<mapsto> ''old'', ''out/7.hcx.0'' \<mapsto> ''older'']\<rparr>"
  have disk: "files ?fs (horcrux_path 7 1) = Some ''old''" "\<forall>k < length [''A'', ''B'']. files ?fs (horcrux_path 7 (word_of_nat k)) \<noteq> None"
    by (auto simp: demo_paths less_Suc_eq)
  note collision = identifier_collision_reports_success [OF demo_ok(1) demo_cuts demo_ok(2), of "[True, True]" 7 "[''A'', ''B'']" ?fs,
      unfolded Let_def]
  have "fst (spec_pre demo_pre)" "spec_run (snd (spec_pre demo_pre)) demo_requests = ([True, True], Complete 7 [''A'', ''B''])"
    "list_all id [True, True]"
    by (simp_all add: demo_spec)
  from collision [OF this] disk demo_paths show ?thesis
    by (simp add: numeral_3_eq_3 Let_def del: session_events.simps conn_run.simps)
qed

end
