(* ===== verification/Server_Objects.thy ===== *)
theory Server_Objects
  imports Tcp_Server
begin

text \<open>
  The connections of the server (\<open>networking/TcpServer.cpp\<close>) as objects on the heap, which is how the program
  has them: \<open>createNew\<close> allocates an object and yields a \<open>std::shared_ptr\<close>; the handler of the accept and, through
  \<open>shared_from_this\<close>, the handler of the pending operation of a connection hold such pointers; and an object is
  destroyed with its last pointer, after which the allocator may use its address again. The theory shows
  that no two connections ever share an object, so that the lists of theory \<open>Tcp_Server\<close> describe the
  program, that connections do not disturb each other, and that no object leaks or is used after its
  destruction.
\<close>

section \<open>Objects\<close>

text \<open>
  \<open>live\<close>: the addresses of the objects that exist; \<open>waiting\<close>: the pointers captured by outstanding
  \<open>async_accept\<close> operations; \<open>started\<close>: for every accepted connection the pointer that its pending operation holds,
  or \<open>None\<close> when it has none any more. The allocator, which yields the address of a new object from those
  in use, is a parameter.
\<close>

record object_server =
  live :: "nat list"
  heap :: "nat \<Rightarrow> TcpConnection"
  waiting :: "nat list"
  started :: "nat option list"

definition object_createNew :: "(nat list \<Rightarrow> nat) \<Rightarrow> object_server \<Rightarrow> nat \<times> object_server" where
  "object_createNew alloc s =
     (let p = alloc (live s) in (p, s\<lparr>live := p # live s, heap := (heap s)(p := createNew)\<rparr>))"

definition object_delete :: "nat \<Rightarrow> object_server \<Rightarrow> object_server" where
  "object_delete p s = s\<lparr>live := remove1 p (live s)\<rparr>"

definition object_startAccept :: "(nat list \<Rightarrow> nat) \<Rightarrow> object_server \<Rightarrow> object_server" where
  "object_startAccept alloc s =
     (let (newConnection, s1) = object_createNew alloc s in s1\<lparr>waiting := waiting s1 @ [newConnection]\<rparr>)"

text \<open>
  The pointer that the handler was created with is destroyed after the handler has run: with an error
  it is the last one.
\<close>

definition object_handle_accept :: "(nat list \<Rightarrow> nat) \<Rightarrow> nat \<Rightarrow> error_code \<Rightarrow> object_server \<Rightarrow> object_server" where
  "object_handle_accept alloc newConnection error s =
     (let s1 = (if \<not> failed error
            then s\<lparr>heap := (heap s)(newConnection := Start (heap s newConnection)), started := started s @ [Some newConnection]\<rparr>
            else s);
          s2 = object_startAccept alloc s1
      in if failed error then object_delete newConnection s2 else s2)"

definition object_server_new :: "(nat list \<Rightarrow> nat) \<Rightarrow> object_server" where
  "object_server_new alloc =
     object_startAccept alloc \<lparr>live = [], heap = (\<lambda>_. createNew), waiting = [], started = []\<rparr>"

text \<open>
  The completion of the oldest accept, or of the pending operation of connection \<open>i\<close>, which runs on the object
  that its pointer refers to; if the handler starts no other operation, the object is destroyed.
\<close>

fun object_step :: "(nat list \<Rightarrow> nat) \<Rightarrow> server_event \<Rightarrow> object_server \<times> filesystem \<Rightarrow> object_server \<times> filesystem" where
  "object_step alloc (Accepted ec) (s, fs) = (case waiting s of
      [] \<Rightarrow> (s, fs)
    | p # rest \<Rightarrow> (object_handle_accept alloc p ec (s\<lparr>waiting := rest\<rparr>), fs))"
| "object_step alloc (On_Connection i ev) (s, fs) =
     (if i < length (started s) then case started s ! i of
        None \<Rightarrow> (s, fs)
      | Some p \<Rightarrow>
          let (conn, fs') = conn_step ev (heap s p, fs); s1 = s\<lparr>heap := (heap s)(p := conn)\<rparr>
          in (if pending conn = No_Operation then object_delete p (s1\<lparr>started := (started s1)[i := None]\<rparr>) else s1, fs')
      else (s, fs))"

fun object_run ::
  "(nat list \<Rightarrow> nat) \<Rightarrow> server_event list \<Rightarrow> object_server \<times> filesystem \<Rightarrow> object_server \<times> filesystem" where
  "object_run alloc [] s = s"
| "object_run alloc (ev # evs) s = object_run alloc evs (object_step alloc ev s)"

section \<open>Pointers and objects\<close>

definition held :: "object_server \<Rightarrow> nat list" where
  "held s = waiting s @ List.map_filter id (started s)"

lemma map_filter_id [simp]:
  "List.map_filter id (xs @ ys) = List.map_filter id xs @ List.map_filter id ys"
  by (simp add: List.map_filter_def)

lemma map_filter_update:
  assumes "i < length xs" "xs ! i = Some p" "distinct (List.map_filter id xs)"
  shows "List.map_filter id (xs[i := None]) = remove1 p (List.map_filter id xs)"
proof -
  have split: "xs = take i xs @ Some p # drop (Suc i) xs"
    using id_take_nth_drop [OF assms(1)] assms(2) by simp
  have "xs[i := None] = take i xs @ None # drop (Suc i) xs"
    using assms(1) by (simp add: upd_conv_take_nth_drop)
  moreover have "p \<notin> set (List.map_filter id (take i xs))"
    using assms(3) by (subst (asm) split) (simp add: List.map_filter_def)
  ultimately show ?thesis
    using arg_cong [OF split, of "List.map_filter id"] by (simp add: List.map_filter_simps remove1_append)
qed

text \<open>
  The objects implement the lists of \<open>srv\<close>: a connection that has ended has no object, and the others are
  in the objects that their pointers refer to; the pointers are all different, and are those of the live
  objects.
\<close>

definition implements :: "object_server \<Rightarrow> TcpServer \<Rightarrow> bool" where
  "implements s srv \<longleftrightarrow>
     map (heap s) (waiting s) = accepts srv \<and>
     list_all2 (\<lambda>holder conn. case holder of
         None \<Rightarrow> pending conn = No_Operation
       | Some p \<Rightarrow> heap s p = conn \<and> pending conn \<noteq> No_Operation) (started s) (connections srv) \<and>
     distinct (held s) \<and> distinct (live s) \<and> set (live s) = set (held s)"

lemma conn_step_ended: "pending conn = No_Operation \<Longrightarrow> conn_step ev (conn, fs) = (conn, fs)"
  by (cases ev) (simp_all add: on_read_some_def on_write_some_def)

text \<open>What \<open>new\<close> promises: an address that no live object has.\<close>

definition allocates :: "(nat list \<Rightarrow> nat) \<Rightarrow> bool" where
  "allocates alloc \<longleftrightarrow> (\<forall>ps. alloc ps \<notin> set ps)"

lemma holders_frame:
  assumes "list_all2 (\<lambda>holder conn. case holder of
      None \<Rightarrow> pending conn = No_Operation | Some p \<Rightarrow> h p = conn \<and> pending conn \<noteq> No_Operation) ps conns"
    and "\<And>p. p \<in> set (List.map_filter id ps) \<Longrightarrow> h' p = h p"
  shows "list_all2 (\<lambda>holder conn. case holder of
      None \<Rightarrow> pending conn = No_Operation | Some p \<Rightarrow> h' p = conn \<and> pending conn \<noteq> No_Operation) ps conns"
  using assms
  by (induction rule: list_all2_induct) (auto simp: List.map_filter_simps split: option.splits)

lemma implements_accept:
  assumes "allocates alloc" "implements s srv" "waiting s = p # rest" "rest = []"
  shows "implements (object_handle_accept alloc p ec (s\<lparr>waiting := rest\<rparr>)) (handle_accept (heap s p) ec (srv\<lparr>accepts := []\<rparr>))"
proof -
  let ?q = "alloc (live s)"
  have q: "?q \<notin> set (live s)"
    using assms(1) by (simp add: allocates_def)
  have s: "accepts srv = [heap s p]" "distinct (p # List.map_filter id (started s))" "distinct (live s)"
    "set (live s) = insert p (set (List.map_filter id (started s)))"
    using assms(2-4) by (auto simp: implements_def held_def)
  have fresh: "?q \<noteq> p" "?q \<notin> set (List.map_filter id (started s))"
    using q s(4) by auto
  have holders: "list_all2 (\<lambda>holder conn. case holder of
      None \<Rightarrow> pending conn = No_Operation | Some p \<Rightarrow> heap s p = conn \<and> pending conn \<noteq> No_Operation) (started s) (connections srv)"
    using assms(2) by (simp add: implements_def)
  have "pending (Start conn) \<noteq> No_Operation" for conn
    by (simp add: Start_def ReadPreRequestHeader_def)
  with s fresh q show ?thesis
    unfolding implements_def held_def assms(4)
    by (auto simp: object_handle_accept_def object_startAccept_def object_createNew_def object_delete_def handle_accept_def
        startAccept_def Let_def List.map_filter_simps intro!: list_all2_appendI holders_frame [OF holders])
qed

lemma map_filter_nth: "i < length xs \<Longrightarrow> xs ! i = Some p \<Longrightarrow> p \<in> set (List.map_filter id xs)"
  by (force simp: List.map_filter_def in_set_conv_nth)

lemma map_filter_single:
  assumes "distinct (List.map_filter id xs)" "i < length xs" "j < length xs" "xs ! i = Some p" "xs ! j = Some p"
  shows "i = j"
proof (rule ccontr)
  assume "i \<noteq> j"
  then have "xs[i := None] ! j = Some p" "j < length (xs[i := None])"
    using assms by simp_all
  then have "p \<in> set (List.map_filter id (xs[i := None]))"
    by (intro map_filter_nth)
  then show False
    using map_filter_update [OF assms(2,4,1)] assms(1) by simp
qed

lemma implements_event:
  assumes "implements s srv" "i < length (started s)" "started s ! i = Some p" "conn_step ev (heap s p, fs) = (conn, fs')"
  shows "implements (fst (object_step alloc (On_Connection i ev) (s, fs))) (srv\<lparr>connections := (connections srv)[i := conn]\<rparr>)"
proof -
  have s: "map (heap s) (waiting s) = accepts srv" "distinct (waiting s @ List.map_filter id (started s))" "distinct (live s)"
    "set (live s) = set (waiting s @ List.map_filter id (started s))"
    and len: "length (started s) = length (connections srv)"
    and holders: "\<And>j. j < length (started s) \<Longrightarrow> case started s ! j of
      None \<Rightarrow> pending (connections srv ! j) = No_Operation
    | Some p \<Rightarrow> heap s p = connections srv ! j \<and> pending (connections srv ! j) \<noteq> No_Operation"
    using assms(1) by (auto simp: implements_def held_def list_all2_conv_all_nth)
  have p: "p \<in> set (List.map_filter id (started s))" "p \<notin> set (waiting s)"
    using map_filter_nth [OF assms(2,3)] s(2) by auto
  have other: "started s ! j \<noteq> Some p" if "j \<noteq> i" "j < length (started s)" for j
    using map_filter_single [of "started s" i j p] assms(2,3) s(2) that by auto
  have gone: "List.map_filter id ((started s)[i := None]) = remove1 p (List.map_filter id (started s))"
    using map_filter_update [OF assms(2,3)] s(2) by simp
  have frame: "case (started s)[i := x] ! j of
      None \<Rightarrow> pending ((connections srv)[i := conn] ! j) = No_Operation
    | Some r \<Rightarrow> ((heap s)(p := conn)) r = (connections srv)[i := conn] ! j \<and> pending ((connections srv)[i := conn] ! j) \<noteq> No_Operation"
    if "j < length (started s)" "x = (if pending conn = No_Operation then None else Some p)" for j x
    using holders [OF that(1)] other [OF _ that(1)] assms(2) len that by (cases "j = i") (auto split: option.splits)
  have waits: "map ((heap s)(p := conn)) (waiting s) = accepts srv"
    using s(1) p(2) by (metis fun_upd_other map_cong)
  let ?s = "fst (object_step alloc (On_Connection i ev) (s, fs))"
  have heap: "heap ?s = (heap s)(p := conn)" "waiting ?s = waiting s"
    "started ?s = (started s)[i := if pending conn = No_Operation then None else Some p]"
    "live ?s = (if pending conn = No_Operation then remove1 p (live s) else live s)"
    using assms(2-4) list_update_id [of "started s" i] by (auto simp: object_delete_def Let_def)
  have "list_all2 (\<lambda>holder conn. case holder of
      None \<Rightarrow> pending conn = No_Operation | Some p \<Rightarrow> heap ?s p = conn \<and> pending conn \<noteq> No_Operation)
    (started ?s) ((connections srv)[i := conn])"
    unfolding heap list_all2_conv_all_nth using frame len by simp
  moreover have "distinct (held ?s) \<and> distinct (live ?s) \<and> set (live ?s) = set (held ?s)"
    unfolding held_def heap using gone p s(2-4) list_update_id [of "started s" i] assms(3) by auto
  ultimately show ?thesis
    using waits heap(1,2) by (simp add: implements_def del: object_step.simps)
qed

lemma implements_step:
  assumes "allocates alloc" "implements s srv" "length (waiting s) = 1"
  shows "implements (fst (object_step alloc ev (s, fs))) (fst (server_step ev (srv, fs))) \<and>
    snd (object_step alloc ev (s, fs)) = snd (server_step ev (srv, fs)) \<and> length (waiting (fst (object_step alloc ev (s, fs)))) = 1"
proof (cases ev)
  case (Accepted ec)
  obtain p where p: "waiting s = [p]"
    using assms(3) by (cases "waiting s") auto
  then have "accepts srv = [heap s p]"
    using assms(2) by (auto simp: implements_def)
  moreover have "length (waiting (object_handle_accept alloc p ec (s\<lparr>waiting := []\<rparr>))) = 1"
    by (simp add: object_handle_accept_def object_startAccept_def object_createNew_def object_delete_def Let_def)
  ultimately show ?thesis
    using implements_accept [OF assms(1,2) p refl] p Accepted by simp
next
  case (On_Connection i cev)
  have len: "length (started s) = length (connections srv)"
    using assms(2) by (auto simp: implements_def dest: list_all2_lengthD)
  show ?thesis
  proof (cases "i < length (started s)")
    case True
    then have holder: "case started s ! i of
        None \<Rightarrow> pending (connections srv ! i) = No_Operation
      | Some p \<Rightarrow> heap s p = connections srv ! i \<and> pending (connections srv ! i) \<noteq> No_Operation"
      using assms(2) by (auto simp: implements_def list_all2_conv_all_nth)
    show ?thesis
    proof (cases "started s ! i")
      case None
      then show ?thesis
        using True holder len assms(2,3) On_Connection by (simp add: conn_step_ended)
    next
      case (Some p)
      obtain conn fs' where step: "conn_step cev (heap s p, fs) = (conn, fs')"
        by (rule conn_step_cases)
      show ?thesis
        using implements_event [OF assms(2) True Some step, of alloc] True Some step holder len assms(3) On_Connection
        by (auto simp: object_delete_def Let_def)
    qed
  next
    case False
    then show ?thesis
      using len assms(2,3) On_Connection by simp
  qed
qed

lemma implements_new:
  assumes "allocates alloc"
  shows "implements (object_server_new alloc) (startAccept \<lparr>accepts = [], connections = []\<rparr>)"
    "length (waiting (object_server_new alloc)) = 1"
  by (simp_all add: implements_def held_def object_server_new_def object_startAccept_def object_createNew_def startAccept_def
      Let_def List.map_filter_simps)

lemma implements_run:
  assumes "allocates alloc"
  shows "implements s srv \<Longrightarrow> length (waiting s) = 1 \<Longrightarrow>
    implements (fst (object_run alloc evs (s, fs))) (fst (server_run evs (srv, fs))) \<and>
    snd (object_run alloc evs (s, fs)) = snd (server_run evs (srv, fs))"
proof (induction evs arbitrary: s srv fs)
  case (Cons ev evs)
  obtain s1 fs1 where step: "object_step alloc ev (s, fs) = (s1, fs1)"
    by (metis prod.exhaust)
  obtain srv1 fs2 where step': "server_step ev (srv, fs) = (srv1, fs2)"
    by (metis prod.exhaust)
  show ?case
    using implements_step [OF assms Cons.prems, of ev fs] Cons.IH [of s1 srv1 fs1] by (simp add: step step')
qed simp

section \<open>Properties\<close>

text \<open>
  C7. The connections of the server as objects on the heap, for any allocator that never yields the
  address of a live object, and under any interleaving of accepts, failed accepts and events of the
  connections. No two connections share an object; the objects that exist are those of the outstanding
  accept and of the connections with a pending operation, so that none leaks and none is used after its
  destruction; the disk is that of the server over lists; and connections are isolated: the object of a
  connection is in the state that a new connection reaches by its own events since its acceptance, whatever the
  other clients do and whatever is on the disk, and its object is gone exactly if it has ended.
\<close>

theorem server_objects_isolated:
  assumes "allocates alloc" "object_run alloc evs (object_server_new alloc, fs) = (s, fs')"
  shows "distinct (held s) \<and> distinct (live s) \<and> set (live s) = set (held s) \<and> length (waiting s) = 1 \<and>
    fs' = snd (server_run evs (startAccept \<lparr>accepts = [], connections = []\<rparr>, fs)) \<and>
    (\<forall>i < length (started s). let conn = fst (conn_run (own_since 0 i evs) (Start createNew, fs0)) in
       case started s ! i of
         None \<Rightarrow> pending conn = No_Operation
       | Some p \<Rightarrow> heap s p = conn \<and> pending conn \<noteq> No_Operation)"
proof -
  let ?srv = "startAccept \<lparr>accepts = [], connections = []\<rparr>"
  let ?final = "fst (server_run evs (?srv, fs))"
  have ok: "implements s ?final" "fs' = snd (server_run evs (?srv, fs))"
    using implements_run [OF assms(1) implements_new [OF assms(1)], of evs fs] assms(2) by simp_all
  have one: "accepts (fst (server_run evs (srv, fs))) = [createNew]" if "accepts srv = [createNew]" for srv fs
    using that
  proof (induction evs arbitrary: srv fs)
    case (Cons ev evs)
    show ?case
      using Cons.IH [of "fst (server_step ev (srv, fs))" "snd (server_step ev (srv, fs))"] Cons.prems
      by (cases ev) (auto simp: handle_accept_def startAccept_def split: if_splits prod.splits)
  qed simp
  have "accepts ?srv = [createNew]" "connections ?srv = []"
    by (simp_all add: startAccept_def)
  then have "connections ?final ! i = fst (conn_run (own_since 0 i evs) (Start createNew, fs0))"
    if "i < length (connections ?final)" for i
    using server_run_later [of ?srv i evs fs fs0] that by simp
  then show ?thesis
    using ok one [of ?srv fs] \<open>accepts ?srv = [createNew]\<close>
    by (auto simp: implements_def list_all2_conv_all_nth Let_def split: option.splits dest: arg_cong [of _ _ length])
qed

text \<open>Two clients, one of which disconnects; its object is destroyed and a new connection gets its address.\<close>

definition first_free :: "nat list \<Rightarrow> nat" where
  "first_free ps = the (find (\<lambda>p. p \<notin> set ps) [0..<Suc (length ps)])"

lemma first_free_allocates: "allocates first_free"
  unfolding allocates_def
proof
  fix ps :: "nat list"
  have "\<exists>p \<in> set [0..<Suc (length ps)]. p \<notin> set ps"
  proof (rule ccontr)
    assume "\<not> ?thesis"
    then have "card {0..<Suc (length ps)} \<le> card (set ps)"
      by (intro card_mono subsetI) (auto simp: set_upt simp del: upt_Suc)
    then show False
      using card_length [of ps] by simp
  qed
  then obtain p where "find (\<lambda>p. p \<notin> set ps) [0..<Suc (length ps)] = Some p"
    by (metis find_None_iff option.exhaust)
  then show "first_free ps \<notin> set ps"
    unfolding first_free_def by (metis (mono_tags, lifting) find_Some_iff option.sel)
qed

lemma demo_reads:
  "pending (on_read_some (misc_ec eof) [] (Start createNew)) = No_Operation"
  "pending (on_read_some no_error ''ab'' (Start createNew)) \<noteq> No_Operation"
  by (simp_all add: Start_def ReadPreRequestHeader_def on_read_some_def read_op_call_def Let_def handle_PreRequestHeader_def
      sendResponse_def)

theorem server_objects_isolated_witness:
  "let evs = [Accepted no_error, Accepted no_error, On_Connection 0 (Read_Some (misc_ec eof) []), Accepted no_error,
         On_Connection 2 (Read_Some no_error ''ab'')];
       s = fst (object_run first_free evs (object_server_new first_free, empty_disk))
   in started s = [None, Some 1, Some 2] \<and> waiting s = [0] \<and>
      heap s 2 = fst (conn_run [Read_Some no_error ''ab''] (Start createNew, empty_disk))"
proof -
  let ?evs = "[Accepted no_error, Accepted no_error, On_Connection 0 (Read_Some (misc_ec eof) []), Accepted no_error,
         On_Connection 2 (Read_Some no_error ''ab'')]"
  obtain s fs' where run: "object_run first_free ?evs (object_server_new first_free, empty_disk) = (s, fs')"
    by (metis prod.exhaust)
  have "started s = [None, Some 1, Some 2]" "waiting s = [0]"
    using run by (auto simp: object_server_new_def object_startAccept_def object_createNew_def object_handle_accept_def
        object_delete_def Let_def first_free_def demo_reads)
  moreover have "own_since 0 2 ?evs = [Read_Some no_error ''ab'']"
    by simp
  ultimately show ?thesis
    using server_objects_isolated [OF first_free_allocates run, of empty_disk] unfolding run Let_def
    by (auto simp del: conn_run.simps dest!: spec [of _ 2])
qed

end
