(* ===== verification/Client.thy ===== *)
theory Client
  imports Requests Asio_Transfer
begin

text \<open>
  Model of \<open>client.cpp\<close>. The functions take the two members of the connected socket that they call,
  \<open>read_some\<close> and \<open>write_some\<close>, as a record. Here they run on a script of the results of these calls, in
  the order of the calls, together with the bytes handed to the network so far; theory
  \<open>Client_On_Socket\<close> runs them on the socket service. A call that does not return, such as one for which
  the script has no result, makes the program not return: its value is \<open>None\<close>.
\<close>

section \<open>The socket\<close>

record 's stream =
  sock_write :: "byte list \<Rightarrow> 's \<Rightarrow> ((error_code \<times> nat) \<times> 's) option"
  sock_read :: "nat \<Rightarrow> 's \<Rightarrow> ((error_code \<times> byte list) \<times> 's) option"

datatype socket_result = Wrote error_code nat | Got error_code "byte list"

record socket =
  script :: "socket_result list"
  sent :: "byte list"

text \<open>
  The scripted socket: \<open>write_some\<close> sends a prefix of the buffer, \<open>read_some\<close> yields at most as many
  bytes as fit, and a call for which the script has no result blocks for ever.
\<close>

definition write_some :: "byte list \<Rightarrow> socket \<Rightarrow> ((error_code \<times> nat) \<times> socket) option" where
  "write_some buf s = (case script s of
      Wrote ec n # rest \<Rightarrow>
        if n \<le> length buf then Some ((ec, n), s\<lparr>script := rest, sent := sent s @ take n buf\<rparr>) else None
    | _ \<Rightarrow> None)"

definition read_some :: "nat \<Rightarrow> socket \<Rightarrow> ((error_code \<times> byte list) \<times> socket) option" where
  "read_some capacity s = (case script s of
      Got ec bytes # rest \<Rightarrow>
        if length bytes \<le> capacity then Some ((ec, bytes), s\<lparr>script := rest\<rparr>) else None
    | _ \<Rightarrow> None)"

definition script_stream :: "socket stream" where
  "script_stream = \<lparr>sock_write = write_some, sock_read = read_some\<rparr>"

lemma script_stream_simps [simp]: "sock_write script_stream = write_some" "sock_read script_stream = read_some"
  by (simp_all add: script_stream_def)

section \<open>Functions\<close>

text \<open>An exception of the splitter cannot be caught: it is undefined behaviour of the program.\<close>

definition getHorcruxes :: "filesystem \<Rightarrow> string \<Rightarrow> BasicFileSplitter \<Rightarrow> split_error + HorcruxData list" where
  "getHorcruxes fs path splitter = (case loadFile fs path of
      Some binaries \<Rightarrow> split splitter binaries
    | None \<Rightarrow> Inr [])"

text \<open>\<open>Inl\<close> is the \<open>asio::system_error\<close> that is thrown.\<close>

definition readResponse :: "'s stream \<Rightarrow> 's \<Rightarrow> ((error_code + bool) \<times> 's) option" where
  "readResponse S s = (case sock_read S 128 s of
      None \<Rightarrow> None
    | Some ((error, response), s') \<Rightarrow>
        if failed error then Some (Inl error, s')
        else if response = ''SUCCESS'' then Some (Inr True, s')
        else if response = ''FAILURE'' then Some (Inr False, s')
        else Some (Inr False, s'))"

definition sendHorcruxRequest :: "'s stream \<Rightarrow> padding \<Rightarrow> Request \<Rightarrow> 's \<Rightarrow> ((error_code + bool) \<times> 's) option" where
  "sendHorcruxRequest S pad request s =
     (let serializedHeader = serializeHeader (req_rep pad) (mHeader request)
      in case sock_write S serializedHeader s of
           None \<Rightarrow> None
         | Some ((ec, len), s1) \<Rightarrow>
             if failed ec then Some (Inr False, s1)
             else case sock_write S (mReqContent request) s1 of
                    None \<Rightarrow> None
                  | Some ((ec, len), s2) \<Rightarrow>
                      if failed ec then Some (Inr False, s2)
                      else case readResponse S s2 of
                             None \<Rightarrow> None
                           | Some (Inl e, s3) \<Rightarrow> Some (Inl e, s3)
                           | Some (Inr ok, s3) \<Rightarrow> if \<not> ok then Some (Inr False, s3) else Some (Inr True, s3))"

text \<open>The loop over the requests: a request that fails is only logged.\<close>

fun send_all :: "'s stream \<Rightarrow> padding \<Rightarrow> Request list \<Rightarrow> 's \<Rightarrow> ((error_code + unit) \<times> 's) option" where
  "send_all S pad [] s = Some (Inr (), s)"
| "send_all S pad (request # rest) s = (case sendHorcruxRequest S pad request s of
      None \<Rightarrow> None
    | Some (Inl e, s') \<Rightarrow> Some (Inl e, s')
    | Some (Inr ok, s') \<Rightarrow> send_all S pad rest s')"

definition kPort :: string where
  "kPort = ''8383''"

definition kIp :: string where
  "kIp = ''127.0.01''"

text \<open>How the program ends.\<close>

datatype client_end = Exit int | Uncaught std_exception | Undefined split_error

text \<open>
  The part of \<open>main\<close> inside the \<open>try\<close> block, once the socket is connected. An \<open>asio::system_error\<close>
  is caught, reported, and the program ends with 0.
\<close>

definition client_session ::
  "'s stream \<Rightarrow> padding \<Rightarrow> u32 \<Rightarrow> ClientSaveOptions \<Rightarrow> filesystem \<Rightarrow> 's \<Rightarrow> (client_end \<times> 's) option" where
  "client_session S pad rd options fs s =
     (case getHorcruxes fs (mInputPath options) (make_BasicFileSplitter (mHorcruxCount options)) of
        Inl e \<Rightarrow> Some (Undefined e, s)
      | Inr horcruxes \<Rightarrow>
          if horcruxes = [] then Some (Exit (-1), s)
          else
            let preRequestHeader = PreRequestHeader_fromHorcruxes (generateRandomUint64 rd) horcruxes
            in case sock_write S (serializeHeader pre_rep preRequestHeader) s of
                 None \<Rightarrow> None
               | Some ((ec, len), s1) \<Rightarrow>
                   if failed ec then Some (Exit 0, s1)
                   else case readResponse S s1 of
                          None \<Rightarrow> None
                        | Some (Inl e, s2) \<Rightarrow> Some (Exit 0, s2)
                        | Some (Inr ok, s2) \<Rightarrow>
                            if \<not> ok then Some (Exit 0, s2)
                            else
                              let requests = Request_fromHorcruxes (mUuid preRequestHeader) horcruxes
                              in map_option (\<lambda>(_, s3). (Exit 0, s3)) (send_all S pad requests s2))"

text \<open>
  \<open>main\<close>: \<open>connect_result\<close> is the outcome of resolving \<open>kIp\<close>, \<open>kPort\<close> and connecting, which both throw
  on failure. \<open>parseHorcruxCommand\<close> is called outside of the \<open>try\<close> block.
\<close>

definition client_main ::
  "'s stream \<Rightarrow> string list \<Rightarrow> error_code \<Rightarrow> padding \<Rightarrow> u32 \<Rightarrow> filesystem \<Rightarrow> 's \<Rightarrow> (client_end \<times> 's) option" where
  "client_main S argv connect_result pad rd fs s = (case parseHorcruxCommand argv of
      Inl e \<Rightarrow> Some (Uncaught e, s)
    | Inr None \<Rightarrow> Some (Exit (-1), s)
    | Inr (Some options) \<Rightarrow>
        if failed connect_result then Some (Exit 0, s)
        else client_session S pad rd options fs s)"

section \<open>The messages of a session\<close>

definition request_bytes :: "padding \<Rightarrow> Request \<Rightarrow> byte list" where
  "request_bytes pad r = serializeHeader (req_rep pad) (mHeader r) @ mReqContent r"

text \<open>A network that takes every message completely, and a server that answers with \<open>reply\<close>.\<close>

definition request_script :: "Request \<Rightarrow> byte list \<Rightarrow> socket_result list" where
  "request_script r reply = [Wrote no_error 24, Wrote no_error (length (mReqContent r)), Got no_error reply]"

lemma write_some_whole:
  "script s = Wrote ec (length buf) # rest \<Longrightarrow>
   write_some buf s = Some ((ec, length buf), s\<lparr>script := rest, sent := sent s @ buf\<rparr>)"
  by (simp add: write_some_def)

lemma readResponse_got:
  "script s = Got no_error bytes # rest \<Longrightarrow> length bytes \<le> 128 \<Longrightarrow>
   readResponse script_stream s = Some (Inr (bytes = ''SUCCESS''), s\<lparr>script := rest\<rparr>)"
  by (simp add: readResponse_def read_some_def)

lemma req_length: "length (serializeHeader (req_rep pad) r) = 24"
  using req_header.serialize_length [of pad r] by (simp add: sizeof_RequestHeader_def)

lemma pre_length: "length (serializeHeader pre_rep p) = 16"
  using pre_header.serialize_length [of p] by (simp add: sizeof_PreRequestHeader_def)

lemma sendHorcruxRequest_whole:
  assumes "script s = request_script r reply @ rest" "length reply \<le> 128"
  shows "sendHorcruxRequest script_stream pad r s =
    Some (Inr (reply = ''SUCCESS''), s\<lparr>script := rest, sent := sent s @ request_bytes pad r\<rparr>)"
proof -
  have "write_some (serializeHeader (req_rep pad) (mHeader r)) s = Some ((no_error, 24),
      s\<lparr>script := Wrote no_error (length (mReqContent r)) # Got no_error reply # rest,
        sent := sent s @ serializeHeader (req_rep pad) (mHeader r)\<rparr>)"
    using assms(1) req_length [of pad "mHeader r"]
      write_some_whole [of s no_error "serializeHeader (req_rep pad) (mHeader r)"]
    by (simp add: request_script_def)
  then show ?thesis
    using assms(2)
    by (simp add: sendHorcruxRequest_def write_some_whole readResponse_got request_bytes_def)
qed

lemma send_all_whole:
  assumes "length replies = length rs" "list_all (\<lambda>b. length b \<le> 128) replies"
    "script s = concat (map2 request_script rs replies) @ rest"
  shows "send_all script_stream pad rs s =
    Some (Inr (), s\<lparr>script := rest, sent := sent s @ concat (map (request_bytes pad) rs)\<rparr>)"
  using assms
proof (induction rs arbitrary: s replies)
  case (Cons r rs)
  then obtain reply replies' where replies: "replies = reply # replies'"
    by (cases replies) auto
  show ?case
    using Cons.prems Cons.IH [of replies'] unfolding replies
    by (simp add: sendHorcruxRequest_whole [of s r reply])
qed simp

text \<open>The horcruxes and messages of a file.\<close>

definition file_horcruxes :: "u32 \<Rightarrow> string \<Rightarrow> HorcruxData list" where
  "file_horcruxes n d = map (\<lambda>c. \<lparr>mContent = c, mChecksum = ''''\<rparr>) (pieces_of (unat n) d)"

definition file_pre_request :: "u64 \<Rightarrow> u32 \<Rightarrow> string \<Rightarrow> PreRequestHeader" where
  "file_pre_request uuid n d = PreRequestHeader_fromHorcruxes uuid (file_horcruxes n d)"

definition file_requests :: "u64 \<Rightarrow> u32 \<Rightarrow> string \<Rightarrow> Request list" where
  "file_requests uuid n d = Request_fromHorcruxes uuid (file_horcruxes n d)"

lemma getHorcruxes_file:
  assumes "loadFile fs path = Some d" "splittable n d"
  shows "getHorcruxes fs path (make_BasicFileSplitter n) = Inr (file_horcruxes n d)" "file_horcruxes n d \<noteq> []"
  using assms by (simp_all add: getHorcruxes_def file_horcruxes_def split_pieces_of pieces_of_def splittable_def
      unat_gt_0 word_neq_0_conv)

lemma client_session_file:
  assumes "loadFile fs (mInputPath options) = Some d" "splittable (mHorcruxCount options) d"
    and "script s = Wrote no_error 16 # Got no_error reply # rest" "length reply \<le> 128"
  shows "client_session script_stream pad rd options fs s =
    (let uuid = generateRandomUint64 rd; n = mHorcruxCount options;
         s2 = s\<lparr>sent := sent s @ serializeHeader pre_rep (file_pre_request uuid n d), script := rest\<rparr>
     in if reply = ''SUCCESS''
        then map_option (\<lambda>(_, s3). (Exit 0, s3)) (send_all script_stream pad (file_requests uuid n d) s2)
        else Some (Exit 0, s2))"
proof -
  let ?p = "file_pre_request (generateRandomUint64 rd) (mHorcruxCount options) d"
  have "write_some (serializeHeader pre_rep ?p) s =
      Some ((no_error, 16), s\<lparr>script := Got no_error reply # rest, sent := sent s @ serializeHeader pre_rep ?p\<rparr>)"
    using assms(3) write_some_whole [of s no_error "serializeHeader pre_rep ?p"] by (simp add: pre_length)
  moreover have "mUuid ?p = generateRandomUint64 rd"
    by (simp add: file_pre_request_def PreRequestHeader_fromHorcruxes_eq)
  ultimately show ?thesis
    using assms(4) unfolding client_session_def getHorcruxes_file(1) [OF assms(1,2)]
    by (simp add: getHorcruxes_file(2) [OF assms(1,2)] readResponse_got Let_def
        flip: file_pre_request_def file_requests_def)
qed

lemma parse_save:
  "count < 2 ^ 31 \<Longrightarrow> parseHorcruxCommand [prog, ''save'', ''-n'', dec_string count, path] =
     Inr (Some \<lparr>mHorcruxCount = word_of_nat count, mInputPath = path\<rparr>)"
  by (simp add: parseHorcruxCommand_def stoi_dec_string)

section \<open>What is sent over any network\<close>

text \<open>The pre-request, and the headers and contents of the requests, in the order in which they are sent.\<close>

definition pre_message :: "u32 \<Rightarrow> HorcruxData list \<Rightarrow> byte list" where
  "pre_message rd hs = serializeHeader pre_rep (PreRequestHeader_fromHorcruxes (generateRandomUint64 rd) hs)"

definition message_pair :: "padding \<Rightarrow> Request \<Rightarrow> byte list list" where
  "message_pair pad r = [serializeHeader (req_rep pad) (mHeader r), mReqContent r]"

definition request_messages :: "padding \<Rightarrow> u32 \<Rightarrow> HorcruxData list \<Rightarrow> byte list list" where
  "request_messages pad rd hs = concat (map (message_pair pad) (Request_fromHorcruxes (generateRandomUint64 rd) hs))"

lemma write_some_sent: "write_some buf s = Some ((ec, n), s') \<Longrightarrow> sent s' = sent s @ take n buf"
  by (auto simp: write_some_def split: list.splits socket_result.splits if_splits)

lemma readResponse_sent: "readResponse script_stream s = Some (r, s') \<Longrightarrow> sent s' = sent s"
  by (auto simp: readResponse_def read_some_def split: list.splits socket_result.splits if_splits)

lemma sendHorcruxRequest_sent:
  assumes "sendHorcruxRequest script_stream pad r s = Some (x, s')"
  shows "\<exists>i j. sent s' = sent s @ concat (map2 take [i, j] (message_pair pad r))"
proof -
  let ?h = "serializeHeader (req_rep pad) (mHeader r)"
  obtain ec i s1 where w1: "write_some ?h s = Some ((ec, i), s1)"
    using assms by (auto simp: sendHorcruxRequest_def Let_def split: option.splits)
  show ?thesis
  proof (cases "failed ec")
    case True
    then show ?thesis
      using assms w1 write_some_sent [OF w1]
      by (intro exI [of _ i] exI [of _ 0]) (simp add: sendHorcruxRequest_def message_pair_def)
  next
    case False
    then obtain ec2 j s2 where w2: "write_some (mReqContent r) s1 = Some ((ec2, j), s2)"
      using assms w1 by (auto simp: sendHorcruxRequest_def Let_def split: option.splits)
    have "sent s' = sent s2"
      using assms w1 w2 False
      by (auto simp: sendHorcruxRequest_def Let_def dest: readResponse_sent split: option.splits sum.splits if_splits)
    then show ?thesis
      using write_some_sent [OF w1] write_some_sent [OF w2]
      by (intro exI [of _ i] exI [of _ j]) (simp add: message_pair_def)
  qed
qed

lemma send_all_sent:
  "send_all script_stream pad rs s = Some (x, s') \<Longrightarrow>
   \<exists>ns. length ns \<le> 2 * length rs \<and> sent s' = sent s @ concat (map2 take ns (concat (map (message_pair pad) rs)))"
proof (induction rs arbitrary: s)
  case (Cons r rs)
  obtain y s1 where request: "sendHorcruxRequest script_stream pad r s = Some (y, s1)"
    using Cons.prems by (auto split: option.splits)
  obtain i j where sent1: "sent s1 = sent s @ concat (map2 take [i, j] (message_pair pad r))"
    using sendHorcruxRequest_sent [OF request] by blast
  show ?case
  proof (cases y)
    case (Inl e)
    then show ?thesis
      using Cons.prems request sent1 by (intro exI [of _ "[i, j]"]) (simp add: message_pair_def)
  next
    case (Inr ok)
    then have "send_all script_stream pad rs s1 = Some (x, s')"
      using Cons.prems request by simp
    from Cons.IH [OF this] obtain ns where "length ns \<le> 2 * length rs"
      "sent s' = sent s1 @ concat (map2 take ns (concat (map (message_pair pad) rs)))"
      by blast
    then show ?thesis
      using sent1 by (intro exI [of _ "i # j # ns"]) (simp add: message_pair_def [of pad r])
  qed
qed auto

text \<open>
  Once there are horcruxes, the client exits with 0; it goes on after the pre-request only if that was
  written without an error and answered with \<open>SUCCESS\<close>.
\<close>

lemma client_session_sent:
  assumes "client_session script_stream pad rd options fs s = Some (e, s')"
    and "getHorcruxes fs (mInputPath options) (make_BasicFileSplitter (mHorcruxCount options)) = Inr hs" "hs \<noteq> []"
  shows "e = Exit 0 \<and> (\<exists>n ns.
    sent s' = sent s @ take n (pre_message rd hs) @ concat (map2 take ns (request_messages pad rd hs)) \<and>
    (ns \<noteq> [] \<longrightarrow> (\<exists>ec ec' tail. script s = Wrote ec n # Got ec' ''SUCCESS'' # tail \<and> \<not> failed ec \<and> \<not> failed ec')))"
proof -
  obtain ec n s1 where w: "write_some (pre_message rd hs) s = Some ((ec, n), s1)"
    using assms by (auto simp: client_session_def pre_message_def Let_def split: option.splits)
  show ?thesis
  proof (cases "failed ec")
    case True
    then show ?thesis
      using assms w write_some_sent [OF w]
      by (intro conjI exI [of _ n] exI [of _ "[]"]) (simp_all add: client_session_def pre_message_def Let_def)
  next
    case False
    then obtain r s2 where response: "readResponse script_stream s1 = Some (r, s2)"
      using assms w by (auto simp: client_session_def pre_message_def Let_def split: option.splits)
    note sent2 = readResponse_sent [OF response] write_some_sent [OF w]
    show ?thesis
    proof (cases "r = Inr True")
      case True
      let ?rs = "Request_fromHorcruxes (generateRandomUint64 rd) hs"
      obtain ec' tail where tail: "script s1 = Got ec' ''SUCCESS'' # tail" "\<not> failed ec'"
        using response True
        by (auto simp: readResponse_def read_some_def split: list.splits socket_result.splits if_splits option.splits)
      have "script s = Wrote ec n # script s1"
        using w by (auto simp: write_some_def split: list.splits socket_result.splits if_splits)
      moreover obtain x where "send_all script_stream pad ?rs s2 = Some (x, s')" "e = Exit 0"
        using assms w False response True
        by (auto simp: client_session_def pre_message_def Let_def PreRequestHeader_fromHorcruxes_eq map_option_case split: option.splits)
      ultimately show ?thesis
        using send_all_sent [of pad ?rs s2 x s'] sent2 tail False by (auto simp: request_messages_def)
    next
      case False
      then show ?thesis
        using assms w \<open>\<not> failed ec\<close> response sent2
        by (intro conjI exI [of _ n] exI [of _ "[]"])
          (auto simp: client_session_def pre_message_def Let_def split: sum.splits)
    qed
  qed
qed

section \<open>Properties\<close>

text \<open>
  C11. A run of the client on a readable, splittable file over a network that takes every message
  completely. The program returns with exit code 0. It sends the pre-request; when that is
  answered with anything but \<open>SUCCESS\<close> it sends nothing else; otherwise it sends all requests,
  header and content of every piece in order, whatever the answers to the requests are.
\<close>

theorem client_sends_file:
  assumes "loadFile fs path = Some d" "count < 2 ^ 31" "splittable (word_of_nat count) d"
    and "length replies = count" "list_all (\<lambda>b. length b \<le> 128) (reply # replies)"
    and "script s = Wrote no_error 16 # Got no_error reply #
      (if reply = ''SUCCESS''
       then concat (map2 request_script (file_requests (generateRandomUint64 rd) (word_of_nat count) d) replies)
       else [])"
  shows "let uuid = generateRandomUint64 rd; n = word_of_nat count
    in client_main script_stream [prog, ''save'', ''-n'', dec_string count, path] no_error pad rd fs s =
       Some (Exit 0, s\<lparr>script := [], sent := sent s @ serializeHeader pre_rep (file_pre_request uuid n d) @
         (if reply = ''SUCCESS'' then concat (map (request_bytes pad) (file_requests uuid n d)) else [])\<rparr>)"
proof -
  let ?uuid = "generateRandomUint64 rd" and ?n = "word_of_nat count :: u32"
  let ?s = "s\<lparr>sent := sent s @ serializeHeader pre_rep (file_pre_request ?uuid ?n d),
    script := concat (map2 request_script (file_requests ?uuid ?n d) replies)\<rparr>"
  have n: "unat ?n = count"
    using assms(2) by (simp add: unat_of_nat_u32)
  have "length (file_requests ?uuid ?n d) = count"
    by (simp add: file_requests_def file_horcruxes_def pieces_of_def n)
  then have "send_all script_stream pad (file_requests ?uuid ?n d) ?s = Some (Inr (), ?s\<lparr>script := [],
      sent := sent ?s @ concat (map (request_bytes pad) (file_requests ?uuid ?n d))\<rparr>)"
    using assms(4,5) by (intro send_all_whole [where rest = "[]"]) simp_all
  then show ?thesis
    using assms client_session_file [of fs "\<lparr>mHorcruxCount = ?n, mInputPath = path\<rparr>" d s reply]
    by (simp add: client_main_def parse_save Let_def)
qed

definition demo_disk :: filesystem where
  "demo_disk = empty_disk\<lparr>files := [''pic.png'' \<mapsto> ''AAB'']\<rparr>"

definition demo_replies :: "byte list list" where
  "demo_replies = [''SUCCESS'', ''FAILURE'']"

theorem client_sends_file_witness:
  "map_option fst (client_main script_stream [''./horcrux'', ''save'', ''-n'', dec_string 2, ''pic.png''] no_error
       (CHR 0x00, CHR 0x00, CHR 0x00, CHR 0x00) 5 demo_disk
       \<lparr>script = Wrote no_error 16 # Got no_error ''SUCCESS'' #
          concat (map2 request_script (file_requests (generateRandomUint64 5) (word_of_nat 2) ''AAB'') demo_replies),
        sent = ''''\<rparr>) = Some (Exit 0)"
proof -
  have "loadFile demo_disk ''pic.png'' = Some ''AAB''"
    by (simp add: loadFile_eq demo_disk_def empty_disk_def)
  moreover have "splittable (word_of_nat 2) ''AAB''"
    by (simp add: splittable_def)
  ultimately show ?thesis
    using client_sends_file [of demo_disk "''pic.png''" "''AAB''" 2 demo_replies "''SUCCESS''"
        "\<lparr>script = Wrote no_error 16 # Got no_error ''SUCCESS'' #
          concat (map2 request_script (file_requests (generateRandomUint64 5) (word_of_nat 2) ''AAB'') demo_replies),
          sent = ''''\<rparr>" 5 "''./horcrux''"]
    by (simp add: demo_replies_def Let_def)
qed

text \<open>
  C12. How the client ends, and what it has sent then, whatever the network does, when it returns.
  An uncaught exception is \<open>std::out_of_range\<close>, from the command line; the behaviour is undefined only if
  splitting the file is; exit code -1 means that the command line was refused, or that the client was
  connected but there is no horcrux (the file cannot be loaded, or is split into no piece); in these
  cases nothing has been sent. Otherwise the exit code is 0, also if connecting failed, when nothing has
  been sent either. Else there are horcruxes, and what has been sent is a part of the pre-request, and,
  only if that was written without an error and answered with \<open>SUCCESS\<close>, then parts of the headers and contents of the
  requests, in their order.
\<close>

theorem client_exit:
  assumes "client_main script_stream argv connect_result pad rd fs s = Some (e, s')"
  shows "case e of
      Uncaught ex \<Rightarrow> parseHorcruxCommand argv = Inl Out_Of_Range \<and> ex = Out_Of_Range \<and> s' = s
    | Undefined err \<Rightarrow> s' = s \<and> \<not> failed connect_result \<and> (\<exists>options. parseHorcruxCommand argv = Inr (Some options) \<and>
        getHorcruxes fs (mInputPath options) (make_BasicFileSplitter (mHorcruxCount options)) = Inl err)
    | Exit code \<Rightarrow>
        code = -1 \<and> s' = s \<and> (parseHorcruxCommand argv = Inr None \<or> \<not> failed connect_result \<and>
          (\<exists>options. parseHorcruxCommand argv = Inr (Some options) \<and>
             getHorcruxes fs (mInputPath options) (make_BasicFileSplitter (mHorcruxCount options)) = Inr [])) \<or>
        code = 0 \<and> (\<exists>options. parseHorcruxCommand argv = Inr (Some options) \<and>
          (if failed connect_result then s' = s
           else \<exists>hs n ns. getHorcruxes fs (mInputPath options) (make_BasicFileSplitter (mHorcruxCount options)) = Inr hs \<and> hs \<noteq> [] \<and>
             sent s' = sent s @ take n (pre_message rd hs) @ concat (map2 take ns (request_messages pad rd hs)) \<and>
             (ns \<noteq> [] \<longrightarrow> (\<exists>ec ec' tail. script s = Wrote ec n # Got ec' ''SUCCESS'' # tail \<and> \<not> failed ec \<and> \<not> failed ec'))))"
proof (cases "parseHorcruxCommand argv")
  case (Inl ex)
  then have "ex = Out_Of_Range"
    by (auto simp: parseHorcruxCommand_def stoi_def Let_def split: if_splits sum.splits std_exception.splits prod.splits)
  then show ?thesis
    using assms Inl by (auto simp: client_main_def)
next
  case (Inr parsed)
  show ?thesis
  proof (cases parsed)
    case None
    then show ?thesis
      using assms Inr by (auto simp: client_main_def)
  next
    case (Some options)
    show ?thesis
    proof (cases "failed connect_result")
      case True
      then show ?thesis
        using assms Inr Some by (auto simp: client_main_def)
    next
      case False
      then have session: "client_session script_stream pad rd options fs s = Some (e, s')"
        using assms Inr Some by (simp add: client_main_def)
      let ?hs = "getHorcruxes fs (mInputPath options) (make_BasicFileSplitter (mHorcruxCount options))"
      consider err where "?hs = Inl err" | "?hs = Inr []" | hs where "?hs = Inr hs" "hs \<noteq> []"
        by (metis sum.exhaust)
      then show ?thesis
      proof cases
        case 3
        then show ?thesis
          using client_session_sent [OF session 3] Inr Some False by auto
      qed (use session Inr Some False in \<open>auto simp: client_session_def\<close>)
    qed
  qed
qed

theorem client_exit_witness:
  "\<exists>hs n s'. client_main script_stream [''./horcrux'', ''save'', ''-n'', dec_string 2, ''pic.png''] no_error
       (CHR 0x00, CHR 0x00, CHR 0x00, CHR 0x00) 5 demo_disk \<lparr>script = [Wrote no_error 9, Got no_error ''FAILURE''], sent = ''''\<rparr> =
     Some (Exit 0, s') \<and> hs \<noteq> [] \<and> sent s' = take n (pre_message 5 hs)"
proof -
  let ?s = "\<lparr>script = [Wrote no_error 9, Got no_error ''FAILURE''], sent = ''''\<rparr>"
  let ?argv = "[''./horcrux'', ''save'', ''-n'', dec_string 2, ''pic.png'']" and ?pad = "(CHR 0x00, CHR 0x00, CHR 0x00, CHR 0x00)"
  have "loadFile demo_disk ''pic.png'' = Some ''AAB''" "splittable (word_of_nat 2) ''AAB''"
    by (simp_all add: loadFile_eq demo_disk_def empty_disk_def splittable_def)
  note hs = getHorcruxes_file [OF this]
  have "length (serializeHeader pre_rep p) = 16" for p
    by (rule pre_length)
  then obtain s' where run: "client_main script_stream ?argv no_error ?pad 5 demo_disk ?s = Some (Exit 0, s')"
    using hs by (simp add: client_main_def parse_save client_session_def write_some_def readResponse_def read_some_def Let_def)
  from client_exit [OF run] hs show ?thesis
    by (auto simp: run parse_save)
qed

text \<open>
  C35. The client does not notice incomplete transfers. When the socket takes only a part of a
  header or content, the rest is never sent, and the request is still reported as successful if
  the server answers \<open>SUCCESS\<close>; and when only a part of the answer \<open>SUCCESS\<close> has arrived, the request
  is reported as failed.
\<close>

theorem client_partial_transfers:
  assumes "k \<le> 24" "m \<le> length (mReqContent r)" "j \<le> 7"
    and "script s = [Wrote no_error k, Wrote no_error m, Got no_error (take j ''SUCCESS'')]"
  shows "sendHorcruxRequest script_stream pad r s = Some (Inr (j = 7), s\<lparr>script := [],
    sent := sent s @ take k (serializeHeader (req_rep pad) (mHeader r)) @ take m (mReqContent r)\<rparr>)"
proof -
  have "take j ''SUCCESS'' = ''SUCCESS'' \<longleftrightarrow> j = 7"
    using assms(3) arg_cong [of "take j ''SUCCESS''" "''SUCCESS''" length] by auto
  then show ?thesis
    using assms
    by (simp add: sendHorcruxRequest_def write_some_def req_length readResponse_got Let_def)
qed

theorem client_partial_transfers_witness:
  "map_option fst (sendHorcruxRequest script_stream (CHR 0x00, CHR 0x00, CHR 0x00, CHR 0x00)
      \<lparr>mHeader = default_RequestHeader, mReqContent = ''data'', mReqChecksum = ''''\<rparr>
      \<lparr>script = [Wrote no_error 24, Wrote no_error 1, Got no_error (take 7 ''SUCCESS'')], sent = ''''\<rparr>) = Some (Inr True)"
  using client_partial_transfers [of 24 1
      "\<lparr>mHeader = default_RequestHeader, mReqContent = ''data'', mReqChecksum = ''''\<rparr>" 7
      "\<lparr>script = [Wrote no_error 24, Wrote no_error 1, Got no_error (take 7 ''SUCCESS'')], sent = ''''\<rparr>"]
  by simp

end
