(* ===== verification/Join_Tool.thy ===== *)
theory Join_Tool
  imports Tcp_Connection
begin

text \<open>
  Model of \<open>join.cpp\<close>, the program that puts a saved file together again. The identifier of the
  file and the number of its horcruxes are constants of the program; the loop is modelled for
  any identifier and any number.
\<close>

section \<open>Definitions\<close>

definition join_dirPath :: string where
  "join_dirPath = ''out''"

definition numHcxs :: u32 where
  "numHcxs = 4"

definition join_uuid :: u64 where
  "join_uuid = 17240256471984258206"

text \<open>The index is an \<open>int32_t\<close> that is never negative.\<close>

definition getFileName :: "u64 \<Rightarrow> nat \<Rightarrow> string" where
  "getFileName uuid index = to_string uuid @ ''.hcx.'' @ dec_string index"

text \<open>\<open>value()\<close> on an empty optional throws \<open>std::bad_optional_access\<close>.\<close>

function join_loop :: "filesystem \<Rightarrow> u64 \<Rightarrow> u32 \<Rightarrow> nat \<Rightarrow> string \<Rightarrow> std_exception + string" where
  "join_loop fs uuid n idx binaries =
     (if idx < unat n then
        case loadFile fs (path_append join_dirPath (getFileName uuid idx)) of
          None \<Rightarrow> Inl Bad_Optional_Access
        | Some loadedBinaries \<Rightarrow> join_loop fs uuid n (Suc idx) (binaries @ loadedBinaries)
      else Inr binaries)"
  by pat_completeness auto
termination
  by (relation "measure (\<lambda>(fs, uuid, n, idx, binaries). unat n - idx)") auto

declare join_loop.simps [simp del]

definition reconstructed_path :: string where
  "reconstructed_path = path_append join_dirPath ''reconstructed.png''"

text \<open>An exception ends the program; the result of \<open>saveFile\<close> is ignored.\<close>

definition join_main :: "filesystem \<Rightarrow> (std_exception + int) \<times> filesystem" where
  "join_main fs = (case join_loop fs join_uuid numHcxs 0 '''' of
      Inl e \<Rightarrow> (Inl e, fs)
    | Inr binaries \<Rightarrow> (Inr 0, snd (saveFile fs binaries reconstructed_path)))"

section \<open>Lemmas\<close>

lemma getFileName_path:
  "i < 2 ^ 32 \<Longrightarrow> path_append join_dirPath (getFileName uuid i) = horcrux_path uuid (word_of_nat i)"
  by (simp add: getFileName_def horcrux_path_def path_append_def join_dirPath_def kOutPath_def
      to_string_def unat_of_nat_u32)

lemma join_loop_pieces:
  assumes "idx \<le> unat n" "\<forall>i < unat n. loadFile fs (horcrux_path uuid (word_of_nat i)) = Some (cs ! i)"
    "length cs = unat n"
  shows "join_loop fs uuid n idx acc = Inr (acc @ concat (drop idx cs))"
  using assms
proof (induction fs uuid n idx acc rule: join_loop.induct)
  case (1 fs uuid n idx acc)
  show ?case
  proof (cases "idx < unat n")
    case True
    then have "idx < 2 ^ 32"
      using less_trans [OF _ unat_u32_less [of n]] by simp
    then have "loadFile fs (path_append join_dirPath (getFileName uuid idx)) = Some (cs ! idx)"
      using True 1(3) by (simp add: getFileName_path)
    with True 1 show ?thesis
      by (subst join_loop.simps) (simp flip: Cons_nth_drop_Suc)
  next
    case False
    then show ?thesis
      using 1(2,4) by (subst join_loop.simps) simp
  qed
qed

lemma join_loop_missing:
  assumes "idx \<le> i" "i < unat n" "loadFile fs (horcrux_path uuid (word_of_nat i)) = None"
  shows "join_loop fs uuid n idx acc = Inl Bad_Optional_Access"
  using assms
proof (induction fs uuid n idx acc rule: join_loop.induct)
  case (1 fs uuid n idx acc)
  have "idx < 2 ^ 32"
    using less_trans [OF le_less_trans [OF 1(2,3)] unat_u32_less] by simp
  then have path: "path_append join_dirPath (getFileName uuid idx) = horcrux_path uuid (word_of_nat idx)"
    by (rule getFileName_path)
  show ?case
  proof (cases "idx = i")
    case True
    then show ?thesis
      using 1(3,4) path by (subst join_loop.simps) simp
  next
    case False
    then have "Suc idx \<le> i" "idx < unat n"
      using 1(2,3) by simp_all
    then show ?thesis
      using 1 path by (subst join_loop.simps) (simp split: option.split)
  qed
qed

section \<open>Properties\<close>

text \<open>
  C13. The join program. When all four horcruxes can be loaded it ends normally and, if the output
  does not exist yet and there is room, the reconstructed file is the concatenation of the
  horcruxes in the order of their indices; when one of them cannot be loaded it ends with
  \<open>std::bad_optional_access\<close> and nothing is written. It never changes a file that exists.
\<close>

theorem join_main_correct:
  "(\<forall>cs. length cs = 4 \<longrightarrow>
      (\<forall>i<4. loadFile fs (horcrux_path join_uuid (word_of_nat i)) = Some (cs ! i)) \<longrightarrow>
      files fs reconstructed_path = None \<longrightarrow> writable fs reconstructed_path \<longrightarrow>
      length (concat cs) \<le> free_space fs \<longrightarrow>
      fst (join_main fs) = Inr 0 \<and>
      files (snd (join_main fs)) reconstructed_path = Some (concat cs)) \<and>
   (\<forall>i<4. loadFile fs (horcrux_path join_uuid (word_of_nat i)) = None \<longrightarrow>
      join_main fs = (Inl Bad_Optional_Access, fs)) \<and>
   (\<forall>q c. files fs q = Some c \<longrightarrow> files (snd (join_main fs)) q = Some c)"
proof -
  have n: "unat numHcxs = 4"
    by (simp add: numHcxs_def)
  have "join_main fs = (Inr 0, snd (saveFile fs (concat cs) reconstructed_path))"
    if "length cs = 4" "\<forall>i<4. loadFile fs (horcrux_path join_uuid (word_of_nat i)) = Some (cs ! i)" for cs
    using join_loop_pieces [of 0 numHcxs fs join_uuid cs "''''"] that by (simp add: join_main_def n)
  moreover have "join_main fs = (Inl Bad_Optional_Access, fs)"
    if "i < 4" "loadFile fs (horcrux_path join_uuid (word_of_nat i)) = None" for i
    using join_loop_missing [of 0 i numHcxs fs join_uuid "''''"] that by (simp add: join_main_def n)
  moreover have "files (snd (join_main fs)) q = Some c" if "files fs q = Some c" for q c
    using disk.save_keeps [OF that] that by (simp add: join_main_def split: sum.split)
  ultimately show ?thesis
    by (simp add: saveFile_def is_regular_file_def stream_write_def Let_def)
qed

definition four_horcruxes :: filesystem where
  "four_horcruxes = empty_disk\<lparr>files := (\<lambda>q.
     if q = horcrux_path join_uuid 0 then Some ''A'' else if q = horcrux_path join_uuid 1 then Some ''B''
     else if q = horcrux_path join_uuid 2 then Some ''C'' else if q = horcrux_path join_uuid 3 then Some ''D''
     else None)\<rparr>"

theorem join_main_correct_witness:
  "files (snd (join_main four_horcruxes)) reconstructed_path = Some ''ABCD'' \<and>
   join_main empty_disk = (Inl Bad_Optional_Access, empty_disk)"
proof -
  have f: "files four_horcruxes (horcrux_path join_uuid i) = (if i = 0 then Some ''A'' else if i = 1 then Some ''B''
      else if i = 2 then Some ''C'' else if i = 3 then Some ''D'' else None)" "readable four_horcruxes p" for i p
    by (simp_all add: four_horcruxes_def horcrux_path_inj empty_disk_def)
  have "loadFile four_horcruxes (horcrux_path join_uuid (word_of_nat i)) = Some ([''A'', ''B'', ''C'', ''D''] ! i)"
    if "i < 4" for i
  proof -
    have "i = 0 \<or> i = 1 \<or> i = 2 \<or> i = 3"
      using that by auto
    then show ?thesis
      by (auto simp: loadFile_eq f)
  qed
  moreover have "files four_horcruxes reconstructed_path = None"
  proof -
    have "horcrux_path join_uuid i \<noteq> reconstructed_path" for i
      using dec_string_digits [of "unat join_uuid"] dec_string_nonempty [of "unat join_uuid"]
      by (cases "dec_string (unat join_uuid)")
         (auto simp: horcrux_path_def path_append_def reconstructed_path_def join_dirPath_def kOutPath_def
           to_string_def is_digit_def)
    then show ?thesis
      by (simp add: four_horcruxes_def empty_disk_def not_sym)
  qed
  moreover have "writable four_horcruxes reconstructed_path" "4 \<le> free_space four_horcruxes"
    by (simp_all add: four_horcruxes_def empty_disk_def)
  moreover have "loadFile empty_disk p = None" for p
    by (simp add: loadFile_eq empty_disk_def)
  ultimately show ?thesis
    using join_main_correct [of four_horcruxes, THEN conjunct1, rule_format, of "[''A'', ''B'', ''C'', ''D'']"]
      join_main_correct [of empty_disk, THEN conjunct2, THEN conjunct1, rule_format, of 0]
    by simp
qed

end
