(* ===== verification/Save_Session.thy ===== *)
theory Save_Session
  imports Client Tcp_Server Join_Tool
begin

text \<open>
  The client, the network, the server and the join program together. The client writes its
  messages, the network delivers them to the server in any pieces, the responses of the server
  are what the client reads, and the file that the join loop reads back from the disk of the
  server is the file the client was asked to save.
\<close>

section \<open>The bytes a connection receives\<close>

fun received_bytes :: "conn_event list \<Rightarrow> byte list" where
  "received_bytes [] = []"
| "received_bytes (Read_Some ec bytes # evs) = bytes @ received_bytes evs"
| "received_bytes (Write_Some ec n # evs) = received_bytes evs"

lemma received_append [simp]: "received_bytes (xs @ ys) = received_bytes xs @ received_bytes ys"
  by (induction xs rule: received_bytes.induct) auto

lemma received_chunks [simp]:
  "received_bytes (map (Read_Some ec) chunks) = concat chunks"
  "received_bytes (map (Write_Some ec) ns) = []"
  by (induction chunks; simp) (induction ns; simp)

lemma received_pre_round:
  "chunking msg chunks \<Longrightarrow> received_bytes (pre_round chunks ns) = msg"
  by (simp add: pre_round_def chunking_def)

lemma received_request_round:
  "wire_ok w \<Longrightarrow>
   received_bytes (request_round True (wr_header_chunks w) (wr_content_chunks w) (wr_cuts w)) =
     serializeHeader (req_rep (wr_padding w)) (wr_header w) @ wr_content w"
  by (simp add: request_round_def wire_ok_def chunking_def)

lemma received_session:
  assumes "list_all wire_ok ws" "spec_run (Collecting uuid ps) ws = (replicate (length ws) True, s)"
  shows "received_bytes (session_events (Collecting uuid ps) ws) =
    concat (map (\<lambda>w. serializeHeader (req_rep (wr_padding w)) (wr_header w) @ wr_content w) ws)"
  using assms
proof (induction ws arbitrary: ps)
  case (Cons w ws)
  obtain b s1 where req: "spec_request (wr_header w) (wr_content w) (Collecting uuid ps) = (b, s1)"
    by fastforce
  have b: "b" and rest: "spec_run s1 ws = (replicate (length ws) True, s)"
    using Cons.prems(2) by (cases "spec_run s1 ws"; simp add: req Let_def del: spec_request.simps)+
  have "\<exists>uuid' ps'. s1 = Collecting uuid' ps' \<and> uuid' = uuid \<or> ws = []"
    using rest req b by (cases ws; cases s1) (auto simp: Let_def split: if_splits)
  then show ?case
    using Cons rest b by (auto simp: req received_request_round Let_def simp del: spec_request.simps)
qed simp

section \<open>The requests of a file, in order\<close>

definition carries :: "wire_request list \<Rightarrow> Request list \<Rightarrow> padding \<Rightarrow> bool" where
  "carries ws rs pad \<longleftrightarrow> map wr_header ws = map mHeader rs \<and> map wr_content ws = map mReqContent rs \<and>
     list_all (\<lambda>w. wr_padding w = pad) ws"

lemma carries_bytes:
  "carries ws rs pad \<Longrightarrow>
   concat (map (\<lambda>w. serializeHeader (req_rep (wr_padding w)) (wr_header w) @ wr_content w) ws) =
     concat (map (request_bytes pad) rs)"
proof (induction rs arbitrary: ws)
  case (Cons r rs)
  then show ?case
    by (cases ws) (auto simp: carries_def request_bytes_def)
qed (simp add: carries_def)

lemma file_requests_contents:
  "map mReqContent (file_requests uuid n d) = pieces_of (unat n) d"
  "length (file_requests uuid n d) = unat n"
  by (rule nth_equalityI) (simp_all add: file_requests_def file_horcruxes_def request_of_def pieces_of_def)

lemma file_requests_nth:
  "i < unat n \<Longrightarrow> file_requests uuid n d ! i = request_of uuid i (file_horcruxes n d ! i)"
  by (simp add: file_requests_def file_horcruxes_def pieces_of_def)

lemma carried_requests:
  assumes "carries ws (file_requests uuid n d) pad"
  shows "map wr_index ws = [0..<unat n]" "\<forall>w \<in> set ws. mReqUuid (wr_header w) = uuid" "length ws = unat n"
    "map wr_content ws = pieces_of (unat n) d"
proof -
  show len: "length ws = unat n"
    using arg_cong [of _ _ length, OF assms [unfolded carries_def, THEN conjunct1]]
    by (simp add: file_requests_contents)
  have hdr: "wr_header (ws ! i) = mHeader (request_of uuid i (file_horcruxes n d ! i))" if "i < unat n" for i
  proof -
    have "map wr_header ws ! i = map mHeader (file_requests uuid n d) ! i"
      using assms by (simp only: carries_def)
    then show ?thesis
      using that len by (simp add: file_requests_contents file_requests_nth)
  qed
  have "i < 2 ^ 32" if "i < unat n" for i
    using less_trans [OF that unat_u32_less] by simp
  then show "map wr_index ws = [0..<unat n]"
    by (intro nth_equalityI) (simp_all add: len wr_index_def hdr request_of_def unat_of_nat_u32)
  show "\<forall>w \<in> set ws. mReqUuid (wr_header w) = uuid"
    by (auto simp: in_set_conv_nth len hdr request_of_def)
  show "map wr_content ws = pieces_of (unat n) d"
    using assms by (simp add: carries_def file_requests_contents)
qed

lemma fill_in_order:
  assumes "map wr_index ws = [0..<n]"
  shows "map the (fill (replicate n None) ws) = map wr_content ws"
proof (rule nth_equalityI)
  have len: "length ws = n"
    using arg_cong [OF assms, of length] by simp
  then show "length (map the (fill (replicate n None) ws)) = length (map wr_content ws)"
    by simp
  fix i assume "i < length (map the (fill (replicate n None) ws))"
  then have i: "i < n"
    by simp
  have "wr_index (ws ! i) = i"
    using arg_cong [OF assms, of "\<lambda>xs. xs ! i"] i len by simp
  then show "map the (fill (replicate n None) ws) ! i = map wr_content ws ! i"
    using fill_nth [of ws "ws ! i" "replicate n None"] assms i len by simp
qed

lemma spec_run_file:
  assumes "carries ws (file_requests uuid n d) pad" "0 < n"
  shows "spec_run (Collecting uuid (replicate (unat n) None)) ws =
    (replicate (unat n) True, Complete uuid (pieces_of (unat n) d))"
proof -
  note ws = carried_requests [OF assms(1)]
  have "wr_index ` set ws = missing (replicate (unat n) None)"
    using arg_cong [OF ws(1), of set] by (auto simp: missing_def)
  moreover have "ws \<noteq> []" "distinct (map wr_index ws)"
    using assms(2) ws(1,3) by (auto simp: word_less_nat_alt)
  ultimately show ?thesis
    using spec_run_complete [of ws "replicate (unat n) None" uuid] ws fill_in_order [OF ws(1)] by simp
qed

lemma spec_pre_file:
  assumes "unat n \<le> 20" "length d \<le> 10000000" "splittable n d"
  shows "spec_pre (file_pre_request uuid n d) = (True, Collecting uuid (replicate (unat n) None))"
proof -
  have "0 < unat n"
    using assms(3) by (simp add: splittable_def word_less_nat_alt)
  then have "concat (map mContent (file_horcruxes n d)) = d" "length (file_horcruxes n d) = unat n"
    by (simp_all add: file_horcruxes_def comp_def concat_pieces_of) (simp add: pieces_of_def)
  then have "file_pre_request uuid n d = \<lparr>mUuid = uuid, mTotalSize = word_of_nat (length d), mNumHorcruxes = n\<rparr>"
    by (simp add: file_pre_request_def PreRequestHeader_fromHorcruxes_eq)
  then show ?thesis
    using assms by (simp add: spec_pre_def unat_of_nat_u32)
qed

section \<open>The saved file\<close>

text \<open>A disk on which the horcruxes of a file can be stored.\<close>

definition room_for :: "filesystem \<Rightarrow> u64 \<Rightarrow> u32 \<Rightarrow> string \<Rightarrow> bool" where
  "room_for fs uuid n d \<longleftrightarrow> length d \<le> free_space fs \<and>
     (\<forall>i < unat n. files fs (horcrux_path uuid (word_of_nat i)) = None \<and>
        usable_path fs (horcrux_path uuid (word_of_nat i)))"

lemma in_horcrux_files:
  "(p, c) \<in> set (horcrux_files uuid 0 cs) \<longleftrightarrow> (\<exists>i < length cs. p = horcrux_path uuid (word_of_nat i) \<and> c = cs ! i)"
  by (force simp: horcrux_files_def in_set_enumerate_eq split: prod.splits)

lemma saved_file_joins:
  assumes "room_for fs uuid n d" "0 < n"
  shows "join_loop (spec_store (Complete uuid (pieces_of (unat n) d)) fs) uuid n 0 '''' = Inr d"
proof -
  let ?cs = "pieces_of (unat n) d"
  let ?ps = "horcrux_files uuid 0 ?cs"
  have len: "length ?cs = unat n" and all: "concat ?cs = d"
    using assms(2) by (simp_all add: concat_pieces_of word_less_nat_alt) (simp add: pieces_of_def)
  have "distinct (map fst ?ps)"
    using less_imp_le [OF unat_u32_less [of n]] by (intro horcrux_files_distinct) (simp add: len)
  moreover have "\<forall>(p, c) \<in> set ?ps. files fs p = None \<and> usable_path fs p"
    using assms(1) by (auto simp: in_horcrux_files len room_for_def)
  moreover have "map snd ?ps = ?cs"
    by (simp add: horcrux_files_def comp_def split_beta)
  then have "length (concat (map snd ?ps)) \<le> free_space fs"
    using assms(1) by (simp add: all room_for_def)
  ultimately have "loadFile (store_all saveFile fs ?ps) (horcrux_path uuid (word_of_nat i)) = Some (?cs ! i)"
    if "i < unat n" for i
    using that by (intro disk.load_stored) (auto simp: in_horcrux_files len)
  then show ?thesis
    using join_loop_pieces [of 0 n "store_all saveFile fs ?ps" uuid ?cs "''''"] by (simp add: len all)
qed

definition session_of :: "byte list list \<Rightarrow> nat list \<Rightarrow> u64 \<Rightarrow> u32 \<Rightarrow> wire_request list \<Rightarrow> conn_event list" where
  "session_of chunks ns uuid n ws =
     pre_round chunks ns @ session_events (Collecting uuid (replicate (unat n) None)) ws"

lemma server_saves_file:
  assumes "splittable n d" "unat n \<le> 20" "length d \<le> 10000000" "room_for fs uuid n d"
    and "chunking (serializeHeader pre_rep (file_pre_request uuid n d)) chunks" "write_cuts 7 ns"
    and "carries ws (file_requests uuid n d) pad" "list_all wire_ok ws"
  shows "let evs = session_of chunks ns uuid n ws;
             fs' = snd (conn_run evs (Start createNew, fs))
         in conn_run_ok evs (Start createNew, fs) \<and>
            received_bytes evs = serializeHeader pre_rep (file_pre_request uuid n d) @
              concat (map (request_bytes pad) (file_requests uuid n d)) \<and>
            conn_run_output evs (Start createNew, fs) = concat (replicate (Suc (unat n)) ''SUCCESS'') \<and>
            join_loop fs' uuid n 0 '''' = Inr d"
proof -
  have n: "0 < n"
    using assms(1) by (simp add: splittable_def)
  note pre = spec_pre_file [OF assms(2,3,1), of uuid] and run = spec_run_file [OF assms(7) n]
  have "received_bytes (session_of chunks ns uuid n ws) = serializeHeader pre_rep (file_pre_request uuid n d) @
      concat (map (request_bytes pad) (file_requests uuid n d))"
    using received_session [OF assms(8), of uuid] run carried_requests(3) [OF assms(7)]
    by (simp add: session_of_def received_pre_round [OF assms(5)] carries_bytes [OF assms(7)])
  then show ?thesis
    using whole_session [OF assms(5,6,8), of fs] saved_file_joins [OF assms(4) n] run
    by (simp add: pre session_of_def Let_def case_prod_beta response_def map_replicate del: session_events.simps spec_store.simps)
qed

text \<open>The wire requests of a list of requests when nothing is cut.\<close>

definition uncut :: "padding \<Rightarrow> Request \<Rightarrow> wire_request" where
  "uncut pad r = \<lparr>wr_header = mHeader r, wr_content = mReqContent r, wr_padding = pad,
     wr_header_chunks = [serializeHeader (req_rep pad) (mHeader r)],
     wr_content_chunks = [mReqContent r], wr_cuts = [7]\<rparr>"

lemma uncut_carries: "carries (map (uncut pad) rs) rs pad"
  by (simp add: carries_def uncut_def comp_def list_all_iff)

lemma uncut_wire_ok:
  assumes "splittable n d" "length d \<le> 65536"
  shows "list_all wire_ok (map (uncut pad) (file_requests uuid n d))"
proof -
  have "wire_ok (uncut pad (file_requests uuid n d ! i))" if i: "i < unat n" for i
  proof -
    let ?c = "piece (unat n) d i"
    have r: "file_requests uuid n d ! i = request_of uuid i \<lparr>mContent = ?c, mChecksum = ''''\<rparr>"
      using i by (simp add: file_requests_nth file_horcruxes_def pieces_of_def)
    have "length ?c \<le> length d"
      by (auto simp: piece_def min_def)
    moreover have "0 < length d div unat n"
      using assms(1) i by (auto simp: splittable_def div_greater_zero_iff)
    then have "0 < length ?c"
      using length_piece [of i "unat n" d] i by simp
    ultimately show ?thesis
      using assms(2) by (simp add: wire_ok_def uncut_def r request_of_def chunking_whole serialized_length
          write_cuts_whole unat_of_nat_u32)
  qed
  then show ?thesis
    by (auto simp: list_all_length file_requests_contents)
qed

section \<open>Properties\<close>

text \<open>
  C1. Saving a file, end to end. The client is started on a readable file of at most 10 million
  bytes, with a count between 1 and 20 that does not exceed the size of the file; the disk of the
  server has room, and the paths of the horcruxes of this identifier are usable and not in use yet. On the
  side of the client every \<open>write_some\<close> takes the whole message and every \<open>read_some\<close> yields the whole answer (theory
  \<open>Client\<close> shows what happens otherwise); on the side of the server the network may cut messages and
  responses in any way. Then the client ends with exit code 0; the bytes it sends are exactly
  the bytes the connection of the server receives, and the socket events the server sees are all
  possible; the responses of the server are the answers the client has read; and the join loop reads
  the file back from the disk, byte for byte.
\<close>

theorem save_end_to_end:
  assumes "loadFile client_fs path = Some d" "1 \<le> count" "count \<le> 20" "count \<le> length d" "length d \<le> 10000000"
    and "uuid = generateRandomUint64 rd" "n = word_of_nat count" "room_for fs uuid n d"
    and "chunking (serializeHeader pre_rep (file_pre_request uuid n d)) chunks" "write_cuts 7 ns"
    and "carries ws (file_requests uuid n d) pad" "list_all wire_ok ws"
    and "script s = Wrote no_error 16 # Got no_error ''SUCCESS'' #
      concat (map (\<lambda>r. request_script r ''SUCCESS'') (file_requests uuid n d))"
  shows "let evs = session_of chunks ns uuid n ws
    in (\<exists>s'. client_main script_stream [prog, ''save'', ''-n'', dec_string count, path] no_error pad rd client_fs s = Some (Exit 0, s') \<and>
          sent s' = sent s @ received_bytes evs) \<and>
       conn_run_ok evs (Start createNew, fs) \<and>
       conn_run_output evs (Start createNew, fs) = concat (replicate (Suc count) ''SUCCESS'') \<and>
       join_loop (snd (conn_run evs (Start createNew, fs))) uuid n 0 '''' = Inr d"
proof -
  have n: "unat n = count"
    using assms(3,7) by (simp add: unat_of_nat_u32)
  have "0 < n" "n \<le> int32_max"
    using assms(2,3) by (simp_all add: word_less_nat_alt word_le_nat_alt n)
  then have splittable: "splittable n d"
    using assms(4,5) by (intro splittable_below_4GiB) (simp_all add: n)
  have zip: "map2 request_script rs (replicate (length rs) ''SUCCESS'') =
      map (\<lambda>r. request_script r ''SUCCESS'') rs" for rs
    by (induction rs) simp_all
  have "client_session script_stream pad rd \<lparr>mHorcruxCount = n, mInputPath = path\<rparr> client_fs s =
      Some (Exit 0, s\<lparr>script := [], sent := sent s @ serializeHeader pre_rep (file_pre_request uuid n d) @
        concat (map (request_bytes pad) (file_requests uuid n d))\<rparr>)"
    using client_session_file [of client_fs "\<lparr>mHorcruxCount = n, mInputPath = path\<rparr>" d s "''SUCCESS''"]
      assms(1,6,13) splittable zip [of "file_requests uuid n d"]
    by (simp add: send_all_whole [where replies = "replicate (length (file_requests uuid n d)) ''SUCCESS''" and rest = "[]"]
        Let_def list_all_iff)
  moreover have "client_main script_stream [prog, ''save'', ''-n'', dec_string count, path] no_error pad rd client_fs s =
      client_session script_stream pad rd \<lparr>mHorcruxCount = n, mInputPath = path\<rparr> client_fs s"
    using assms(3,7) by (simp add: client_main_def parse_save)
  ultimately show ?thesis
    using server_saves_file [OF splittable _ assms(5,8-12)] assms(3) by (simp add: n Let_def)
qed

theorem save_end_to_end_witness:
  "let uuid = generateRandomUint64 5;
       ws = map (uncut no_padding) (file_requests uuid 2 ''AAB'');
       evs = session_of [serializeHeader pre_rep (file_pre_request uuid 2 ''AAB'')] [7] uuid 2 ws
   in join_loop (snd (conn_run evs (Start createNew, empty_disk))) uuid 2 0 '''' = Inr ''AAB''"
proof -
  let ?uuid = "generateRandomUint64 5"
  let ?msg = "serializeHeader pre_rep (file_pre_request ?uuid 2 ''AAB'')"
  have load: "loadFile demo_disk ''pic.png'' = Some ''AAB''"
    by (simp add: loadFile_eq demo_disk_def empty_disk_def)
  have room: "room_for empty_disk ?uuid 2 ''AAB''"
    by (simp add: room_for_def empty_disk_def usable_path_def)
  have "splittable 2 ''AAB''"
    by (simp add: splittable_def)
  then have wire: "list_all wire_ok (map (uncut no_padding) (file_requests ?uuid 2 ''AAB''))"
    by (intro uncut_wire_ok) simp_all
  have msg: "chunking ?msg [?msg]"
    by (rule chunking_whole) (simp_all add: serialized_length)
  from save_end_to_end [OF load _ _ _ _ refl _ room msg write_cuts_whole uncut_carries wire, of 2
      "\<lparr>script = Wrote no_error 16 # Got no_error ''SUCCESS'' #
        concat (map (\<lambda>r. request_script r ''SUCCESS'') (file_requests ?uuid 2 ''AAB'')), sent = ''''\<rparr>" "''./horcrux''"]
  show ?thesis
    by (simp add: Let_def)
qed

end
