(* ===== verification/Asio_Buffer_Copy.thy ===== *)
theory Asio_Buffer_Copy
  imports Asio_Buffer
begin

text \<open>
  Model of \<open>buffer_copy\<close> (\<open>asio/buffer.hpp\<close>): the four loops that copy between single buffers and
  sequences of buffers, over a memory that maps addresses to bytes. All of them implement one
  specification, the locale \<open>copies\<close>: the copied bytes are the first bytes of the source, they
  land at the first addresses of the target, and nothing else changes.
\<close>

section \<open>Memory\<close>

type_synonym memory = "nat \<Rightarrow> byte"

definition memcpy :: "memory \<Rightarrow> nat \<Rightarrow> nat \<Rightarrow> nat \<Rightarrow> memory" where
  "memcpy mem dst src n = (\<lambda>a. if dst \<le> a \<and> a < dst + n then mem (src + (a - dst)) else mem a)"

definition buffer_copy_1 :: "memory \<Rightarrow> buffer \<Rightarrow> buffer \<Rightarrow> nat \<times> memory" where
  "buffer_copy_1 mem target source =
     (let target_size = buf_size target; source_size = buf_size source;
          n = (if target_size < source_size then target_size else source_size)
      in (n, if n > 0 then memcpy mem (buf_data target) (buf_data source) n else mem))"

lemma buffer_copy_1_size: "fst (buffer_copy_1 mem t s) = min (buf_size t) (buf_size s)"
  by (simp add: buffer_copy_1_def Let_def min_def)

section \<open>The loops\<close>

definition copy_one_one :: "memory \<Rightarrow> buffer \<Rightarrow> buffer \<Rightarrow> nat \<Rightarrow> nat \<times> memory" where
  "copy_one_one mem target source max_bytes =
     buffer_copy_1 mem target (buffer_max source max_bytes)"

fun copy_one_many_loop :: "memory \<Rightarrow> buffer \<Rightarrow> buffer list \<Rightarrow> nat \<Rightarrow> nat \<times> memory" where
  "copy_one_many_loop mem target_buffer [] copied_so_far = (copied_so_far, mem)"
| "copy_one_many_loop mem target_buffer (source_buffer # rest) copied_so_far =
     (if buf_size target_buffer \<noteq> 0 then
        let (bytes_copied, mem') = buffer_copy_1 mem target_buffer source_buffer
        in copy_one_many_loop mem' (buffer_plus target_buffer bytes_copied) rest (copied_so_far + bytes_copied)
      else (copied_so_far, mem))"

definition copy_one_many :: "memory \<Rightarrow> buffer \<Rightarrow> buffer list \<Rightarrow> nat \<Rightarrow> nat \<times> memory" where
  "copy_one_many mem target sources max_bytes =
     copy_one_many_loop mem (buffer_max target max_bytes) sources 0"

fun copy_many_one_loop :: "memory \<Rightarrow> buffer list \<Rightarrow> buffer \<Rightarrow> nat \<Rightarrow> nat \<times> memory" where
  "copy_many_one_loop mem [] source_buffer copied_so_far = (copied_so_far, mem)"
| "copy_many_one_loop mem (target_buffer # rest) source_buffer copied_so_far =
     (if buf_size source_buffer \<noteq> 0 then
        let (bytes_copied, mem') = buffer_copy_1 mem target_buffer source_buffer
        in copy_many_one_loop mem' rest (buffer_plus source_buffer bytes_copied) (copied_so_far + bytes_copied)
      else (copied_so_far, mem))"

definition copy_many_one :: "memory \<Rightarrow> buffer list \<Rightarrow> buffer \<Rightarrow> nat \<Rightarrow> nat \<times> memory" where
  "copy_many_one mem targets source max_bytes =
     copy_many_one_loop mem targets (buffer_max source max_bytes) 0"

text \<open>
  Both sides sequences. \<open>left\<close> is \<open>max_bytes_to_copy - total_bytes_copied\<close>; the iterators are the
  remaining lists, with the offsets into their first buffers.
\<close>

function copy_many_many_loop ::
  "memory \<Rightarrow> buffer list \<Rightarrow> nat \<Rightarrow> buffer list \<Rightarrow> nat \<Rightarrow> nat \<Rightarrow> nat \<Rightarrow> nat \<times> memory"
where
  "copy_many_many_loop mem [] toff ss soff left copied_so_far = (copied_so_far, mem)"
| "copy_many_many_loop mem (t # ts) toff [] soff left copied_so_far = (copied_so_far, mem)"
| "copy_many_many_loop mem (t # ts) toff (s # ss) soff left copied_so_far =
     (if left \<noteq> 0 then
        let target_buffer = buffer_plus t toff;
            source_buffer = buffer_plus s soff;
            (bytes_copied, mem') = buffer_copy_1 mem target_buffer (buffer_max source_buffer left)
        in copy_many_many_loop mem'
             (if bytes_copied = buf_size target_buffer then ts else t # ts)
             (if bytes_copied = buf_size target_buffer then 0 else toff + bytes_copied)
             (if bytes_copied = buf_size source_buffer then ss else s # ss)
             (if bytes_copied = buf_size source_buffer then 0 else soff + bytes_copied)
             (left - bytes_copied) (copied_so_far + bytes_copied)
      else (copied_so_far, mem))"
  by pat_completeness auto
termination
  by (relation "measure (\<lambda>(mem, ts, toff, ss, soff, left, copied_so_far). length ts + length ss + left)")
     (auto dest!: arg_cong [of "(_, _)" _ fst] simp: buffer_copy_1_size)

declare copy_many_many_loop.simps(3) [simp del]

definition copy_many_many :: "memory \<Rightarrow> buffer list \<Rightarrow> buffer list \<Rightarrow> nat \<Rightarrow> nat \<times> memory" where
  "copy_many_many mem targets sources max_bytes =
     copy_many_many_loop mem targets 0 sources 0 max_bytes 0"

section \<open>Specification\<close>

text \<open>Storing bytes at a list of addresses.\<close>

fun store_bytes :: "memory \<Rightarrow> nat list \<Rightarrow> byte list \<Rightarrow> memory" where
  "store_bytes mem (a # as) (b # bs) = store_bytes (mem(a := b)) as bs"
| "store_bytes mem as bs = mem"

definition apart :: "nat list \<Rightarrow> nat list \<Rightarrow> bool" where
  "apart ts ss \<longleftrightarrow> distinct ts \<and> set ts \<inter> set ss = {}"

lemma store_bytes_other: "a \<notin> set as \<Longrightarrow> store_bytes mem as bs a = mem a"
  by (induction mem as bs rule: store_bytes.induct) auto

lemma store_bytes_read:
  "distinct as \<Longrightarrow> length as = length bs \<Longrightarrow> map (store_bytes mem as bs) as = bs"
  by (induction mem as bs rule: store_bytes.induct) (auto simp: store_bytes_other)

lemma store_bytes_append:
  "length as = length bs \<Longrightarrow>
   store_bytes mem (as @ as') (bs @ bs') = store_bytes (store_bytes mem as bs) as' bs'"
  by (induction mem as bs rule: store_bytes.induct) auto

lemma store_bytes_upt:
  "store_bytes mem [d..<d + n] (map f [s..<s + n]) =
     (\<lambda>a. if d \<le> a \<and> a < d + n then f (s + (a - d)) else mem a)"
proof (induction n)
  case (Suc n)
  have "store_bytes mem ([d..<d + n] @ [d + n]) (map f [s..<s + n] @ [f (s + n)]) =
      (store_bytes mem [d..<d + n] (map f [s..<s + n]))(d + n := f (s + n))"
    by (subst store_bytes_append) simp_all
  then show ?case
    by (auto simp: Suc.IH fun_eq_iff)
qed (auto simp: fun_eq_iff)

text \<open>The effect of copying \<open>n\<close> bytes, and the contract every \<open>buffer_copy\<close> meets.\<close>

definition copied :: "memory \<Rightarrow> nat list \<Rightarrow> nat list \<Rightarrow> nat \<Rightarrow> memory" where
  "copied mem ts ss n = store_bytes mem (take n ts) (map mem (take n ss))"

locale copies =
  fixes copy :: "memory \<Rightarrow> 't \<Rightarrow> 's \<Rightarrow> nat \<Rightarrow> nat \<times> memory"
    and target_cells :: "'t \<Rightarrow> nat list"
    and source_cells :: "'s \<Rightarrow> nat list"
  assumes copy_effect: "apart (target_cells t) (source_cells s) \<Longrightarrow>
    copy mem t s m =
      (let n = min (min (length (target_cells t)) (length (source_cells s))) m
       in (n, copied mem (target_cells t) (source_cells s) n))"
begin

lemma copy_contract:
  assumes "apart (target_cells t) (source_cells s)" "copy mem t s m = (n, mem')"
  shows "n = min (min (length (target_cells t)) (length (source_cells s))) m"
    and "map mem' (take n (target_cells t)) = map mem (take n (source_cells s))"
    and "a \<notin> set (take n (target_cells t)) \<Longrightarrow> mem' a = mem a"
proof -
  have n: "n = min (min (length (target_cells t)) (length (source_cells s))) m"
    and mem': "mem' = copied mem (target_cells t) (source_cells s) n"
    using copy_effect [OF assms(1), of mem m] assms(2) by (auto simp: Let_def)
  show "n = min (min (length (target_cells t)) (length (source_cells s))) m"
    by (rule n)
  show "map mem' (take n (target_cells t)) = map mem (take n (source_cells s))"
    unfolding mem' copied_def using assms(1) n by (intro store_bytes_read) (auto simp: apart_def)
  show "mem' a = mem a" if "a \<notin> set (take n (target_cells t))"
    using that by (simp add: mem' copied_def store_bytes_other)
qed

end

section \<open>Correctness of the loops\<close>

lemma buffer_copy_1_effect:
  "buffer_copy_1 mem t s =
     (let n = min (buf_size t) (buf_size s) in (n, copied mem (extent t) (extent s) n))"
  by (auto simp: buffer_copy_1_def memcpy_def copied_def extent_def Let_def min_def take_upt
      store_bytes_upt fun_eq_iff)

lemma copied_compose:
  assumes "apart ts ss" "n \<le> length ts" "n \<le> length ss"
  shows "copied (copied mem ts ss n) (drop n ts) (drop n ss) k = copied mem ts ss (n + k)"
proof -
  have "copied mem ts ss n a = mem a" if "a \<in> set ss" for a
    unfolding copied_def
    using that assms(1) by (intro store_bytes_other) (auto simp: apart_def dest: in_set_takeD)
  then have "map (copied mem ts ss n) (take k (drop n ss)) = map mem (take k (drop n ss))"
    by (auto dest!: in_set_takeD in_set_dropD)
  moreover have "copied mem ts ss (n + k) =
      store_bytes (copied mem ts ss n) (take k (drop n ts)) (map mem (take k (drop n ss)))"
    using assms(2,3) by (simp add: copied_def take_add store_bytes_append)
  ultimately show ?thesis
    by (simp only: copied_def [of "copied mem ts ss n"])
qed

lemma apart_drop: "apart ts ss \<Longrightarrow> apart (drop n ts) (drop m ss)"
  by (auto simp: apart_def dest: in_set_dropD)

lemma copied_zero [simp]: "copied mem ts ss 0 = mem"
  by (simp add: copied_def)

lemma copied_prefix: "n \<le> length ts \<Longrightarrow> n \<le> length ss \<Longrightarrow> copied mem (ts @ ts') (ss @ ss') n = copied mem ts ss n"
  by (simp add: copied_def)

lemma copied_upto: "copied mem (take m ts) ss n = copied mem ts ss n" if "n \<le> m"
  using that by (simp add: copied_def min_def)

lemma copied_upto_source: "copied mem ts (take m ss) n = copied mem ts ss n" if "n \<le> m"
  using that by (simp add: copied_def min_def)

lemma copy_one_many_loop_effect:
  assumes "apart (extent t) (extents ss)"
  shows "copy_one_many_loop mem t ss k =
    (let n = min (buf_size t) (length (extents ss)) in (k + n, copied mem (extent t) (extents ss) n))"
  using assms
proof (induction ss arbitrary: mem t k)
  case (Cons s ss)
  let ?n = "min (buf_size t) (buf_size s)"
  show ?case
  proof (cases "buf_size t \<le> buf_size s")
    case True
    have "copy_one_many_loop mem' t' ss j = (j, mem')" if "buf_size t' = 0" for mem' t' j
      using that by (cases ss) auto
    then show ?thesis
      using True copied_prefix [of "buf_size t" "extent t" "extent s" mem "[]" "extents ss"]
      by (auto simp: buffer_copy_1_effect Let_def min_def)
  next
    case False
    have first: "copied mem (extent t) (extent s) (buf_size s) =
        copied mem (extent t) (extent s @ extents ss) (buf_size s)"
      using False copied_prefix [of "buf_size s" "extent t" "extent s" mem "[]" "extents ss"] by simp
    have step: "copy_one_many_loop mem t (s # ss) k = copy_one_many_loop
        (copied mem (extent t) (extents (s # ss)) (buf_size s)) (buffer_plus t (buf_size s)) ss (k + buf_size s)"
      using False first by (simp add: buffer_copy_1_effect Let_def min_def)
    have rest: "apart (extent (buffer_plus t (buf_size s))) (extents ss)"
      using apart_drop [OF Cons.prems, of "buf_size s" "buf_size s"] by simp
    have count: "buf_size s + min (buf_size t - buf_size s) (length (extents ss)) =
        min (buf_size t) (length (extents (s # ss)))"
      using False by auto
    show ?thesis
      unfolding step Cons.IH [OF rest] count [symmetric]
      using copied_compose [OF Cons.prems, of "buf_size s" mem] False by (simp add: Let_def)
  qed
qed simp

lemma copy_many_one_loop_effect:
  assumes "apart (extents ts) (extent s)"
  shows "copy_many_one_loop mem ts s k =
    (let n = min (length (extents ts)) (buf_size s) in (k + n, copied mem (extents ts) (extent s) n))"
  using assms
proof (induction ts arbitrary: mem s k)
  case (Cons t ts)
  let ?n = "min (buf_size t) (buf_size s)"
  show ?case
  proof (cases "buf_size s \<le> buf_size t")
    case True
    have "copy_many_one_loop mem' ts s' j = (j, mem')" if "buf_size s' = 0" for mem' s' j
      using that by (cases ts) auto
    then show ?thesis
      using True copied_prefix [of "buf_size s" "extent t" "extent s" mem "extents ts" "[]"]
      by (auto simp: buffer_copy_1_effect Let_def min_def)
  next
    case False
    have first: "copied mem (extent t) (extent s) (buf_size t) =
        copied mem (extent t @ extents ts) (extent s) (buf_size t)"
      using False copied_prefix [of "buf_size t" "extent t" "extent s" mem "extents ts" "[]"] by simp
    have step: "copy_many_one_loop mem (t # ts) s k = copy_many_one_loop
        (copied mem (extents (t # ts)) (extent s) (buf_size t)) ts (buffer_plus s (buf_size t)) (k + buf_size t)"
      using False first by (simp add: buffer_copy_1_effect Let_def min_def)
    have rest: "apart (extents ts) (extent (buffer_plus s (buf_size t)))"
      using apart_drop [OF Cons.prems, of "buf_size t" "buf_size t"] by simp
    have count: "buf_size t + min (length (extents ts)) (buf_size s - buf_size t) =
        min (length (extents (t # ts))) (buf_size s)"
      using False by auto
    show ?thesis
      unfolding step Cons.IH [OF rest] count [symmetric]
      using copied_compose [OF Cons.prems, of "buf_size t" mem] False by (simp add: Let_def)
  qed
qed simp

text \<open>One iteration of the loop over two sequences, on the remaining cells of both sides.\<close>

lemma advance_cells:
  assumes "off \<le> buf_size b" "n \<le> buf_size b - off"
  shows "drop (if n = buf_size b - off then 0 else off + n)
      (extents (if n = buf_size b - off then bs else b # bs)) = drop n (drop off (extents (b # bs)))"
    and "offset_ok (if n = buf_size b - off then bs else b # bs) (if n = buf_size b - off then 0 else off + n)"
  using assms by (auto simp: add.commute)

lemma min_count: "n \<le> a \<Longrightarrow> n \<le> b \<Longrightarrow> n \<le> c \<Longrightarrow> n + min (min (a - n) (b - n)) (c - n) = min (min a b) (c :: nat)"
  by auto

lemma copy_many_many_loop_effect:
  assumes "apart (drop toff (extents ts)) (drop soff (extents ss))"
    and "offset_ok ts toff" "offset_ok ss soff"
  shows "copy_many_many_loop mem ts toff ss soff left k =
    (let n = min (min (length (drop toff (extents ts))) (length (drop soff (extents ss)))) left
     in (k + n, copied mem (drop toff (extents ts)) (drop soff (extents ss)) n))"
  using assms
proof (induction mem ts toff ss soff left k rule: copy_many_many_loop.induct)
  case (3 mem t ts toff s ss soff left k)
  let ?T = "drop toff (extents (t # ts))" and ?S = "drop soff (extents (s # ss))"
  show ?case
  proof (cases "left = 0")
    case True
    then show ?thesis
      by (simp add: copy_many_many_loop.simps(3))
  next
    case False
    have off: "toff \<le> buf_size t" "soff \<le> buf_size s"
      using "3.prems" by simp_all
    define n where "n = min (buf_size t - toff) (min (buf_size s - soff) left)"
    have n: "n \<le> buf_size t - toff" "n \<le> buf_size s - soff" "n \<le> left"
      by (auto simp: n_def)
    have nT: "n \<le> length ?T" "n \<le> length ?S"
      using n off by auto
    have first: "buffer_copy_1 mem (buffer_plus t toff) (buffer_max (buffer_plus s soff) left) =
        (n, copied mem ?T ?S n)"
      using off n copied_prefix [of n "drop toff (extent t)" "drop soff (extent s)" mem "extents ts" "extents ss"]
      by (simp add: buffer_copy_1_effect Let_def copied_upto_source n_def)
    have loop: "copy_many_many_loop mem (t # ts) toff (s # ss) soff left k =
      copy_many_many_loop (copied mem ?T ?S n)
        (if n = buf_size t - toff then ts else t # ts) (if n = buf_size t - toff then 0 else toff + n)
        (if n = buf_size s - soff then ss else s # ss) (if n = buf_size s - soff then 0 else soff + n)
        (left - n) (k + n)"
      using False by (subst copy_many_many_loop.simps(3)) (simp add: first Let_def)
    have count: "n + min (min (length (drop n ?T)) (length (drop n ?S))) (left - n) =
        min (min (length ?T) (length ?S)) left"
      using min_count [OF nT n(3)] by (simp only: length_drop)
    from "3.IH" [OF False refl refl refl first [symmetric], unfolded size_plus,
        unfolded advance_cells [OF off(1) n(1)] advance_cells [OF off(2) n(2)],
        OF apart_drop [OF "3.prems"(1)]] advance_cells(2) [OF off(1) n(1)] advance_cells(2) [OF off(2) n(2)]
    have "copy_many_many_loop mem (t # ts) toff (s # ss) soff left k =
      (k + n + min (min (length (drop n ?T)) (length (drop n ?S))) (left - n),
       copied (copied mem ?T ?S n) (drop n ?T) (drop n ?S)
         (min (min (length (drop n ?T)) (length (drop n ?S))) (left - n)))"
      unfolding loop Let_def by blast
    then show ?thesis
      by (simp only: copied_compose [OF "3.prems"(1) nT] add.assoc count Let_def)
  qed
qed (simp_all add: Let_def)

interpretation one_one: copies copy_one_one extent extent
  by unfold_locales
    (auto simp: copy_one_one_def buffer_copy_1_effect Let_def copied_upto_source min.assoc)

interpretation one_many: copies copy_one_many extent extents
proof
  fix t ss mem m
  assume "apart (extent t) (extents ss)"
  then have "apart (extent (buffer_max t m)) (extents ss)"
    by (auto simp: apart_def dest: in_set_takeD)
  from copy_one_many_loop_effect [OF this, of mem 0]
  show "copy_one_many mem t ss m = (let n = min (min (length (extent t)) (length (extents ss))) m
      in (n, copied mem (extent t) (extents ss) n))"
    by (simp add: copy_one_many_def Let_def copied_upto min.assoc min.commute [of m])
qed

interpretation many_one: copies copy_many_one extents extent
proof
  fix ts s mem m
  assume "apart (extents ts) (extent s)"
  then have "apart (extents ts) (extent (buffer_max s m))"
    by (auto simp: apart_def dest: in_set_takeD)
  from copy_many_one_loop_effect [OF this, of mem 0]
  show "copy_many_one mem ts s m = (let n = min (min (length (extents ts)) (length (extent s))) m
      in (n, copied mem (extents ts) (extent s) n))"
    by (simp add: copy_many_one_def Let_def copied_upto_source min.assoc)
qed

interpretation many_many: copies copy_many_many extents extents
  by unfold_locales
    (simp add: copy_many_many_def copy_many_many_loop_effect Let_def)

section \<open>Properties\<close>

text \<open>
  \<open>buffer_copy\<close> between two sequences of buffers that do not overlap copies exactly the
  lesser of both sizes and the limit, puts the first bytes of the source sequence at the first
  cells of the target sequence, and changes no other cell of memory.
\<close>

lemma buffer_copy_correct:
  assumes "apart (extents targets) (extents sources)"
    and "copy_many_many mem targets sources max_bytes = (n, mem')"
  shows "n = min (min (buffer_size targets) (buffer_size sources)) max_bytes \<and>
    map mem' (take n (extents targets)) = map mem (take n (extents sources)) \<and>
    (\<forall>a. a \<notin> set (take n (extents targets)) \<longrightarrow> mem' a = mem a)"
  using many_many.copy_contract [OF assms] by simp

lemma buffer_copy_correct_example:
  "map (snd (copy_many_many (\<lambda>a. char_of (a + 77)) [\<lparr>buf_data = 0, buf_size = 2\<rparr>, \<lparr>buf_data = 5, buf_size = 3\<rparr>]
      [\<lparr>buf_data = 20, buf_size = 4\<rparr>] 100)) [0, 1, 5, 6] = ''abcd''"
proof -
  let ?ts = "[\<lparr>buf_data = 0, buf_size = 2\<rparr>, \<lparr>buf_data = 5, buf_size = 3 :: nat\<rparr>]"
  let ?ss = "[\<lparr>buf_data = 20, buf_size = 4 :: nat\<rparr>]"
  obtain n mem' where eq: "copy_many_many (\<lambda>a. char_of (a + 77)) ?ts ?ss 100 = (n, mem')"
    by fastforce
  have cells: "extents ?ts = [0, 1, 5, 6, 7]" "extents ?ss = [20, 21, 22, 23]"
    by code_simp+
  have "apart (extents ?ts) (extents ?ss)"
    by (simp only: cells) (simp add: apart_def)
  from buffer_copy_correct [OF this eq]
  have "map mem' (take 4 [0, 1, 5, 6, 7]) = map (\<lambda>a. char_of (a + 77)) (take 4 [20, 21, 22, 23 :: nat])"
    unfolding cells buffer_size_extents by fastforce
  then show ?thesis
    unfolding eq by (simp add: char_of_def bit_0)
qed

text \<open>
  The overloads for single buffers are equivalent to the general loop on sequences of one
  buffer, for the number of bytes as well as for the resulting memory.
\<close>

lemma buffer_copy_overloads_agree:
  assumes "apart (extent t) (extent s)"
  shows "copy_one_one mem t s m = copy_many_many mem [t] [s] m \<and>
    copy_one_many mem t [s] m = copy_many_many mem [t] [s] m \<and>
    copy_many_one mem [t] s m = copy_many_many mem [t] [s] m"
  using assms one_one.copy_effect [of t s mem m] one_many.copy_effect [of t "[s]" mem m]
    many_one.copy_effect [of "[t]" s mem m] many_many.copy_effect [of "[t]" "[s]" mem m]
  by simp

lemma buffer_copy_overloads_agree_example:
  "copy_one_one (\<lambda>a. CHR ''x'') \<lparr>buf_data = 0, buf_size = 2\<rparr> \<lparr>buf_data = 9, buf_size = 3\<rparr> 7 =
   copy_many_many (\<lambda>a. CHR ''x'') [\<lparr>buf_data = 0, buf_size = 2\<rparr>] [\<lparr>buf_data = 9, buf_size = 3\<rparr>] 7"
proof -
  have "apart (extent \<lparr>buf_data = 0, buf_size = 2\<rparr>) (extent \<lparr>buf_data = 9, buf_size = 3\<rparr>)"
    by (auto simp: apart_def extent_def)
  from buffer_copy_overloads_agree [OF this] show ?thesis
    by blast
qed

end
