(* ===== verification/Asio_Op_Queue.thy ===== *)
theory Asio_Op_Queue
  imports Horcrux_Prelude
begin

text \<open>
  Model of \<open>asio/detail/op_queue.hpp\<close>, the intrusive queue of operations that the scheduler and
  the reactor use. An operation is an address; its \<open>next_\<close> pointer is in the heap, a null pointer
  is \<open>None\<close>. A queue holds the addresses of its first and last operation. The queue is shown to
  be a list: every operation of the class acts on the list of enqueued operations, and leaves
  other queues alone.
\<close>

section \<open>Definitions\<close>

type_synonym operation = nat
type_synonym next_heap = "operation \<Rightarrow> operation option"

record op_queue =
  front_ptr :: "operation option"
  back_ptr :: "operation option"

definition queue_new :: op_queue where
  "queue_new = \<lparr>front_ptr = None, back_ptr = None\<rparr>"

definition queue_front :: "op_queue \<Rightarrow> operation option" where
  "queue_front q = front_ptr q"

definition queue_pop :: "next_heap \<times> op_queue \<Rightarrow> next_heap \<times> op_queue" where
  "queue_pop s = (case s of (next, q) \<Rightarrow>
     (case front_ptr q of
        None \<Rightarrow> (next, q)
      | Some tmp \<Rightarrow>
          let front = next tmp;
              q' = (if front = None then q\<lparr>front_ptr := front, back_ptr := None\<rparr> else q\<lparr>front_ptr := front\<rparr>)
          in (next(tmp := None), q')))"

definition queue_push :: "operation \<Rightarrow> next_heap \<times> op_queue \<Rightarrow> next_heap \<times> op_queue" where
  "queue_push h s = (case s of (next, q) \<Rightarrow>
     (let next1 = next(h := None)
      in case back_ptr q of
           Some back \<Rightarrow> (next1(back := Some h), q\<lparr>back_ptr := Some h\<rparr>)
         | None \<Rightarrow> (next1, q\<lparr>front_ptr := Some h, back_ptr := Some h\<rparr>)))"

text \<open>Push all operations of another queue, which is emptied.\<close>

definition queue_push_all ::
  "next_heap \<Rightarrow> op_queue \<Rightarrow> op_queue \<Rightarrow> next_heap \<times> op_queue \<times> op_queue" where
  "queue_push_all next q other = (case front_ptr other of
      None \<Rightarrow> (next, q, other)
    | Some other_front \<Rightarrow>
        let (next1, q1) = (case back_ptr q of
              Some back \<Rightarrow> (next(back := Some other_front), q)
            | None \<Rightarrow> (next, q\<lparr>front_ptr := Some other_front\<rparr>))
        in (next1, q1\<lparr>back_ptr := back_ptr other\<rparr>, other\<lparr>front_ptr := None, back_ptr := None\<rparr>))"

definition queue_is_empty :: "op_queue \<Rightarrow> bool" where
  "queue_is_empty q \<longleftrightarrow> front_ptr q = None"

definition is_enqueued :: "next_heap \<Rightarrow> op_queue \<Rightarrow> operation \<Rightarrow> bool" where
  "is_enqueued next q op \<longleftrightarrow> next op \<noteq> None \<or> back_ptr q = Some op"

text \<open>
  The destructor pops and destroys one operation after the other, until the queue is empty; the
  result is the list of destroyed operations. On a heap in which the operations form a cycle it
  would not end, which is \<open>None\<close>.
\<close>

partial_function (option) queue_destroy ::
  "next_heap \<times> op_queue \<Rightarrow> operation list \<Rightarrow> ((next_heap \<times> op_queue) \<times> operation list) option" where
  "queue_destroy s destroyed = (case front_ptr (snd s) of
      None \<Rightarrow> Some (s, destroyed)
    | Some op \<Rightarrow> queue_destroy (queue_pop s) (destroyed @ [op]))"

section \<open>The list of a queue\<close>

fun linked :: "next_heap \<Rightarrow> operation option \<Rightarrow> operation list \<Rightarrow> bool" where
  "linked next p [] \<longleftrightarrow> p = None"
| "linked next p (x # xs) \<longleftrightarrow> p = Some x \<and> linked next (next x) xs"

fun is_queue :: "next_heap \<times> op_queue \<Rightarrow> operation list \<Rightarrow> bool" where
  "is_queue (next, q) xs \<longleftrightarrow> linked next (front_ptr q) xs \<and> distinct xs \<and>
     back_ptr q = (if xs = [] then None else Some (last xs))"

lemma linked_frame: "x \<notin> set xs \<Longrightarrow> linked (next(x := v)) p xs = linked next p xs"
  by (induction xs arbitrary: p) auto

lemma linked_unique: "linked next p xs \<Longrightarrow> linked next p ys \<Longrightarrow> xs = ys"
proof (induction xs arbitrary: p ys)
  case (Cons x xs)
  then show ?case
    by (cases ys) auto
next
  case Nil
  then show ?case
    by (cases ys) auto
qed

lemma linked_append:
  "linked next p xs \<Longrightarrow> xs \<noteq> [] \<Longrightarrow> distinct xs \<Longrightarrow> last xs \<notin> set ys \<Longrightarrow> linked next r ys \<Longrightarrow>
   linked (next(last xs := r)) p (xs @ ys)"
proof (induction xs arbitrary: p)
  case (Cons x xs)
  show ?case
  proof (cases "xs = []")
    case True
    then show ?thesis
      using Cons.prems by (simp add: linked_frame fun_upd_same del: fun_upd_apply)
  next
    case False
    then have "x \<noteq> last xs"
      using Cons.prems(3) by (auto dest: last_in_set)
    then show ?thesis
      using False Cons by (simp add: fun_upd_other del: fun_upd_apply)
  qed
qed simp

lemma linked_next: "linked next p xs \<Longrightarrow> x \<in> set xs \<Longrightarrow> next x = None \<Longrightarrow> x = last xs"
proof (induction xs arbitrary: p)
  case (Cons y xs)
  then show ?case
    by (cases xs) auto
qed simp

fun pop_many :: "('s \<Rightarrow> 's) \<Rightarrow> ('s \<Rightarrow> 'op option) \<Rightarrow> nat \<Rightarrow> 's \<Rightarrow> 'op list \<times> 's" where
  "pop_many pop front 0 s = ([], s)"
| "pop_many pop front (Suc n) s = (case front s of
      None \<Rightarrow> ([], s)
    | Some x \<Rightarrow> let (xs, s') = pop_many pop front n (pop s) in (x # xs, s'))"

text \<open>
  What a client of a queue relies on; a state \<open>represents\<close> the list of enqueued operations.
  Elements that are pushed must not be enqueued already.
\<close>

locale fifo_queue =
  fixes push :: "'op \<Rightarrow> 's \<Rightarrow> 's" and pop :: "'s \<Rightarrow> 's" and front :: "'s \<Rightarrow> 'op option"
    and represents :: "'s \<Rightarrow> 'op list \<Rightarrow> bool"
  assumes push_back: "represents s xs \<Longrightarrow> x \<notin> set xs \<Longrightarrow> represents (push x s) (xs @ [x])"
    and pop_front: "represents s (x # xs) \<Longrightarrow> represents (pop s) xs"
    and front_hd: "represents s xs \<Longrightarrow> front s = (case xs of [] \<Rightarrow> None | x # _ \<Rightarrow> Some x)"
begin

text \<open>Pushing a list of operations and then popping as many gives them back in the same order.\<close>

lemma push_many: "represents s xs \<Longrightarrow> distinct (xs @ ys) \<Longrightarrow> represents (fold push ys s) (xs @ ys)"
proof (induction ys arbitrary: s xs)
  case (Cons y ys)
  then have "represents (push y s) (xs @ [y])"
    by (intro push_back) auto
  from Cons.IH [OF this] Cons.prems(2) show ?case
    by simp
qed simp

lemma pop_many_order:
  "represents s xs \<Longrightarrow>
   fst (pop_many pop front (length xs) s) = xs \<and> represents (snd (pop_many pop front (length xs) s)) []"
proof (induction xs arbitrary: s)
  case (Cons x xs)
  then show ?case
    using Cons.IH [OF pop_front [OF Cons.prems]] by (simp add: front_hd case_prod_beta)
qed simp

lemma first_in_first_out:
  "represents s [] \<Longrightarrow> distinct ys \<Longrightarrow> fst (pop_many pop front (length ys) (fold push ys s)) = ys"
  using push_many [of s "[]" ys] pop_many_order [of "fold push ys s" ys] by simp

end

lemma is_queue_pop:
  assumes "is_queue (next, q) (x # xs)"
  shows "is_queue (queue_pop (next, q)) xs" "fst (queue_pop (next, q)) = next(x := None)"
  using assms by (cases xs; auto simp: queue_pop_def linked_frame Let_def)+

lemma is_queue_push:
  assumes "is_queue (next, q) xs" "x \<notin> set xs"
  shows "is_queue (queue_push x (next, q)) (xs @ [x])"
proof (cases "xs = []")
  case False
  then have "linked ((next(x := None))(last xs := Some x)) (front_ptr q) (xs @ [x])"
    using assms by (intro linked_append) (auto simp: linked_frame dest: last_in_set)
  then show ?thesis
    using assms False by (simp add: queue_push_def)
qed (use assms in \<open>simp add: queue_push_def\<close>)

interpretation ops: fifo_queue queue_push queue_pop "\<lambda>s. queue_front (snd s)" is_queue
proof
  fix s :: "next_heap \<times> op_queue" and xs :: "operation list" and x :: operation
  obtain "next" q where s: "s = (next, q)"
    by (cases s)
  show "is_queue s xs \<Longrightarrow> x \<notin> set xs \<Longrightarrow> is_queue (queue_push x s) (xs @ [x])"
    unfolding s by (rule is_queue_push)
  show "is_queue s (x # xs) \<Longrightarrow> is_queue (queue_pop s) xs"
    unfolding s by (rule is_queue_pop)
  show "is_queue s xs \<Longrightarrow> queue_front (snd s) = (case xs of [] \<Rightarrow> None | x # _ \<Rightarrow> Some x)"
    unfolding s by (cases xs) (auto simp: queue_front_def)
qed

text \<open>Other queues are not affected by what happens to one.\<close>

lemma other_queue_push:
  "is_queue (next, q) xs \<Longrightarrow> is_queue (next, q') ys \<Longrightarrow> set xs \<inter> set ys = {} \<Longrightarrow> x \<notin> set ys \<Longrightarrow>
   is_queue (fst (queue_push x (next, q)), q') ys"
  by (auto simp: queue_push_def linked_frame Let_def disjoint_iff dest: last_in_set split: option.split if_splits)

lemma other_queue_pop:
  "is_queue (next, q) (x # xs) \<Longrightarrow> is_queue (next, q') ys \<Longrightarrow> set (x # xs) \<inter> set ys = {} \<Longrightarrow>
   is_queue (fst (queue_pop (next, q)), q') ys"
  using is_queue_pop(2) [of "next" q x xs] by (simp add: linked_frame del: fun_upd_apply)

lemma queue_push_all_correct:
  assumes "is_queue (next, q) xs" "is_queue (next, other) ys" "set xs \<inter> set ys = {}"
  shows "case queue_push_all next q other of (next', q', other') \<Rightarrow>
    is_queue (next', q') (xs @ ys) \<and> is_queue (next', other') []"
proof (cases "ys = []")
  case False
  then obtain y ys' where ys: "ys = y # ys'"
    by (cases ys) auto
  show ?thesis
  proof (cases "xs = []")
    case True
    then show ?thesis
      using assms ys by (auto simp: queue_push_all_def)
  next
    case xs: False
    then have "last xs \<notin> set ys"
      using assms(3) by (auto dest: last_in_set)
    then have "linked (next(last xs := Some y)) (front_ptr q) (xs @ ys)"
      using assms xs ys by (intro linked_append) auto
    then show ?thesis
      using assms xs ys by (auto simp: queue_push_all_def)
  qed
qed (use assms in \<open>auto simp: queue_push_all_def\<close>)

lemma is_enqueued_iff:
  assumes "is_queue (next, q) xs" "\<forall>y. next y \<noteq> None \<longrightarrow> y \<in> set xs"
  shows "is_enqueued next q x \<longleftrightarrow> x \<in> set xs"
  using assms linked_next [of "next" "front_ptr q" xs x] by (auto simp: is_enqueued_def split: if_splits)

lemma queue_destroy_all:
  "is_queue s xs \<Longrightarrow> \<exists>s'. queue_destroy s ds = Some (s', ds @ xs) \<and> is_queue s' []"
proof (induction xs arbitrary: s ds)
  case Nil
  then show ?case
    by (cases s) (simp add: queue_destroy.simps)
next
  case (Cons x xs)
  have "front_ptr (snd s) = Some x"
    using Cons.prems by (cases s) simp
  then have "queue_destroy s ds = queue_destroy (queue_pop s) (ds @ [x])"
    by (subst queue_destroy.simps) simp
  with Cons.IH [OF ops.pop_front [OF Cons.prems], of "ds @ [x]"] show ?case
    by simp
qed

section \<open>Properties\<close>

text \<open>
  C25. The intrusive queue is a first-in-first-out queue: pushing any distinct operations on an
  empty queue and popping as many returns them in order; pushing all of another queue appends its
  operations and empties it; an operation reports to be enqueued exactly when it is; and the
  destructor ends and destroys every operation once, from front to back.
\<close>

theorem op_queue_fifo:
  "(\<forall>ops s. is_queue s [] \<longrightarrow> distinct ops \<longrightarrow>
      fst (pop_many queue_pop (\<lambda>s. queue_front (snd s)) (length ops) (fold queue_push ops s)) = ops) \<and>
   (\<forall>next q other xs ys. is_queue (next, q) xs \<longrightarrow> is_queue (next, other) ys \<longrightarrow> set xs \<inter> set ys = {} \<longrightarrow>
      (case queue_push_all next q other of (next', q', other') \<Rightarrow>
         is_queue (next', q') (xs @ ys) \<and> queue_is_empty other')) \<and>
   (\<forall>next q xs x. is_queue (next, q) xs \<longrightarrow> (\<forall>y. next y \<noteq> None \<longrightarrow> y \<in> set xs) \<longrightarrow>
      (is_enqueued next q x \<longleftrightarrow> x \<in> set xs)) \<and>
   (\<forall>s xs. is_queue s xs \<longrightarrow> (\<exists>s'. queue_destroy s [] = Some (s', xs) \<and> queue_is_empty (snd s')))"
proof (intro conjI allI impI)
  show "fst (pop_many queue_pop (\<lambda>s. queue_front (snd s)) (length xs) (fold queue_push xs s)) = xs"
    if "is_queue s []" "distinct xs" for xs s
    using that by (rule ops.first_in_first_out)
  show "case queue_push_all next q other of (next', q', other') \<Rightarrow>
      is_queue (next', q') (xs @ ys) \<and> queue_is_empty other'"
    if "is_queue (next, q) xs" "is_queue (next, other) ys" "set xs \<inter> set ys = {}" for "next" q other xs ys
    using queue_push_all_correct [OF that] by (auto simp: queue_is_empty_def)
  show "is_enqueued next q x \<longleftrightarrow> x \<in> set xs"
    if "is_queue (next, q) xs" "\<forall>y. next y \<noteq> None \<longrightarrow> y \<in> set xs" for "next" q xs x
    using that by (rule is_enqueued_iff)
  show "\<exists>s'. queue_destroy s [] = Some (s', xs) \<and> queue_is_empty (snd s')" if "is_queue s xs" for s xs
    using queue_destroy_all [OF that, of "[]"] by (auto simp: queue_is_empty_def)
qed

theorem op_queue_fifo_witness:
  "fst (pop_many queue_pop (\<lambda>s. queue_front (snd s)) 3 (fold queue_push [5, 2, 9] (\<lambda>_. None, queue_new))) = [5, 2, 9]"
proof -
  have "is_queue (\<lambda>_. None, queue_new) []"
    by (simp add: queue_new_def)
  from op_queue_fifo [THEN conjunct1, rule_format, OF this, of "[5, 2, 9]"] show ?thesis
    by (simp add: numeral_3_eq_3)
qed

end
