(* ===== verification/Asio_Scheduler.thy ===== *)
theory Asio_Scheduler
  imports Horcrux_Prelude
begin

text \<open>
  Model of \<open>asio/detail/scheduler.hpp\<close> and \<open>asio/detail/impl/scheduler.ipp\<close>, the event loop behind
  \<open>io_context::run\<close>, with \<open>asio/detail/posix_event.hpp\<close>. One thread runs the scheduler, as in
  \<open>server.cpp\<close>; the queues are lists (see \<open>Asio_Op_Queue\<close>). A handler is the list of calls it makes
  on the scheduler; the results of the reactor, the \<open>has_task\<close> of the scheduler, are a script with one
  entry per call of \<open>task_->run\<close>: the operations it hands over. Exceptions of handlers are not
  modelled.
\<close>

section \<open>The event\<close>

text \<open>Bit 0 of \<open>ev_state\<close> is the signal, every waiting thread adds 2.\<close>

record event =
  ev_state :: nat

definition event_signal_all :: "event \<Rightarrow> event" where
  "event_signal_all e = (if odd (ev_state e) then e else e\<lparr>ev_state := ev_state e + 1\<rparr>)"

definition event_unlock_and_signal_one :: "event \<Rightarrow> event" where
  "event_unlock_and_signal_one e = event_signal_all e"

definition maybe_unlock_and_signal_one :: "event \<Rightarrow> bool \<times> event" where
  "maybe_unlock_and_signal_one e = (let e' = event_signal_all e in (ev_state e' > 1, e'))"

definition event_clear :: "event \<Rightarrow> event" where
  "event_clear e = (if odd (ev_state e) then e\<lparr>ev_state := ev_state e - 1\<rparr> else e)"

text \<open>
  A wait with a timeout that nobody else ends: the thread is counted among the waiting ones for
  as long as it waits, and not any more when it returns.
\<close>

definition event_wait_for_usec :: "event \<Rightarrow> bool \<times> event" where
  "event_wait_for_usec e =
     (let e' = (if even (ev_state e) then e\<lparr>ev_state := ev_state e + 2 - 2\<rparr> else e) in (odd (ev_state e'), e'))"

section \<open>State\<close>

datatype sched_op = Task_Operation | Operation nat

record scheduler =
  one_thread :: bool
  wakeup_event :: event
  has_task :: bool
  task_interrupted :: bool
  outstanding_work :: int
  sched_queue :: "sched_op list"
  stopped :: bool
  was_shutdown :: bool
  interrupts :: nat

record thread_info =
  private_op_queue :: "sched_op list"
  private_outstanding_work :: int

text \<open>
  The constructor, without a thread of its own; \<open>single\<close> is what it derives from the
  concurrency hint. \<open>interrupts\<close> counts the calls of \<open>task_->interrupt()\<close>.
\<close>

definition scheduler_new :: "bool \<Rightarrow> scheduler" where
  "scheduler_new single = \<lparr>one_thread = single, wakeup_event = \<lparr>ev_state = 0\<rparr>, has_task = False,
     task_interrupted = True, outstanding_work = 0, sched_queue = [], stopped = False, was_shutdown = False,
     interrupts = 0\<rparr>"

definition thread_info_new :: thread_info where
  "thread_info_new = \<lparr>private_op_queue = [], private_outstanding_work = 0\<rparr>"

section \<open>Stopping and waking\<close>

definition interrupt_task :: "scheduler \<Rightarrow> scheduler" where
  "interrupt_task s =
     (if \<not> task_interrupted s \<and> has_task s then s\<lparr>task_interrupted := True, interrupts := interrupts s + 1\<rparr> else s)"

definition stop_all_threads :: "scheduler \<Rightarrow> scheduler" where
  "stop_all_threads s =
     interrupt_task (s\<lparr>stopped := True, wakeup_event := event_signal_all (wakeup_event s)\<rparr>)"

definition stop :: "scheduler \<Rightarrow> scheduler" where
  "stop s = stop_all_threads s"

definition restart :: "scheduler \<Rightarrow> scheduler" where
  "restart s = s\<lparr>stopped := False\<rparr>"

definition wake_one_thread_and_unlock :: "scheduler \<Rightarrow> scheduler" where
  "wake_one_thread_and_unlock s =
     (let (signalled, e) = maybe_unlock_and_signal_one (wakeup_event s);
          s' = s\<lparr>wakeup_event := e\<rparr>
      in if signalled then s' else interrupt_task s')"

definition work_started :: "scheduler \<Rightarrow> scheduler" where
  "work_started s = s\<lparr>outstanding_work := outstanding_work s + 1\<rparr>"

definition work_finished :: "scheduler \<Rightarrow> scheduler" where
  "work_finished s =
     (let s' = s\<lparr>outstanding_work := outstanding_work s - 1\<rparr>
      in if outstanding_work s' = 0 then stop s' else s')"

definition init_task :: "scheduler \<Rightarrow> scheduler" where
  "init_task s =
     (if \<not> was_shutdown s \<and> \<not> has_task s
      then wake_one_thread_and_unlock (s\<lparr>has_task := True, sched_queue := sched_queue s @ [Task_Operation]\<rparr>)
      else s)"

text \<open>\<open>shutdown\<close>: the destroyed handlers, and the scheduler in its initial state.\<close>

definition shutdown :: "scheduler \<Rightarrow> sched_op list \<times> scheduler" where
  "shutdown s = (filter (\<lambda>h. h \<noteq> Task_Operation) (sched_queue s),
     s\<lparr>was_shutdown := True, sched_queue := [], has_task := False\<rparr>)"

section \<open>Posting\<close>

text \<open>
  \<open>inside\<close>: whether the calling thread is the one that runs the scheduler, in which case its
  \<open>thread_info\<close> is on the call stack.
\<close>

definition push_shared :: "sched_op list \<Rightarrow> scheduler \<Rightarrow> scheduler" where
  "push_shared ops s = wake_one_thread_and_unlock (s\<lparr>sched_queue := sched_queue s @ ops\<rparr>)"

definition push_private :: "sched_op list \<Rightarrow> thread_info \<Rightarrow> thread_info" where
  "push_private ops th = th\<lparr>private_op_queue := private_op_queue th @ ops\<rparr>"

definition compensating_work_started :: "thread_info \<Rightarrow> thread_info" where
  "compensating_work_started th = th\<lparr>private_outstanding_work := private_outstanding_work th + 1\<rparr>"

definition post_immediate_completions ::
  "sched_op list \<Rightarrow> bool \<Rightarrow> bool \<Rightarrow> scheduler \<times> thread_info \<Rightarrow> scheduler \<times> thread_info" where
  "post_immediate_completions ops is_continuation inside st = (case st of (s, th) \<Rightarrow>
     if (one_thread s \<or> is_continuation) \<and> inside then
       (s, push_private ops (th\<lparr>private_outstanding_work := private_outstanding_work th + int (length ops)\<rparr>))
     else (push_shared ops (s\<lparr>outstanding_work := outstanding_work s + int (length ops)\<rparr>), th))"

definition post_immediate_completion ::
  "sched_op \<Rightarrow> bool \<Rightarrow> bool \<Rightarrow> scheduler \<times> thread_info \<Rightarrow> scheduler \<times> thread_info" where
  "post_immediate_completion op is_continuation inside st = (case st of (s, th) \<Rightarrow>
     if (one_thread s \<or> is_continuation) \<and> inside then
       (s, push_private [op] (th\<lparr>private_outstanding_work := private_outstanding_work th + 1\<rparr>))
     else (push_shared [op] (work_started s), th))"

definition post_deferred_completion ::
  "sched_op \<Rightarrow> bool \<Rightarrow> scheduler \<times> thread_info \<Rightarrow> scheduler \<times> thread_info" where
  "post_deferred_completion op inside st = (case st of (s, th) \<Rightarrow>
     if one_thread s \<and> inside then (s, push_private [op] th) else (push_shared [op] s, th))"

definition post_deferred_completions ::
  "sched_op list \<Rightarrow> bool \<Rightarrow> scheduler \<times> thread_info \<Rightarrow> scheduler \<times> thread_info" where
  "post_deferred_completions ops inside st = (case st of (s, th) \<Rightarrow>
     if ops \<noteq> [] then
       if one_thread s \<and> inside then (s, push_private ops th) else (push_shared ops s, th)
     else (s, th))"

definition do_dispatch :: "sched_op \<Rightarrow> scheduler \<Rightarrow> scheduler" where
  "do_dispatch op s = push_shared [op] (work_started s)"

section \<open>Handlers\<close>

text \<open>The calls a handler can make on the scheduler that runs it.\<close>

datatype handler_call =
    Post nat bool
  | Post_Many "nat list" bool
  | Deferred "nat list"
  | Dispatch nat
  | Work_Started
  | Work_Finished
  | Compensate
  | Stop

fun perform :: "handler_call \<Rightarrow> scheduler \<times> thread_info \<Rightarrow> scheduler \<times> thread_info" where
  "perform (Post op cont) st = post_immediate_completion (Operation op) cont True st"
| "perform (Post_Many ops cont) st = post_immediate_completions (map Operation ops) cont True st"
| "perform (Deferred ops) st = post_deferred_completions (map Operation ops) True st"
| "perform (Dispatch op) (s, th) = (do_dispatch (Operation op) s, th)"
| "perform Work_Started (s, th) = (work_started s, th)"
| "perform Work_Finished (s, th) = (work_finished s, th)"
| "perform Compensate (s, th) = (s, compensating_work_started th)"
| "perform Stop (s, th) = (stop s, th)"

type_synonym handlers = "nat \<Rightarrow> handler_call list"

text \<open>\<open>o->complete(...)\<close>\<close>

definition complete :: "handlers \<Rightarrow> nat \<Rightarrow> scheduler \<times> thread_info \<Rightarrow> scheduler \<times> thread_info" where
  "complete handlers op st = fold perform (handlers op) st"

section \<open>Running\<close>

definition task_cleanup :: "scheduler \<times> thread_info \<Rightarrow> scheduler \<times> thread_info" where
  "task_cleanup st = (case st of (s, th) \<Rightarrow>
     (let s1 = (if private_outstanding_work th > 0
            then s\<lparr>outstanding_work := outstanding_work s + private_outstanding_work th\<rparr> else s)
      in (s1\<lparr>task_interrupted := True,
             sched_queue := sched_queue s1 @ private_op_queue th @ [Task_Operation]\<rparr>,
          th\<lparr>private_outstanding_work := 0, private_op_queue := []\<rparr>)))"

definition work_cleanup :: "scheduler \<times> thread_info \<Rightarrow> scheduler \<times> thread_info" where
  "work_cleanup st = (case st of (s, th) \<Rightarrow>
     (let s1 = (if private_outstanding_work th > 1
            then s\<lparr>outstanding_work := outstanding_work s + (private_outstanding_work th - 1)\<rparr>
            else if private_outstanding_work th < 1 then work_finished s else s);
          s2 = (if private_op_queue th \<noteq> [] then s1\<lparr>sched_queue := sched_queue s1 @ private_op_queue th\<rparr> else s1)
      in (s2, th\<lparr>private_outstanding_work := 0, private_op_queue := []\<rparr>)))"

text \<open>What happened in a run: calls of the task with their results, and completed operations.\<close>

datatype run_event = Ran_Task "nat list" | Completed nat

text \<open>
  \<open>task_->run(...)\<close> appends the next result of the script to the private queue; the task is only
  run outside of the lock, and the lock is taken again by the clean-up.
\<close>

definition run_task :: "bool \<Rightarrow> nat list \<Rightarrow> scheduler \<times> thread_info \<Rightarrow> scheduler \<times> thread_info" where
  "run_task more_handlers ready st = (case st of (s, th) \<Rightarrow>
     (let s1 = s\<lparr>task_interrupted := more_handlers\<rparr>;
          s2 = (if more_handlers \<and> \<not> one_thread s1
            then s1\<lparr>wakeup_event := event_unlock_and_signal_one (wakeup_event s1)\<rparr> else s1)
      in task_cleanup (s2, push_private (map Operation ready) th)))"

definition run_operation :: "handlers \<Rightarrow> nat \<Rightarrow> scheduler \<times> thread_info \<Rightarrow> scheduler \<times> thread_info" where
  "run_operation handlers op st = (case st of (s, th) \<Rightarrow>
     (let more_handlers = sched_queue s \<noteq> [];
          s1 = (if more_handlers \<and> \<not> one_thread s then wake_one_thread_and_unlock s else s)
      in work_cleanup (complete handlers op (s1, th))))"

text \<open>
  \<open>do_run_one\<close>. The result is the number of completed operations, the state, the rest of the
  script and what happened; \<open>None\<close> when the thread blocks for ever: in the task, or, with an empty
  queue, on the event, which is cleared first and which nobody else signals.
\<close>

type_synonym run_result = "(nat \<times> (scheduler \<times> thread_info) \<times> nat list list \<times> run_event list) option"

function do_run_one :: "handlers \<Rightarrow> scheduler \<times> thread_info \<Rightarrow> nat list list \<Rightarrow> run_event list \<Rightarrow> run_result" where
  "do_run_one handlers (s, th) script trace =
     (if stopped s then Some (0, (s, th), script, trace)
      else case sched_queue s of
             [] \<Rightarrow> None
           | Task_Operation # rest \<Rightarrow>
               (case script of
                  [] \<Rightarrow> None
                | ready # script' \<Rightarrow>
                    do_run_one handlers (run_task (rest \<noteq> []) ready (s\<lparr>sched_queue := rest\<rparr>, th)) script'
                      (trace @ [Ran_Task ready]))
           | Operation op # rest \<Rightarrow>
               Some (1, run_operation handlers op (s\<lparr>sched_queue := rest\<rparr>, th), script, trace @ [Completed op]))"
  by pat_completeness auto
termination
  by (relation "measure (\<lambda>(handlers, st, script, trace). length script)") auto

declare do_run_one.simps [simp del]

definition do_poll_one :: "handlers \<Rightarrow> scheduler \<times> thread_info \<Rightarrow> nat list list \<Rightarrow> run_event list \<Rightarrow> run_result" where
  "do_poll_one handlers st script trace = (case st of (s, th) \<Rightarrow>
     if stopped s then Some (0, (s, th), script, trace)
     else
       let finish = (\<lambda>(s, th) script trace. case sched_queue s of
             Operation op # rest \<Rightarrow>
               Some (1, run_operation handlers op (s\<lparr>sched_queue := rest\<rparr>, th), script, trace @ [Completed op])
           | Task_Operation # rest \<Rightarrow>
               Some (0, (s\<lparr>wakeup_event := snd (maybe_unlock_and_signal_one (wakeup_event s))\<rparr>, th), script, trace)
           | [] \<Rightarrow> Some (0, (s, th), script, trace))
       in case sched_queue s of
            Task_Operation # rest \<Rightarrow>
              (case script of
                 [] \<Rightarrow> None
               | ready # script' \<Rightarrow>
                   finish (task_cleanup (s\<lparr>sched_queue := rest\<rparr>, push_private (map Operation ready) th)) script'
                     (trace @ [Ran_Task ready]))
          | _ \<Rightarrow> finish (s, th) script trace)"

text \<open>
  \<open>do_wait_one\<close>; the timeout bounds the waits of the task and of the event, whose results are the
  script and, as nobody else signals the event, that the queue is still empty.
\<close>

definition do_wait_one :: "handlers \<Rightarrow> scheduler \<times> thread_info \<Rightarrow> nat list list \<Rightarrow> run_event list \<Rightarrow> run_result" where
  "do_wait_one handlers st script trace = (case st of (s, th) \<Rightarrow>
     if stopped s then Some (0, (s, th), script, trace)
     else
       let s0 = (if sched_queue s = []
             then s\<lparr>wakeup_event := snd (event_wait_for_usec (event_clear (wakeup_event s)))\<rparr> else s);
           finish = (\<lambda>(s, th) script trace. case sched_queue s of
             Operation op # rest \<Rightarrow>
               Some (1, run_operation handlers op (s\<lparr>sched_queue := rest\<rparr>, th), script, trace @ [Completed op])
           | Task_Operation # rest \<Rightarrow>
               Some (0, (if \<not> one_thread s
                   then s\<lparr>wakeup_event := snd (maybe_unlock_and_signal_one (wakeup_event s))\<rparr> else s, th), script, trace)
           | [] \<Rightarrow> Some (0, (s, th), script, trace))
       in case sched_queue s0 of
            Task_Operation # rest \<Rightarrow>
              (case script of
                 [] \<Rightarrow> None
               | ready # script' \<Rightarrow>
                   finish (run_task (rest \<noteq> []) ready (s0\<lparr>sched_queue := rest\<rparr>, th)) script' (trace @ [Ran_Task ready]))
          | _ \<Rightarrow> finish (s0, th) script trace)"

text \<open>The counter of \<open>run\<close> and \<open>poll\<close> stays at the largest \<open>size_t\<close>.\<close>

definition count_up :: "u64 \<Rightarrow> u64" where
  "count_up n = (if n \<noteq> - 1 then n + 1 else n)"

text \<open>The loops of \<open>run\<close> and \<open>poll\<close>; \<open>fuel\<close> bounds the number of iterations.\<close>

type_synonym loop_result = "(u64 \<times> (scheduler \<times> thread_info) \<times> nat list list \<times> run_event list) option"

fun run_loop ::
  "(scheduler \<times> thread_info \<Rightarrow> nat list list \<Rightarrow> run_event list \<Rightarrow> run_result) \<Rightarrow> nat \<Rightarrow> u64 \<Rightarrow>
   scheduler \<times> thread_info \<Rightarrow> nat list list \<Rightarrow> run_event list \<Rightarrow> loop_result" where
  "run_loop one 0 n st script trace = None"
| "run_loop one (Suc fuel) n st script trace = (case one st script trace of
      None \<Rightarrow> None
    | Some (k, st', script', trace') \<Rightarrow>
        if k \<noteq> 0 then run_loop one fuel (count_up n) st' script' trace' else Some (n, st', script', trace'))"

definition run_with ::
  "(scheduler \<times> thread_info \<Rightarrow> nat list list \<Rightarrow> run_event list \<Rightarrow> run_result) \<Rightarrow> nat \<Rightarrow>
   scheduler \<Rightarrow> nat list list \<Rightarrow> loop_result" where
  "run_with one fuel s script =
     (if outstanding_work s = 0 then Some (0, (stop s, thread_info_new), script, [])
      else run_loop one fuel 0 (s, thread_info_new) script [])"

definition sched_run :: "handlers \<Rightarrow> nat \<Rightarrow> scheduler \<Rightarrow> nat list list \<Rightarrow> loop_result" where
  "sched_run handlers fuel s script = run_with (do_run_one handlers) fuel s script"

definition sched_poll :: "handlers \<Rightarrow> nat \<Rightarrow> scheduler \<Rightarrow> nat list list \<Rightarrow> loop_result" where
  "sched_poll handlers fuel s script = run_with (do_poll_one handlers) fuel s script"

definition one_with ::
  "(scheduler \<times> thread_info \<Rightarrow> nat list list \<Rightarrow> run_event list \<Rightarrow> run_result) \<Rightarrow>
   scheduler \<Rightarrow> nat list list \<Rightarrow> run_result" where
  "one_with one s script =
     (if outstanding_work s = 0 then Some (0, (stop s, thread_info_new), script, [])
      else one (s, thread_info_new) script [])"

definition run_one :: "handlers \<Rightarrow> scheduler \<Rightarrow> nat list list \<Rightarrow> run_result" where
  "run_one handlers s script = one_with (do_run_one handlers) s script"

definition wait_one :: "handlers \<Rightarrow> scheduler \<Rightarrow> nat list list \<Rightarrow> run_result" where
  "wait_one handlers s script = one_with (do_wait_one handlers) s script"

definition poll_one :: "handlers \<Rightarrow> scheduler \<Rightarrow> nat list list \<Rightarrow> run_result" where
  "poll_one handlers s script = one_with (do_poll_one handlers) s script"

section \<open>What posting changes\<close>

text \<open>The operations of a queue, without the position of the task.\<close>

fun ops_of :: "sched_op list \<Rightarrow> nat list" where
  "ops_of [] = []"
| "ops_of (Task_Operation # ops) = ops_of ops"
| "ops_of (Operation op # ops) = op # ops_of ops"

lemma ops_of_append [simp]: "ops_of (xs @ ys) = ops_of xs @ ops_of ys"
  by (induction xs rule: ops_of.induct) auto

lemma ops_of_map [simp]: "ops_of (map Operation xs) = xs"
  by (induction xs) auto

lemma wake_frame [simp]:
  "sched_queue (wake_one_thread_and_unlock s) = sched_queue s"
  "outstanding_work (wake_one_thread_and_unlock s) = outstanding_work s"
  "one_thread (wake_one_thread_and_unlock s) = one_thread s"
  "stopped (wake_one_thread_and_unlock s) = stopped s"
  by (simp_all add: wake_one_thread_and_unlock_def maybe_unlock_and_signal_one_def interrupt_task_def Let_def)

lemma stop_frame [simp]:
  "sched_queue (stop s) = sched_queue s" "outstanding_work (stop s) = outstanding_work s"
  "one_thread (stop s) = one_thread s" "stopped (stop s)"
  by (simp_all add: stop_def stop_all_threads_def interrupt_task_def)

lemma work_frame [simp]:
  "sched_queue (work_started s) = sched_queue s" "outstanding_work (work_started s) = outstanding_work s + 1"
  "one_thread (work_started s) = one_thread s" "stopped (work_started s) = stopped s"
  "sched_queue (work_finished s) = sched_queue s" "outstanding_work (work_finished s) = outstanding_work s - 1"
  "one_thread (work_finished s) = one_thread s"
  "stopped (work_finished s) \<longleftrightarrow> stopped s \<or> outstanding_work s = 1"
  by (simp_all add: work_started_def work_finished_def Let_def)

lemma push_frame [simp]:
  "sched_queue (push_shared ops s) = sched_queue s @ ops" "outstanding_work (push_shared ops s) = outstanding_work s"
  "one_thread (push_shared ops s) = one_thread s" "stopped (push_shared ops s) = stopped s"
  "private_op_queue (push_private ops th) = private_op_queue th @ ops"
  "private_outstanding_work (push_private ops th) = private_outstanding_work th"
  by (simp_all add: push_shared_def push_private_def)

lemmas posting_defs = post_immediate_completion_def post_immediate_completions_def
  post_deferred_completions_def do_dispatch_def compensating_work_started_def

text \<open>
  What a call adds to the shared queue, to the private queue, and to the work that is neither
  queued nor running: operations that wait in the reactor, and explicit work.
\<close>

fun shared_posts :: "bool \<Rightarrow> handler_call \<Rightarrow> nat list" where
  "shared_posts single (Post op cont) = (if single \<or> cont then [] else [op])"
| "shared_posts single (Post_Many ops cont) = (if single \<or> cont then [] else ops)"
| "shared_posts single (Deferred ops) = (if single then [] else ops)"
| "shared_posts single (Dispatch op) = [op]"
| "shared_posts single _ = []"

fun private_posts :: "bool \<Rightarrow> handler_call \<Rightarrow> nat list" where
  "private_posts single (Post op cont) = (if single \<or> cont then [op] else [])"
| "private_posts single (Post_Many ops cont) = (if single \<or> cont then ops else [])"
| "private_posts single (Deferred ops) = (if single then ops else [])"
| "private_posts single _ = []"

fun external_change :: "handler_call \<Rightarrow> int" where
  "external_change (Deferred ops) = - int (length ops)"
| "external_change Work_Started = 1"
| "external_change Work_Finished = -1"
| "external_change Compensate = 1"
| "external_change _ = 0"

text \<open>Work that is neither queued nor, if \<open>running\<close>, the operation that is being completed.\<close>

definition external_work :: "bool \<Rightarrow> scheduler \<times> thread_info \<Rightarrow> int" where
  "external_work running st = (case st of (s, th) \<Rightarrow>
     outstanding_work s + private_outstanding_work th -
     int (length (ops_of (sched_queue s)) + length (ops_of (private_op_queue th))) - (if running then 1 else 0))"

lemma perform_effect:
  assumes "perform c (s, th) = (s', th')"
  shows "ops_of (sched_queue s') = ops_of (sched_queue s) @ shared_posts (one_thread s) c"
    "ops_of (private_op_queue th') = ops_of (private_op_queue th) @ private_posts (one_thread s) c"
    "one_thread s' = one_thread s"
    "external_work running (s', th') = external_work running (s, th) + external_change c"
    "0 \<le> private_outstanding_work th \<Longrightarrow> 0 \<le> private_outstanding_work th'"
    "c \<noteq> Stop \<Longrightarrow> c \<noteq> Work_Finished \<Longrightarrow> stopped s' = stopped s"
  using assms by (cases c; auto simp: posting_defs external_work_def split: if_splits)+

lemma complete_effect:
  assumes "fold perform calls (s, th) = (s', th')"
  shows "ops_of (sched_queue s') = ops_of (sched_queue s) @ concat (map (shared_posts (one_thread s)) calls) \<and>
    ops_of (private_op_queue th') = ops_of (private_op_queue th) @ concat (map (private_posts (one_thread s)) calls) \<and>
    one_thread s' = one_thread s \<and>
    external_work running (s', th') = external_work running (s, th) + sum_list (map external_change calls) \<and>
    (0 \<le> private_outstanding_work th \<longrightarrow> 0 \<le> private_outstanding_work th') \<and>
    (Stop \<notin> set calls \<longrightarrow> Work_Finished \<notin> set calls \<longrightarrow> stopped s' = stopped s)"
  using assms
proof (induction calls arbitrary: s th)
  case (Cons c calls)
  obtain s1 th1 where step: "perform c (s, th) = (s1, th1)"
    by (cases "perform c (s, th)")
  from Cons.IH [of s1 th1] Cons.prems perform_effect [OF step] show ?case
    by (auto simp: step)
qed simp

section \<open>One operation\<close>

lemma work_cleanup_effect:
  assumes "work_cleanup (s, th) = (s', th')" "0 \<le> private_outstanding_work th"
  shows "th' = thread_info_new" "ops_of (sched_queue s') = ops_of (sched_queue s) @ ops_of (private_op_queue th)"
    "one_thread s' = one_thread s" "external_work False (s', th') = external_work True (s, th)"
    "stopped s' \<longleftrightarrow> stopped s \<or> private_outstanding_work th = 0 \<and> outstanding_work s = 1"
  using assms
  by (auto simp: work_cleanup_def Let_def thread_info_new_def external_work_def split: if_splits)

lemma task_cleanup_effect:
  assumes "task_cleanup (s, th) = (s', th')" "0 \<le> private_outstanding_work th"
  shows "th' = thread_info_new" "ops_of (sched_queue s') = ops_of (sched_queue s) @ ops_of (private_op_queue th)"
    "one_thread s' = one_thread s" "external_work False (s', th') = external_work False (s, th)"
    "stopped s' = stopped s"
  using assms
  by (auto simp: task_cleanup_def Let_def thread_info_new_def external_work_def split: if_splits)

text \<open>What arrives in the queue, and how external work changes, by an event of a run.\<close>

fun arrivals :: "handlers \<Rightarrow> bool \<Rightarrow> run_event \<Rightarrow> nat list" where
  "arrivals handlers single (Ran_Task ready) = ready"
| "arrivals handlers single (Completed op) =
     concat (map (shared_posts single) (handlers op)) @ concat (map (private_posts single) (handlers op))"

fun event_external :: "handlers \<Rightarrow> run_event \<Rightarrow> int" where
  "event_external handlers (Ran_Task ready) = - int (length ready)"
| "event_external handlers (Completed op) = sum_list (map external_change (handlers op))"

fun completed_ops :: "run_event list \<Rightarrow> nat list" where
  "completed_ops [] = []"
| "completed_ops (Ran_Task ready # evs) = completed_ops evs"
| "completed_ops (Completed op # evs) = op # completed_ops evs"

lemma completed_append [simp]: "completed_ops (xs @ ys) = completed_ops xs @ completed_ops ys"
  by (induction xs rule: completed_ops.induct) auto

definition polite :: "handlers \<Rightarrow> bool" where
  "polite handlers \<longleftrightarrow> (\<forall>op. Stop \<notin> set (handlers op) \<and> Work_Finished \<notin> set (handlers op))"

lemma thread_info_new_simps [simp]:
  "private_op_queue thread_info_new = []" "private_outstanding_work thread_info_new = 0"
  by (simp_all add: thread_info_new_def)

text \<open>
  The summary of a part of a run, from \<open>s\<close> to \<open>s'\<close> with the events \<open>evs\<close>. Operations are completed in
  the order in which they arrived; external work changes as the events say; and a scheduler that
  stops has no work left.
\<close>

definition run_summary :: "handlers \<Rightarrow> scheduler \<Rightarrow> run_event list \<Rightarrow> scheduler \<Rightarrow> bool" where
  "run_summary handlers s evs s' \<longleftrightarrow>
     completed_ops evs @ ops_of (sched_queue s') = ops_of (sched_queue s) @ concat (map (arrivals handlers (one_thread s)) evs) \<and>
     one_thread s' = one_thread s \<and>
     external_work False (s', thread_info_new) =
       external_work False (s, thread_info_new) + sum_list (map (event_external handlers) evs) \<and>
     (polite handlers \<longrightarrow> \<not> stopped s \<longrightarrow> stopped s' \<longrightarrow> outstanding_work s' = 0)"

lemma run_summary_refl: "run_summary handlers s [] s"
  by (simp add: run_summary_def)

lemma run_operation_summary:
  assumes "run_operation handlers op (s\<lparr>sched_queue := rest\<rparr>, thread_info_new) = (s', th')"
    "sched_queue s = Operation op # rest"
  shows "th' = thread_info_new \<and> run_summary handlers s [Completed op] s'"
proof -
  define s1 where "s1 = (if rest \<noteq> [] \<and> \<not> one_thread s then wake_one_thread_and_unlock (s\<lparr>sched_queue := rest\<rparr>)
    else s\<lparr>sched_queue := rest\<rparr>)"
  have s1: "sched_queue s1 = rest" "outstanding_work s1 = outstanding_work s" "one_thread s1 = one_thread s"
    "stopped s1 = stopped s"
    by (simp_all add: s1_def)
  obtain s2 th2 where c: "fold perform (handlers op) (s1, thread_info_new) = (s2, th2)"
    by fastforce
  have clean: "work_cleanup (s2, th2) = (s', th')"
    using assms(1) c by (simp add: run_operation_def complete_def s1_def Let_def)
  note e = complete_effect [OF c, of True] and w = work_cleanup_effect [OF clean]
  have "external_work True (s1, thread_info_new) = external_work False (s, thread_info_new)"
    using assms(2) s1 by (simp add: external_work_def)
  moreover have "outstanding_work s' = 0" if "polite handlers" "\<not> stopped s" "stopped s'"
  proof -
    have "private_outstanding_work th2 = 0" "outstanding_work s2 = 1"
      using that e w(5) s1 by (auto simp: polite_def)
    then show ?thesis
      using clean by (auto simp: work_cleanup_def Let_def)
  qed
  ultimately show ?thesis
    using assms(2) s1 e w by (simp add: run_summary_def)
qed

lemma run_task_summary:
  assumes "run_task b ready (s\<lparr>sched_queue := rest\<rparr>, thread_info_new) = (s', th')"
    "sched_queue s = Task_Operation # rest"
  shows "th' = thread_info_new \<and> run_summary handlers s [Ran_Task ready] s' \<and> stopped s' = stopped s"
proof -
  obtain s1 where clean: "task_cleanup (s1, push_private (map Operation ready) thread_info_new) = (s', th')"
    and s1: "sched_queue s1 = rest" "outstanding_work s1 = outstanding_work s" "one_thread s1 = one_thread s"
      "stopped s1 = stopped s"
    using assms(1) by (auto simp: run_task_def Let_def split: if_splits)
  from task_cleanup_effect [OF clean] s1 assms(2) show ?thesis
    by (simp add: run_summary_def external_work_def)
qed

lemma run_summary_trans:
  "run_summary handlers s evs s1 \<Longrightarrow> run_summary handlers s1 evs' s' \<Longrightarrow> stopped s1 = stopped s \<or> evs' = [] \<and> s' = s1 \<Longrightarrow>
   run_summary handlers s (evs @ evs') s'"
  by (auto simp: run_summary_def)

section \<open>Whole runs\<close>

lemma do_run_one_summary:
  assumes "do_run_one handlers (s, thread_info_new) script trace = Some (k, (s', th'), script', trace')"
  shows "th' = thread_info_new \<and> (\<exists>evs. trace' = trace @ evs \<and> run_summary handlers s evs s' \<and>
    (if k = 0 then stopped s' \<and> stopped s else k = 1 \<and> completed_ops evs \<noteq> []))"
  using assms
proof (induction script arbitrary: s trace)
  case Nil
  then show ?case
  proof (subst (asm) do_run_one.simps, cases "stopped s")
    case False
    then show ?thesis
      using Nil run_operation_summary [of handlers _ _ s]
      by (subst (asm) do_run_one.simps) (auto split: list.splits sched_op.splits)
  qed (auto simp: run_summary_refl)
next
  case (Cons ready script)
  show ?case
  proof (cases "stopped s")
    case True
    then show ?thesis
      using Cons.prems by (simp add: do_run_one.simps run_summary_refl)
  next
    case False
    then consider op rest where "sched_queue s = Operation op # rest" | rest where "sched_queue s = Task_Operation # rest"
      using Cons.prems by (subst (asm) do_run_one.simps) (auto split: list.splits sched_op.splits)
    then show ?thesis
    proof cases
      case 1
      then show ?thesis
        using Cons.prems False run_operation_summary [of handlers op rest s]
        by (subst (asm) do_run_one.simps) auto
    next
      case 2
      obtain s1 th1 where t: "run_task (rest \<noteq> []) ready (s\<lparr>sched_queue := rest\<rparr>, thread_info_new) = (s1, th1)"
        by fastforce
      note task = run_task_summary [OF t 2, of handlers]
      have "do_run_one handlers (s1, thread_info_new) script (trace @ [Ran_Task ready]) =
          Some (k, (s', th'), script', trace')"
        using Cons.prems False 2 t task by (subst (asm) do_run_one.simps) simp
      from Cons.IH [OF this] obtain evs where "th' = thread_info_new" and
        evs: "trace' = trace @ [Ran_Task ready] @ evs" "run_summary handlers s1 evs s'"
          "if k = 0 then stopped s' \<and> stopped s1 else k = 1 \<and> completed_ops evs \<noteq> []"
        by auto
      moreover have "run_summary handlers s ([Ran_Task ready] @ evs) s'"
        using task evs(2) by (intro run_summary_trans) auto
      ultimately show ?thesis
        using task by (auto intro!: exI [of _ "Ran_Task ready # evs"] split: if_splits)
    qed
  qed
qed

lemma run_loop_summary:
  assumes "run_loop (do_run_one handlers) fuel n (s, thread_info_new) script trace = Some (m, (s', th'), script', trace')"
    "\<not> stopped s"
  shows "th' = thread_info_new \<and> (\<exists>evs. trace' = trace @ evs \<and> run_summary handlers s evs s' \<and> stopped s')"
  using assms
proof (induction fuel arbitrary: n s script trace)
  case (Suc fuel)
  then obtain k s1 th1 script1 trace1 where
    one: "do_run_one handlers (s, thread_info_new) script trace = Some (k, (s1, th1), script1, trace1)"
    by (auto split: option.splits)
  from do_run_one_summary [OF this] obtain evs where evs: "th1 = thread_info_new" "trace1 = trace @ evs"
    "run_summary handlers s evs s1" "k \<noteq> 0"
    using Suc.prems(2) by (auto split: if_splits)
  have rest: "run_loop (do_run_one handlers) fuel (count_up n) (s1, thread_info_new) script1 trace1 =
      Some (m, (s', th'), script', trace')"
    using Suc.prems(1) one evs by simp
  show ?case
  proof (cases "stopped s1")
    case True
    have "fuel \<noteq> 0"
      using rest by (cases fuel) auto
    then have "s' = s1" "th' = thread_info_new" "trace' = trace1"
      using rest True by (cases fuel; simp add: do_run_one.simps)+
    then show ?thesis
      using evs True by auto
  next
    case False
    from Suc.IH [OF rest this] obtain evs' where "th' = thread_info_new" "trace' = trace1 @ evs'"
      "run_summary handlers s1 evs' s'" "stopped s'"
      by auto
    moreover have "run_summary handlers s (evs @ evs') s'"
      using evs(3) \<open>run_summary handlers s1 evs' s'\<close> False Suc.prems(2) by (intro run_summary_trans) auto
    ultimately show ?thesis
      using evs(2) by auto
  qed
qed simp

section \<open>Runs that come to an end\<close>

text \<open>
  A weight of operations that pays for what their handlers post: the operations that a handler posts weigh
  less, all together, than the one that it completes. Such handlers do not post for ever.
\<close>

definition paid_for :: "(nat \<Rightarrow> nat) \<Rightarrow> handlers \<Rightarrow> bool \<Rightarrow> bool" where
  "paid_for weight handlers single \<longleftrightarrow>
     (\<forall>op. sum_list (map weight (arrivals handlers single (Completed op))) < weight op)"

definition total_weight :: "(nat \<Rightarrow> nat) \<Rightarrow> scheduler \<Rightarrow> nat list list \<Rightarrow> nat" where
  "total_weight weight s script = sum_list (map weight (ops_of (sched_queue s))) + sum_list (map weight (concat script))"

text \<open>
  The states between two iterations of the loop of \<open>run\<close>, with the rest of the script and the trace.
\<close>

inductive run_reaches ::
  "handlers \<Rightarrow> scheduler \<Rightarrow> nat list list \<Rightarrow> scheduler \<Rightarrow> nat list list \<Rightarrow> run_event list \<Rightarrow> bool" for handlers s script where
  run_starts: "run_reaches handlers s script s script []"
| run_goes_on: "run_reaches handlers s script s1 script1 trace1 \<Longrightarrow>
    do_run_one handlers (s1, thread_info_new) script1 trace1 = Some (Suc 0, (s2, th), script2, trace2) \<Longrightarrow>
    run_reaches handlers s script s2 script2 trace2"

text \<open>An iteration runs the task some times, with the next results of the script, and completes an operation.\<close>

lemma do_run_one_events:
  assumes "do_run_one handlers (s, thread_info_new) script trace = Some (Suc 0, (s', th'), script', trace')"
  shows "\<exists>results op. script = results @ script' \<and> trace' = trace @ map Ran_Task results @ [Completed op]"
  using assms
proof (induction script arbitrary: s trace)
  case Nil
  then show ?case
    by (subst (asm) do_run_one.simps) (auto split: if_splits list.splits sched_op.splits)
next
  case (Cons ready script)
  show ?case
  proof (cases "\<exists>op rest. sched_queue s = Operation op # rest")
    case True
    then show ?thesis
      using Cons.prems by (subst (asm) do_run_one.simps) (auto split: if_splits intro!: exI [of _ "[]"])
  next
    case False
    then obtain rest where rest: "sched_queue s = Task_Operation # rest" "\<not> stopped s"
      using Cons.prems by (subst (asm) do_run_one.simps) (auto split: if_splits list.splits sched_op.splits)
    obtain s1 th1 where t: "run_task (rest \<noteq> []) ready (s\<lparr>sched_queue := rest\<rparr>, thread_info_new) = (s1, th1)"
      by fastforce
    have "do_run_one handlers (s1, thread_info_new) script (trace @ [Ran_Task ready]) = Some (Suc 0, (s', th'), script', trace')"
      using Cons.prems rest t run_task_summary [OF t rest(1)] by (subst (asm) do_run_one.simps) simp
    from Cons.IH [OF this] obtain results op where
      "script = results @ script'" "trace' = trace @ [Ran_Task ready] @ map Ran_Task results @ [Completed op]"
      by auto
    then show ?thesis
      by (intro exI [of _ "ready # results"] exI [of _ op]) simp
  qed
qed

lemma completed_tasks [simp]: "completed_ops (map Ran_Task results) = []"
  by (induction results) simp_all

lemma arrivals_tasks [simp]: "concat (map (arrivals handlers single \<circ> Ran_Task) results) = concat results"
  by (induction results) simp_all

lemma do_run_one_pays:
  assumes "paid_for weight handlers (one_thread s)"
    and "do_run_one handlers (s, thread_info_new) script trace = Some (Suc 0, (s', th'), script', trace')"
  shows "total_weight weight s' script' < total_weight weight s script" "th' = thread_info_new" "one_thread s' = one_thread s"
proof -
  obtain results op where ev: "script = results @ script'" "trace' = trace @ map Ran_Task results @ [Completed op]"
    using do_run_one_events [OF assms(2)] by blast
  have th: "th' = thread_info_new" and summary: "run_summary handlers s (map Ran_Task results @ [Completed op]) s'"
    using do_run_one_summary [OF assms(2)] ev(2) by auto
  then show "th' = thread_info_new" "one_thread s' = one_thread s"
    by (simp_all add: run_summary_def)
  have "op # ops_of (sched_queue s') =
      ops_of (sched_queue s) @ concat results @ arrivals handlers (one_thread s) (Completed op)"
    using summary by (simp add: run_summary_def del: arrivals.simps)
  from arg_cong [OF this, of "\<lambda>ops. sum_list (map weight ops)"]
  have "weight op + sum_list (map weight (ops_of (sched_queue s'))) =
      sum_list (map weight (ops_of (sched_queue s))) + sum_list (map weight (concat results)) +
      sum_list (map weight (arrivals handlers (one_thread s) (Completed op)))"
    by (simp del: arrivals.simps)
  moreover have "sum_list (map weight (arrivals handlers (one_thread s) (Completed op))) < weight op"
    using assms(1) by (simp add: paid_for_def del: arrivals.simps)
  ultimately show "total_weight weight s' script' < total_weight weight s script"
    using ev(1) by (simp add: total_weight_def del: arrivals.simps)
qed

lemma run_reaches_single: "run_reaches handlers s script s' script' trace \<Longrightarrow> one_thread s' = one_thread s"
proof (induction rule: run_reaches.induct)
  case (run_goes_on s1 script1 trace1 s2 th script2 trace2)
  then show ?case
    using do_run_one_summary [OF run_goes_on.hyps(2)] by (auto simp: run_summary_def)
qed simp

text \<open>With enough fuel a run that does not return is blocked in \<open>do_run_one\<close>.\<close>

lemma run_loop_blocked:
  assumes "paid_for weight handlers (one_thread s0)"
  shows "run_reaches handlers s0 script0 s script trace \<Longrightarrow> total_weight weight s script < fuel \<Longrightarrow>
    run_loop (do_run_one handlers) fuel n (s, thread_info_new) script trace = None \<Longrightarrow>
    \<exists>s' script' trace'. run_reaches handlers s0 script0 s' script' trace' \<and>
      do_run_one handlers (s', thread_info_new) script' trace' = None"
proof (induction fuel arbitrary: n s script trace)
  case (Suc fuel)
  show ?case
  proof (cases "do_run_one handlers (s, thread_info_new) script trace")
    case None
    then show ?thesis
      using Suc.prems(1) by blast
  next
    case (Some r)
    obtain k s1 th1 script1 trace1 where r: "r = (k, (s1, th1), script1, trace1)"
      by (metis prod.exhaust)
    with Some Suc.prems(3) do_run_one_summary [of handlers s script trace k s1 th1 script1 trace1]
    have one: "do_run_one handlers (s, thread_info_new) script trace = Some (Suc 0, (s1, th1), script1, trace1)"
      by (auto split: if_splits)
    have "paid_for weight handlers (one_thread s)"
      using assms run_reaches_single [OF Suc.prems(1)] by simp
    note pays = do_run_one_pays [OF this one]
    show ?thesis
      using Suc.IH [of s1 script1 trace1 "count_up n"] Suc.prems one pays run_goes_on [OF Suc.prems(1) one] by simp
  qed
qed simp

text \<open>While a scheduler with polite handlers is not stopped, there is outstanding work.\<close>

lemma perform_work:
  assumes "c \<noteq> Stop" "c \<noteq> Work_Finished" "perform c (s, th) = (s', th')"
  shows "outstanding_work s \<le> outstanding_work s'"
  using assms by (cases c) (auto simp: posting_defs split: if_splits)

lemma complete_work:
  assumes "Stop \<notin> set calls" "Work_Finished \<notin> set calls" "fold perform calls (s, th) = (s', th')"
  shows "outstanding_work s \<le> outstanding_work s'"
  using assms
proof (induction calls arbitrary: s th)
  case (Cons c calls)
  obtain s1 th1 where step: "perform c (s, th) = (s1, th1)"
    by (cases "perform c (s, th)")
  then show ?case
    using Cons.IH [of s1 th1] Cons.prems perform_work [OF _ _ step] by (auto intro: order_trans)
qed simp

lemma run_operation_work:
  assumes "polite handlers" "0 < outstanding_work s" "run_operation handlers op (s, thread_info_new) = (s', th')"
  shows "stopped s' \<or> 0 < outstanding_work s'"
proof -
  define s1 where "s1 = (if sched_queue s \<noteq> [] \<and> \<not> one_thread s then wake_one_thread_and_unlock s else s)"
  have s1: "outstanding_work s1 = outstanding_work s"
    by (simp add: s1_def)
  obtain s2 th2 where c: "fold perform (handlers op) (s1, thread_info_new) = (s2, th2)"
    by fastforce
  have "work_cleanup (s2, th2) = (s', th')"
    using assms(3) c by (simp add: run_operation_def complete_def s1_def Let_def)
  moreover have "0 < outstanding_work s2"
    using complete_work [OF _ _ c] assms(1,2) s1 by (auto simp: polite_def)
  ultimately show ?thesis
    by (auto simp: work_cleanup_def Let_def split: if_splits)
qed

lemma run_task_work:
  assumes "0 < outstanding_work s" "run_task b ready (s, thread_info_new) = (s', th')"
  shows "0 < outstanding_work s'"
  using assms by (auto simp: run_task_def task_cleanup_def push_private_def Let_def split: if_splits)

lemma do_run_one_operation:
  "sched_queue s = Operation op # rest \<Longrightarrow> \<not> stopped s \<Longrightarrow>
   do_run_one handlers (s, th) script trace =
     Some (1, run_operation handlers op (s\<lparr>sched_queue := rest\<rparr>, th), script, trace @ [Completed op])"
  by (simp add: do_run_one.simps)

lemma do_run_one_stopped: "stopped s \<Longrightarrow> do_run_one handlers (s, th) script trace = Some (0, (s, th), script, trace)"
  by (simp add: do_run_one.simps)

lemma do_run_one_work:
  assumes "polite handlers" "0 < outstanding_work s"
    "do_run_one handlers (s, thread_info_new) script trace = Some (Suc 0, (s', th'), script', trace')"
  shows "stopped s' \<or> 0 < outstanding_work s'"
  using assms(2,3)
proof (induction script arbitrary: s trace)
  case Nil
  then obtain op rest where "sched_queue s = Operation op # rest" "\<not> stopped s"
    by (subst (asm) do_run_one.simps) (auto split: if_splits list.splits sched_op.splits)
  then show ?case
    using Nil run_operation_work [OF assms(1), of "s\<lparr>sched_queue := rest\<rparr>" op s' th'] by (simp add: do_run_one_operation)
next
  case (Cons ready script)
  have running: "\<not> stopped s"
    using Cons.prems(2) by (auto simp: do_run_one_stopped)
  show ?case
  proof (cases "\<exists>op rest. sched_queue s = Operation op # rest")
    case True
    then obtain op rest where "sched_queue s = Operation op # rest"
      by blast
    then show ?thesis
      using Cons.prems running run_operation_work [OF assms(1), of "s\<lparr>sched_queue := rest\<rparr>" op s' th']
      by (simp add: do_run_one_operation)
  next
    case False
    then obtain rest where rest: "sched_queue s = Task_Operation # rest"
      using Cons.prems by (subst (asm) do_run_one.simps) (auto split: if_splits list.splits sched_op.splits)
    obtain s1 th1 where t: "run_task (rest \<noteq> []) ready (s\<lparr>sched_queue := rest\<rparr>, thread_info_new) = (s1, th1)"
      by fastforce
    have "do_run_one handlers (s1, thread_info_new) script (trace @ [Ran_Task ready]) = Some (Suc 0, (s', th'), script', trace')"
      using Cons.prems rest running t run_task_summary [OF t rest] by (subst (asm) do_run_one.simps) simp
    then show ?thesis
      using Cons.IH [of s1] run_task_work [OF _ t] Cons.prems(1) by simp
  qed
qed

lemma run_reaches_work:
  assumes "polite handlers" "0 < outstanding_work s"
  shows "run_reaches handlers s script s' script' trace \<Longrightarrow> stopped s' \<or> 0 < outstanding_work s'"
proof (induction rule: run_reaches.induct)
  case (run_goes_on s1 script1 trace1 s2 th script2 trace2)
  then show ?case
    using do_run_one_work [OF assms(1), of s1 script1 trace1 s2 th script2 trace2] by (auto simp: do_run_one_stopped)
qed (use assms(2) in simp)

lemma run_reaches_summary:
  assumes "\<not> stopped s"
  shows "run_reaches handlers s script s' script' trace \<Longrightarrow> run_summary handlers s trace s'"
proof (induction rule: run_reaches.induct)
  case (run_goes_on s1 script1 trace1 s2 th script2 trace2)
  then obtain evs where "trace2 = trace1 @ evs" "run_summary handlers s1 evs s2"
    using do_run_one_summary [OF run_goes_on.hyps(2)] by auto
  moreover have "\<not> stopped s1"
    using run_goes_on.hyps(2) by (auto simp: do_run_one_stopped)
  ultimately show ?case
    using run_goes_on.IH assms run_summary_trans [of handlers s trace1 s1 evs s2] by simp
qed (simp add: run_summary_refl)

text \<open>Handlers post operations only, so that without the task there is none later.\<close>

lemma perform_no_task:
  assumes "perform c (s, th) = (s', th')"
    "Task_Operation \<notin> set (sched_queue s)" "Task_Operation \<notin> set (private_op_queue th)"
  shows "Task_Operation \<notin> set (sched_queue s') \<and> Task_Operation \<notin> set (private_op_queue th')"
  using assms by (cases c; auto simp: posting_defs split: if_splits)+

lemma complete_no_task:
  assumes "fold perform calls (s, th) = (s', th')"
    "Task_Operation \<notin> set (sched_queue s)" "Task_Operation \<notin> set (private_op_queue th)"
  shows "Task_Operation \<notin> set (sched_queue s') \<and> Task_Operation \<notin> set (private_op_queue th')"
  using assms
proof (induction calls arbitrary: s th)
  case (Cons c calls)
  obtain s1 th1 where step: "perform c (s, th) = (s1, th1)"
    by (cases "perform c (s, th)")
  from Cons.IH [of s1 th1] Cons.prems perform_no_task [OF step] show ?case
    by (auto simp: step)
qed simp

lemma run_operation_no_task:
  assumes "run_operation handlers op (s, thread_info_new) = (s', th')" "Task_Operation \<notin> set (sched_queue s)"
  shows "Task_Operation \<notin> set (sched_queue s')"
proof -
  define s1 where "s1 = (if sched_queue s \<noteq> [] \<and> \<not> one_thread s then wake_one_thread_and_unlock s else s)"
  obtain s2 th2 where c: "fold perform (handlers op) (s1, thread_info_new) = (s2, th2)"
    by fastforce
  have "work_cleanup (s2, th2) = (s', th')"
    using assms(1) c by (simp add: run_operation_def complete_def s1_def Let_def)
  moreover have "Task_Operation \<notin> set (sched_queue s2) \<and> Task_Operation \<notin> set (private_op_queue th2)"
    using complete_no_task [OF c] assms(2) by (simp add: s1_def)
  ultimately show ?thesis
    by (auto simp: work_cleanup_def Let_def split: if_splits)
qed

lemma run_reaches_no_task:
  assumes "Task_Operation \<notin> set (sched_queue s)"
  shows "run_reaches handlers s script s' script' trace \<Longrightarrow>
    Task_Operation \<notin> set (sched_queue s') \<and> (\<exists>ops. trace = map Completed ops)"
proof (induction rule: run_reaches.induct)
  case (run_goes_on s1 script1 trace1 s2 th script2 trace2)
  have running: "\<not> stopped s1"
    using run_goes_on.hyps(2) by (auto simp: do_run_one_stopped)
  then obtain op rest where queue: "sched_queue s1 = Operation op # rest"
    using run_goes_on by (cases "sched_queue s1" rule: ops_of.cases) (auto simp: do_run_one.simps)
  then have run: "run_operation handlers op (s1\<lparr>sched_queue := rest\<rparr>, thread_info_new) = (s2, th)" "trace2 = trace1 @ [Completed op]"
    using run_goes_on.hyps(2) running by (simp_all add: do_run_one_operation)
  obtain ops where "trace1 = map Completed ops"
    using run_goes_on.IH by blast
  then have "trace2 = map Completed (ops @ [op])"
    using run(2) by simp
  moreover have "Task_Operation \<notin> set (sched_queue s2)"
    using run_operation_no_task [OF run(1)] run_goes_on.IH queue by simp
  ultimately show ?case
    by blast
qed (use assms in simp_all)

text \<open>
  Without the task, and if neither the scheduler at the start nor a handler leaves work outside of the queue,
  the run is never blocked.
\<close>

lemma run_never_blocked:
  assumes "polite handlers" "\<not> stopped s" "0 < outstanding_work s" "\<And>op. sum_list (map external_change (handlers op)) = 0"
    "Task_Operation \<notin> set (sched_queue s)" "outstanding_work s = int (length (ops_of (sched_queue s)))"
    and reach: "run_reaches handlers s script s' script' trace"
  shows "do_run_one handlers (s', thread_info_new) script' trace \<noteq> None"
proof
  assume blocked: "do_run_one handlers (s', thread_info_new) script' trace = None"
  then have "\<not> stopped s'"
    by (auto simp: do_run_one_stopped)
  then have work: "0 < outstanding_work s'"
    using run_reaches_work [OF assms(1,3) reach] by simp
  obtain ops where ops: "Task_Operation \<notin> set (sched_queue s')" "trace = map Completed ops"
    using run_reaches_no_task [OF assms(5) reach] by blast
  then have "sched_queue s' = []"
    using blocked \<open>\<not> stopped s'\<close> by (cases "sched_queue s'" rule: ops_of.cases) (auto simp: do_run_one.simps)
  moreover have "sum_list (map (event_external handlers) trace) = 0"
    using ops(2) assms(4) by (induction ops arbitrary: trace) auto
  ultimately show False
    using run_reaches_summary [OF assms(2) reach] assms(6) work by (simp add: run_summary_def external_work_def)
qed

text \<open>Handlers that make no calls: the run ends when the last queued operation has been completed.\<close>

lemma run_operation_quiet:
  assumes "handlers op = []"
  shows "\<exists>s'. run_operation handlers op (s, thread_info_new) = (s', thread_info_new) \<and>
    sched_queue s' = sched_queue s \<and> outstanding_work s' = outstanding_work s - 1 \<and>
    (stopped s' \<longleftrightarrow> stopped s \<or> outstanding_work s = 1)"
  using assms by (auto simp: run_operation_def complete_def work_cleanup_def Let_def thread_info_new_def)

lemma run_loop_drains:
  assumes "sched_queue s = map Operation ops" "outstanding_work s = int (length ops)" "\<not> stopped s \<or> ops = []"
    "ops = [] \<longrightarrow> stopped s" "\<forall>op \<in> set ops. handlers op = []" "length ops < fuel"
    "unat n + length ops < 2 ^ 64"
  shows "\<exists>s'. run_loop (do_run_one handlers) fuel n (s, thread_info_new) script trace =
      Some (n + word_of_nat (length ops), (s', thread_info_new), script, trace @ map Completed ops) \<and>
    stopped s' \<and> sched_queue s' = []"
  using assms
proof (induction ops arbitrary: s fuel n trace)
  case Nil
  then show ?case
    by (cases fuel) (auto simp: do_run_one.simps)
next
  case (Cons op ops)
  obtain fuel' where fuel: "fuel = Suc fuel'"
    using Cons.prems(6) by (cases fuel) auto
  obtain s1 where s1: "run_operation handlers op (s\<lparr>sched_queue := map Operation ops\<rparr>, thread_info_new) = (s1, thread_info_new)"
    "sched_queue s1 = map Operation ops" "outstanding_work s1 = int (length ops)" "stopped s1 \<longleftrightarrow> ops = []"
    using run_operation_quiet [of handlers op "s\<lparr>sched_queue := map Operation ops\<rparr>"] Cons.prems by auto
  have n: "n \<noteq> - 1" "unat (n + 1) = unat n + 1"
  proof -
    have bound: "unat n + 1 < 18446744073709551616"
      using Cons.prems(7) by simp
    then show "unat (n + 1) = unat n + 1"
      by (simp add: unat_word_ariths)
    then show "n \<noteq> - 1"
      by auto
  qed
  have one: "do_run_one handlers (s, thread_info_new) script trace = Some (1, (s1, thread_info_new), script, trace @ [Completed op])"
    using Cons.prems(1,3) s1(1) by (simp add: do_run_one.simps)
  have "\<exists>s'. run_loop (do_run_one handlers) fuel' (n + 1) (s1, thread_info_new) script (trace @ [Completed op]) =
      Some (n + 1 + word_of_nat (length ops), (s', thread_info_new), script, (trace @ [Completed op]) @ map Completed ops) \<and>
    stopped s' \<and> sched_queue s' = []"
    using Cons.prems(5-7) s1 n by (intro Cons.IH) (auto simp: fuel)
  then show ?case
    using n by (simp add: fuel one count_up_def add.assoc)
qed

section \<open>Properties\<close>

text \<open>
  C23. \<open>scheduler::run\<close>, whatever the handlers post and the reactor delivers. When it returns, the
  scheduler is stopped; operations have been completed in the order in which they arrived in the
  queue, every one once, and those not completed are still queued in that order; the count of
  outstanding work accounts for exactly the queued operations and the work outside of the queue;
  and when no handler stops the scheduler or ends explicit work, and the work outside of the queue is not
  negative (nobody ends work that was never started), \<open>run\<close> returns only when nothing is queued and no work is
  left. If the handlers do not post for ever (a weight of the operations pays for what they post), fuel
  of more than the weight of all operations is enough: a run that does not return then is
  blocked, in a state that it reaches, in the wait for the reactor or for other threads, and, if the
  handlers are as above, only while there is outstanding work. And it does return if there is no reactor
  and no work but the queued operations.
\<close>

theorem scheduler_run_correct:
  assumes "\<not> stopped s" "outstanding_work s \<noteq> 0"
  shows "(case sched_run handlers fuel s script of
      Some (n, (s', th'), script', trace) \<Rightarrow> stopped s' \<and>
        completed_ops trace @ ops_of (sched_queue s') =
          ops_of (sched_queue s) @ concat (map (arrivals handlers (one_thread s)) trace) \<and>
        outstanding_work s' - int (length (ops_of (sched_queue s'))) =
          outstanding_work s - int (length (ops_of (sched_queue s))) + sum_list (map (event_external handlers) trace) \<and>
        (polite handlers \<longrightarrow>
         0 \<le> outstanding_work s - int (length (ops_of (sched_queue s))) + sum_list (map (event_external handlers) trace) \<longrightarrow>
           ops_of (sched_queue s') = [] \<and> outstanding_work s' = 0)
    | None \<Rightarrow> paid_for weight handlers (one_thread s) \<and> total_weight weight s script < fuel \<longrightarrow>
        (\<exists>s' script' trace. run_reaches handlers s script s' script' trace \<and>
           do_run_one handlers (s', thread_info_new) script' trace = None \<and>
           (polite handlers \<and> 0 < outstanding_work s \<longrightarrow> 0 < outstanding_work s'))) \<and>
    (paid_for weight handlers (one_thread s) \<and> total_weight weight s script < fuel \<and> polite handlers \<and>
     (\<forall>op. sum_list (map external_change (handlers op)) = 0) \<and>
     Task_Operation \<notin> set (sched_queue s) \<and> outstanding_work s = int (length (ops_of (sched_queue s))) \<longrightarrow>
       sched_run handlers fuel s script \<noteq> None)"
proof -
  have loop: "sched_run handlers fuel s script = run_loop (do_run_one handlers) fuel 0 (s, thread_info_new) script []"
    using assms by (simp add: sched_run_def run_with_def)
  have blocked: "\<exists>s' script' trace. run_reaches handlers s script s' script' trace \<and>
      do_run_one handlers (s', thread_info_new) script' trace = None"
    if "sched_run handlers fuel s script = None" "paid_for weight handlers (one_thread s)" "total_weight weight s script < fuel"
    using run_loop_blocked [OF that(2) run_starts that(3)] that(1) by (simp add: loop)
  have work: "0 < outstanding_work s'"
    if "run_reaches handlers s script s' script' trace" "do_run_one handlers (s', thread_info_new) script' trace = None"
      "polite handlers" "0 < outstanding_work s" for s' script' trace
    using run_reaches_work [OF that(3,4,1)] that(2) by (auto simp: do_run_one_stopped)
  have returned: "stopped s'" "run_summary handlers s trace s'"
    if "sched_run handlers fuel s script = Some (n, (s', th'), script', trace)" for n s' th' script' trace
    using run_loop_summary [OF _ assms(1), of handlers fuel 0 script "[]" n s' th' script' trace] that by (auto simp: loop)
  have returns: "sched_run handlers fuel s script \<noteq> None"
    if "paid_for weight handlers (one_thread s)" "total_weight weight s script < fuel" "polite handlers"
      "\<forall>op. sum_list (map external_change (handlers op)) = 0"
      "Task_Operation \<notin> set (sched_queue s)" "outstanding_work s = int (length (ops_of (sched_queue s)))"
    using blocked [OF _ that(1,2)] run_never_blocked [OF that(3) assms(1)] that(4-6) assms(2) by fastforce
  have finished: "ops_of (sched_queue s') = [] \<and> outstanding_work s' = 0"
    if "run_summary handlers s trace s'" "stopped s'" "polite handlers"
      "0 \<le> outstanding_work s - int (length (ops_of (sched_queue s))) + sum_list (map (event_external handlers) trace)" for s' trace
  proof -
    have "outstanding_work s' = 0" "outstanding_work s' - int (length (ops_of (sched_queue s'))) =
        outstanding_work s - int (length (ops_of (sched_queue s))) + sum_list (map (event_external handlers) trace)"
      using that assms(1) by (simp_all add: run_summary_def external_work_def)
    moreover from this that(4) have "length (ops_of (sched_queue s')) = 0"
      by linarith
    ultimately show ?thesis
      by simp
  qed
  show ?thesis
  proof (cases "sched_run handlers fuel s script")
    case None
    then show ?thesis
      using blocked [OF None] work returns by (simp only: option.case) blast
  next
    case (Some r)
    obtain n s' th' script' trace where r: "r = (n, (s', th'), script', trace)"
      by (metis prod.exhaust)
    note end_state = returned [OF Some [unfolded r]]
    have "completed_ops trace @ ops_of (sched_queue s') =
        ops_of (sched_queue s) @ concat (map (arrivals handlers (one_thread s)) trace)"
      "outstanding_work s' - int (length (ops_of (sched_queue s'))) =
        outstanding_work s - int (length (ops_of (sched_queue s))) + sum_list (map (event_external handlers) trace)"
      using end_state(2) by (simp_all add: run_summary_def external_work_def)
    then show ?thesis
      unfolding Some r option.case prod.case using end_state(1) finished [OF end_state(2,1)] by blast
  qed
qed

text \<open>
  C24. \<open>scheduler::run\<close> ends: for any queue of operations whose handlers make no further calls, with
  one unit of work per operation, it completes all of them in order, returns their number, and
  leaves the scheduler stopped with an empty queue.
\<close>

theorem scheduler_run_terminates:
  assumes "sched_queue s = map Operation ops" "outstanding_work s = int (length ops)" "\<not> stopped s" "ops \<noteq> []"
    "\<forall>op \<in> set ops. handlers op = []" "length ops < fuel" "length ops < 2 ^ 64"
  shows "\<exists>s'. sched_run handlers fuel s script =
      Some (word_of_nat (length ops), (s', thread_info_new), script, map Completed ops) \<and>
    stopped s' \<and> sched_queue s' = []"
  using assms run_loop_drains [of s ops handlers fuel 0 script "[]"]
  by (simp add: sched_run_def run_with_def)

text \<open>A scheduler with two posted operations; the first posts a third one from its handler.\<close>

definition demo_handlers :: handlers where
  "demo_handlers op = (if op = 1 then [Post 3 False] else [])"

definition demo_scheduler :: scheduler where
  "demo_scheduler = fst (fold perform [Post 1 False, Post 2 False] (scheduler_new False, thread_info_new))"

theorem scheduler_run_correct_witness:
  "case sched_run demo_handlers 5 demo_scheduler [] of
     Some (n, (s', th'), script', trace) \<Rightarrow> completed_ops trace = [1, 2, 3] \<and> ops_of (sched_queue s') = []
   | None \<Rightarrow> False"
proof -
  have trace: "map_option (\<lambda>(n, st, rest, trace). trace) (sched_run demo_handlers 5 demo_scheduler []) =
      Some [Completed 1, Completed 2, Completed 3]"
    by code_simp
  have start: "\<not> stopped demo_scheduler \<and> outstanding_work demo_scheduler = 2 \<and>
      sched_queue demo_scheduler = [Operation 1, Operation 2] \<and> \<not> one_thread demo_scheduler"
    by code_simp
  have pays: "paid_for (\<lambda>op. if op = 1 then 2 else 1) demo_handlers False" "polite demo_handlers"
    "sum_list (map external_change (demo_handlers op)) = 0" for op
    by (auto simp: paid_for_def polite_def demo_handlers_def)
  obtain n s' th' script' where
    run: "sched_run demo_handlers 5 demo_scheduler [] = Some (n, (s', th'), script', [Completed 1, Completed 2, Completed 3])"
    using trace by auto
  from scheduler_run_correct [where s = demo_scheduler and handlers = demo_handlers and fuel = 5 and script = "[]"
      and weight = "\<lambda>op. if op = 1 then 2 else 1"] start pays show ?thesis
    by (simp add: run demo_handlers_def)
qed

theorem scheduler_run_terminates_witness:
  "\<exists>s'. sched_run (\<lambda>_. []) 3 demo_scheduler [] =
      Some (2, (s', thread_info_new), [], [Completed 1, Completed 2]) \<and> stopped s'"
proof -
  have "sched_queue demo_scheduler = map Operation [1, 2] \<and> outstanding_work demo_scheduler = 2 \<and> \<not> stopped demo_scheduler"
    by code_simp
  then show ?thesis
    using scheduler_run_terminates [of demo_scheduler "[1, 2]" "\<lambda>_. []" 3 "[]"] by auto
qed

text \<open>
  The three ways to run one operation differ only in what they do when there is none: with a
  stopped scheduler or an operation at the front of the queue \<open>run_one\<close>, \<open>wait_one\<close> and \<open>poll_one\<close>
  do the same; with an empty queue \<open>poll_one\<close> and \<open>wait_one\<close> return 0 and leave the queue, the count
  of work and the trace as they are, while \<open>run_one\<close> blocks.
\<close>

lemma run_one_variants:
  "(stopped s \<or> (\<exists>op rest. sched_queue s = Operation op # rest) \<longrightarrow>
      wait_one handlers s script = run_one handlers s script \<and>
      poll_one handlers s script = run_one handlers s script) \<and>
   (\<not> stopped s \<and> outstanding_work s \<noteq> 0 \<and> sched_queue s = [] \<longrightarrow>
      run_one handlers s script = None \<and>
      poll_one handlers s script = Some (0, (s, thread_info_new), script, []) \<and>
      (\<exists>s'. wait_one handlers s script = Some (0, (s', thread_info_new), script, []) \<and>
         sched_queue s' = [] \<and> outstanding_work s' = outstanding_work s \<and> \<not> stopped s' \<and>
         even (ev_state (wakeup_event s'))))"
  by (auto simp: wait_one_def poll_one_def run_one_def one_with_def do_wait_one_def do_poll_one_def
      do_run_one.simps Let_def event_wait_for_usec_def event_clear_def)

lemma run_one_variants_example:
  "wait_one demo_handlers demo_scheduler [] = run_one demo_handlers demo_scheduler [] \<and>
   poll_one demo_handlers demo_scheduler [] = run_one demo_handlers demo_scheduler []"
proof -
  have "sched_queue demo_scheduler = Operation 1 # [Operation 2]"
    by code_simp
  then show ?thesis
    using run_one_variants [of demo_scheduler demo_handlers "[]"] by blast
qed

end
