(* ===== verification/Asio_Reactor.thy ===== *)
theory Asio_Reactor
  imports Asio_Error Asio_Scheduler
begin

unbundle bit_operations_syntax

text \<open>
  Model of the descriptor operations of \<open>asio/detail/epoll_reactor.hpp\<close> and
  \<open>impl/epoll_reactor.ipp\<close>, the task of the scheduler on Linux: how an asynchronous receive, send,
  accept or connect is started, performed when its descriptor becomes ready, and cancelled. The
  queues are lists (see \<open>Asio_Op_Queue\<close>) and the calls on the scheduler are those of
  \<open>Asio_Scheduler\<close>. What the code does not define here is a parameter: the function \<open>perform\<close> of an
  operation (its \<open>perform_func_\<close>) and \<open>epoll_ctl\<close>, both over the state of the world. The timers
  of the reactor are in \<open>Asio_Deadline_Timer\<close>.
\<close>

section \<open>State\<close>

datatype op_type = Read_Op | Write_Op | Except_Op

datatype status = Not_Done | Done | Done_And_Exhausted

text \<open>An operation; \<open>op_id\<close> is its address.\<close>

record reactor_op =
  op_id :: nat
  op_ec :: error_code
  cancellation_key :: nat
  op_bytes :: nat

record descriptor_state =
  ds_descriptor :: int
  registered_events :: "32 word"
  ds_queue :: "op_type \<Rightarrow> reactor_op list"
  try_speculative :: "op_type \<Rightarrow> bool"
  ds_shutdown :: bool

definition epoll_in :: "32 word" where "epoll_in = 1"
definition epoll_pri :: "32 word" where "epoll_pri = 2"
definition epoll_out :: "32 word" where "epoll_out = 4"
definition epoll_err :: "32 word" where "epoll_err = 8"
definition epoll_hup :: "32 word" where "epoll_hup = 16"
definition epoll_et :: "32 word" where "epoll_et = 2 ^ 31"

datatype ctl_command = EPOLL_CTL_ADD | EPOLL_CTL_MOD | EPOLL_CTL_DEL

text \<open>
  \<open>perform\<close> yields its status and what it leaves in \<open>ec_\<close> and \<open>bytes_transferred_\<close>; \<open>epoll_ctl\<close>
  yields its result and \<open>errno\<close>.
\<close>

type_synonym 'w perform_func = "reactor_op \<Rightarrow> 'w \<Rightarrow> status \<times> error_code \<times> nat \<times> 'w"
type_synonym 'w epoll_ctl_func = "ctl_command \<Rightarrow> int \<Rightarrow> 32 word \<Rightarrow> 'w \<Rightarrow> (int \<times> int) \<times> 'w"

definition set_ec :: "error_code \<Rightarrow> reactor_op \<Rightarrow> reactor_op" where
  "set_ec ec op = op\<lparr>op_ec := ec\<rparr>"

definition perform_op :: "'w perform_func \<Rightarrow> reactor_op \<Rightarrow> 'w \<Rightarrow> status \<times> reactor_op \<times> 'w" where
  "perform_op pf op w = (case pf op w of (status, ec, bytes, w') \<Rightarrow>
     (status, op\<lparr>op_ec := ec, op_bytes := bytes\<rparr>, w'))"

section \<open>Registration\<close>

text \<open>A new descriptor state comes from the pool, with empty queues.\<close>

definition new_descriptor_state :: "int \<Rightarrow> descriptor_state" where
  "new_descriptor_state descriptor = \<lparr>ds_descriptor = descriptor, registered_events = 0,
     ds_queue = (\<lambda>_. []), try_speculative = (\<lambda>_. True), ds_shutdown = False\<rparr>"

definition register_descriptor ::
  "'w epoll_ctl_func \<Rightarrow> int \<Rightarrow> 'w \<Rightarrow> int \<times> descriptor_state \<times> 'w" where
  "register_descriptor ctl descriptor w =
     (let events = epoll_in OR epoll_err OR epoll_hup OR epoll_pri OR epoll_et;
          dd = (new_descriptor_state descriptor)\<lparr>registered_events := events\<rparr>;
          ((result, errno), w') = ctl EPOLL_CTL_ADD descriptor events w
      in if result \<noteq> 0 then
           if errno = basic_value no_permission then (0, dd\<lparr>registered_events := 0\<rparr>, w') else (errno, dd, w')
         else (0, dd, w'))"

definition register_internal_descriptor ::
  "'w epoll_ctl_func \<Rightarrow> op_type \<Rightarrow> int \<Rightarrow> reactor_op \<Rightarrow> 'w \<Rightarrow> int \<times> descriptor_state \<times> 'w" where
  "register_internal_descriptor ctl t descriptor op w =
     (let events = epoll_in OR epoll_err OR epoll_hup OR epoll_pri OR epoll_et;
          dd = (new_descriptor_state descriptor)\<lparr>ds_queue := (\<lambda>_. [])(t := [op]), registered_events := events\<rparr>;
          ((result, errno), w') = ctl EPOLL_CTL_ADD descriptor events w
      in (if result \<noteq> 0 then errno else 0, dd, w'))"

definition move_descriptor ::
  "descriptor_state option \<Rightarrow> descriptor_state option \<Rightarrow> descriptor_state option \<times> descriptor_state option" where
  "move_descriptor target source = (source, None)"

section \<open>Starting an operation\<close>

text \<open>
  \<open>start_op\<close> with \<open>on_immediate\<close> the default, which posts the operation for immediate completion. The
  results are the descriptor data, the operation if it was posted, the calls on the scheduler and
  the world. \<open>descriptor_data\<close> is \<open>None\<close> for a null pointer.
\<close>

definition start_op ::
  "'w epoll_ctl_func \<Rightarrow> 'w perform_func \<Rightarrow> op_type \<Rightarrow> int \<Rightarrow> descriptor_state option \<Rightarrow> reactor_op \<Rightarrow> bool \<Rightarrow> bool \<Rightarrow>
   'w \<Rightarrow> descriptor_state option \<times> reactor_op option \<times> handler_call list \<times> 'w" where
  "start_op ctl pf t descriptor descriptor_data op is_continuation allow_speculative w =
     (let on_immediate = (\<lambda>dd op w. (dd, Some op, [Post (op_id op) is_continuation], w));
          enqueue = (\<lambda>dd op w. (Some (dd\<lparr>ds_queue := (ds_queue dd)(t := ds_queue dd t @ [op])\<rparr>), None, [Work_Started], w))
      in case descriptor_data of
           None \<Rightarrow> on_immediate None (set_ec (basic_ec bad_descriptor) op) w
         | Some dd \<Rightarrow>
             if ds_shutdown dd then on_immediate (Some dd) op w
             else if ds_queue dd t = [] then
               if allow_speculative \<and> (t \<noteq> Read_Op \<or> ds_queue dd Except_Op = []) then
                 let (status, op1, w1) = (if try_speculative dd t then perform_op pf op w else (Not_Done, op, w))
                 in if status \<noteq> Not_Done then
                      on_immediate (Some (if status = Done_And_Exhausted \<and> registered_events dd \<noteq> 0
                         then dd\<lparr>try_speculative := (try_speculative dd)(t := False)\<rparr> else dd)) op1 w1
                    else if registered_events dd = 0 then
                      on_immediate (Some dd) (set_ec (basic_ec operation_not_supported) op1) w1
                    else if t = Write_Op \<and> registered_events dd AND epoll_out = 0 then
                      let events = registered_events dd OR epoll_out;
                          ((result, errno), w2) = ctl EPOLL_CTL_MOD descriptor events w1
                      in if result = 0
                         then enqueue (dd\<lparr>registered_events := registered_events dd OR events\<rparr>) op1 w2
                         else on_immediate (Some dd)
                                (set_ec \<lparr>ec_value = errno, ec_category = System_Category\<rparr> op1) w2
                    else enqueue dd op1 w1
               else if registered_events dd = 0 then
                 on_immediate (Some dd) (set_ec (basic_ec operation_not_supported) op) w
               else
                 let dd1 = (if t = Write_Op then dd\<lparr>registered_events := registered_events dd OR epoll_out\<rparr> else dd);
                     (_, w1) = ctl EPOLL_CTL_MOD descriptor (registered_events dd1) w
                 in enqueue dd1 op w1
             else enqueue dd op w)"

section \<open>Performing operations\<close>

text \<open>The inner loop of \<open>perform_io\<close>: the completed operations, the rest of the queue, the flag and the world.\<close>

fun perform_ops :: "'w perform_func \<Rightarrow> reactor_op list \<Rightarrow> bool \<Rightarrow> 'w \<Rightarrow> reactor_op list \<times> reactor_op list \<times> bool \<times> 'w" where
  "perform_ops pf [] speculative w = ([], [], speculative, w)"
| "perform_ops pf (op # queue) speculative w =
     (let (status, op', w') = perform_op pf op w
      in case status of
           Not_Done \<Rightarrow> ([], op' # queue, speculative, w')
         | Done \<Rightarrow>
             let (completed, queue', speculative', w'') = perform_ops pf queue speculative w'
             in (op' # completed, queue', speculative', w'')
         | Done_And_Exhausted \<Rightarrow> ([op'], queue, False, w'))"

fun event_flag :: "op_type \<Rightarrow> 32 word" where
  "event_flag Read_Op = epoll_in"
| "event_flag Write_Op = epoll_out"
| "event_flag Except_Op = epoll_pri"

definition perform_io_type ::
  "'w perform_func \<Rightarrow> 32 word \<Rightarrow> op_type \<Rightarrow> descriptor_state \<times> (op_type \<times> reactor_op) list \<times> 'w \<Rightarrow>
   descriptor_state \<times> (op_type \<times> reactor_op) list \<times> 'w" where
  "perform_io_type pf events t x = (case x of (dd, completed, w) \<Rightarrow>
     if events AND (event_flag t OR epoll_err OR epoll_hup) \<noteq> 0 then
       let (ops, queue', speculative, w') = perform_ops pf (ds_queue dd t) True w
       in (dd\<lparr>ds_queue := (ds_queue dd)(t := queue'), try_speculative := (try_speculative dd)(t := speculative)\<rparr>,
           completed @ map (Pair t) ops, w')
     else (dd, completed, w))"

text \<open>
  \<open>perform_io\<close> with the destructor of \<open>perform_io_cleanup_on_block_exit\<close>: the exception operations
  come first. The completed operations are listed with their types; the first one is completed by
  \<open>do_complete\<close>, the others are posted.
\<close>

definition perform_io ::
  "'w perform_func \<Rightarrow> 32 word \<Rightarrow> descriptor_state \<Rightarrow> 'w \<Rightarrow>
   descriptor_state \<times> (op_type \<times> reactor_op) list \<times> handler_call list \<times> 'w" where
  "perform_io pf events dd w =
     (let (dd', completed, w') = fold (perform_io_type pf events) [Except_Op, Write_Op, Read_Op] (dd, [], w)
      in (dd', completed,
          if completed = [] then [Compensate]
          else if tl completed \<noteq> [] then [Deferred (map (op_id \<circ> snd) (tl completed))] else [], w'))"

definition do_complete :: "bool \<Rightarrow> 'w perform_func \<Rightarrow> 32 word \<Rightarrow> descriptor_state \<Rightarrow> 'w \<Rightarrow>
   descriptor_state \<times> (op_type \<times> reactor_op) list \<times> handler_call list \<times> nat option \<times> 'w" where
  "do_complete owner pf events dd w =
     (if owner then
        let (dd', completed, calls, w') = perform_io pf events dd w
        in (dd', completed, calls, (case completed of [] \<Rightarrow> None | (_, op) # _ \<Rightarrow> Some (op_id op)), w')
      else (dd, [], [], None, w))"

section \<open>Cancelling\<close>

text \<open>The loops over the queues: every operation is marked as aborted and moved to one queue.\<close>

definition abort_op :: "reactor_op \<Rightarrow> reactor_op" where
  "abort_op op = set_ec (basic_ec operation_aborted) op"

definition drain_queues :: "descriptor_state \<Rightarrow> descriptor_state \<times> (op_type \<times> reactor_op) list" where
  "drain_queues dd =
     fold (\<lambda>t (dd, ops). (dd\<lparr>ds_queue := (ds_queue dd)(t := [])\<rparr>, ops @ map (Pair t \<circ> abort_op) (ds_queue dd t)))
       [Read_Op, Write_Op, Except_Op] (dd, [])"

definition cancel_ops ::
  "descriptor_state option \<Rightarrow> descriptor_state option \<times> (op_type \<times> reactor_op) list \<times> handler_call list" where
  "cancel_ops descriptor_data = (case descriptor_data of
      None \<Rightarrow> (None, [], [])
    | Some dd \<Rightarrow> let (dd', ops) = drain_queues dd in (Some dd', ops, [Deferred (map (op_id \<circ> snd) ops)]))"

definition cancel_ops_by_key ::
  "op_type \<Rightarrow> nat \<Rightarrow> descriptor_state option \<Rightarrow> descriptor_state option \<times> reactor_op list \<times> handler_call list" where
  "cancel_ops_by_key t key descriptor_data = (case descriptor_data of
      None \<Rightarrow> (None, [], [])
    | Some dd \<Rightarrow>
        let ops = map abort_op (filter (\<lambda>op. cancellation_key op = key) (ds_queue dd t));
            other_ops = filter (\<lambda>op. cancellation_key op \<noteq> key) (ds_queue dd t)
        in (Some (dd\<lparr>ds_queue := (ds_queue dd)(t := other_ops)\<rparr>), ops, [Deferred (map op_id ops)]))"

definition deregister_descriptor ::
  "'w epoll_ctl_func \<Rightarrow> int \<Rightarrow> bool \<Rightarrow> descriptor_state option \<Rightarrow> 'w \<Rightarrow>
   descriptor_state option \<times> (op_type \<times> reactor_op) list \<times> handler_call list \<times> 'w" where
  "deregister_descriptor ctl descriptor closing descriptor_data w = (case descriptor_data of
      None \<Rightarrow> (None, [], [], w)
    | Some dd \<Rightarrow>
        if \<not> ds_shutdown dd then
          let w' = (if closing then w
                    else if registered_events dd \<noteq> 0 then snd (ctl EPOLL_CTL_DEL descriptor 0 w) else w);
              (dd', ops) = drain_queues dd
          in (Some (dd'\<lparr>ds_descriptor := -1, ds_shutdown := True\<rparr>), ops, [Deferred (map (op_id \<circ> snd) ops)], w')
        else (None, [], [], w))"

text \<open>
  The operations of an internal descriptor are destroyed, with the local queue that they are
  moved to; the third component lists them.
\<close>

definition deregister_internal_descriptor ::
  "'w epoll_ctl_func \<Rightarrow> int \<Rightarrow> descriptor_state option \<Rightarrow> 'w \<Rightarrow> descriptor_state option \<times> 'w \<times> reactor_op list" where
  "deregister_internal_descriptor ctl descriptor descriptor_data w = (case descriptor_data of
      None \<Rightarrow> (None, w, [])
    | Some dd \<Rightarrow>
        if \<not> ds_shutdown dd then
          (Some (dd\<lparr>ds_queue := (\<lambda>_. []), ds_descriptor := -1, ds_shutdown := True\<rparr>),
           snd (ctl EPOLL_CTL_DEL descriptor 0 w),
           concat (map (ds_queue dd) [Read_Op, Write_Op, Except_Op]))
        else (None, w, []))"

text \<open>\<open>cleanup_descriptor_data\<close>: whether the state is given back to the pool, and the new pointer.\<close>

definition cleanup_descriptor_data :: "descriptor_state option \<Rightarrow> bool \<times> descriptor_state option" where
  "cleanup_descriptor_data descriptor_data = (case descriptor_data of None \<Rightarrow> (False, None) | Some dd \<Rightarrow> (True, None))"

section \<open>Dispatching events\<close>

text \<open>
  The loop of \<open>run\<close> over the events of \<open>epoll_wait\<close>: \<open>ready\<close> holds the \<open>task_result_\<close> of the descriptors,
  \<open>ops\<close> the queue of the scheduler's thread. A timer descriptor is in use if \<open>timer_fd\<close> holds.
\<close>

datatype event_source = Interrupter | Timer_Fd | Descriptor nat

fun dispatch_events ::
  "bool \<Rightarrow> (event_source \<times> 32 word) list \<Rightarrow> (nat \<Rightarrow> 32 word) \<Rightarrow> nat list \<Rightarrow> bool \<Rightarrow> (nat \<Rightarrow> 32 word) \<times> nat list \<times> bool" where
  "dispatch_events timer_fd [] ready ops check_timers = (ready, ops, check_timers)"
| "dispatch_events timer_fd ((Interrupter, _) # events) ready ops check_timers =
     dispatch_events timer_fd events ready ops (if \<not> timer_fd then True else check_timers)"
| "dispatch_events timer_fd ((Timer_Fd, _) # events) ready ops check_timers =
     dispatch_events timer_fd events ready ops True"
| "dispatch_events timer_fd ((Descriptor d, ev) # events) ready ops check_timers =
     (if d \<notin> set ops then dispatch_events timer_fd events (ready(d := ev)) (ops @ [d]) check_timers
      else dispatch_events timer_fd events (ready(d := ready d OR ev)) ops check_timers)"

definition reactor_run ::
  "bool \<Rightarrow> (event_source \<times> 32 word) list \<Rightarrow> (nat \<Rightarrow> 32 word) \<Rightarrow> nat list \<Rightarrow> (nat \<Rightarrow> 32 word) \<times> nat list \<times> bool" where
  "reactor_run timer_fd events ready ops = dispatch_events timer_fd events ready ops (\<not> timer_fd)"

section \<open>Order of completion\<close>

text \<open>
  What happens to one descriptor: operations are started, events arrive, operations are cancelled
  (all of them), and the descriptor is deregistered. A step yields the operations that are
  finished (performed, aborted or posted at once), in order, and the calls on the scheduler.
\<close>

datatype reactor_event =
    Start op_type reactor_op bool bool
  | Ready "32 word"
  | Cancel
  | Deregister bool

definition reactor_step ::
  "'w epoll_ctl_func \<Rightarrow> 'w perform_func \<Rightarrow> int \<Rightarrow> reactor_event \<Rightarrow> descriptor_state option \<Rightarrow> 'w \<Rightarrow>
   descriptor_state option \<times> (op_type \<times> reactor_op) list \<times> handler_call list \<times> 'w" where
  "reactor_step ctl pf fd ev data w = (case ev of
      Start t op cont spec \<Rightarrow>
        let (data', posted, calls, w') = start_op ctl pf t fd data op cont spec w
        in (data', (case posted of None \<Rightarrow> [] | Some op' \<Rightarrow> [(t, op')]), calls, w')
    | Ready events \<Rightarrow> (case data of
          None \<Rightarrow> (None, [], [], w)
        | Some dd \<Rightarrow> let (dd', completed, calls, _, w') = do_complete True pf events dd w
                    in (Some dd', completed, calls, w'))
    | Cancel \<Rightarrow> let (data', ops, calls) = cancel_ops data in (data', ops, calls, w)
    | Deregister closing \<Rightarrow> deregister_descriptor ctl fd closing data w)"

fun reactor_trace ::
  "'w epoll_ctl_func \<Rightarrow> 'w perform_func \<Rightarrow> int \<Rightarrow> reactor_event list \<Rightarrow> descriptor_state option \<Rightarrow> 'w \<Rightarrow>
   descriptor_state option \<times> (op_type \<times> reactor_op) list \<times> handler_call list \<times> 'w" where
  "reactor_trace ctl pf fd [] data w = (data, [], [], w)"
| "reactor_trace ctl pf fd (ev # evs) data w =
     (let (data1, finished1, calls1, w1) = reactor_step ctl pf fd ev data w;
          (data2, finished2, calls2, w2) = reactor_trace ctl pf fd evs data1 w1
      in (data2, finished1 @ finished2, calls1 @ calls2, w2))"

fun started :: "op_type \<Rightarrow> reactor_event list \<Rightarrow> nat list" where
  "started t [] = []"
| "started t (Start t' op cont spec # evs) = (if t' = t then [op_id op] else []) @ started t evs"
| "started t (ev # evs) = started t evs"

definition finished_ids :: "op_type \<Rightarrow> (op_type \<times> reactor_op) list \<Rightarrow> nat list" where
  "finished_ids t ops = map (op_id \<circ> snd) (filter (\<lambda>x. fst x = t) ops)"

definition queued :: "op_type \<Rightarrow> descriptor_state option \<Rightarrow> nat list" where
  "queued t data = (case data of None \<Rightarrow> [] | Some dd \<Rightarrow> map op_id (ds_queue dd t))"

definition shut_empty :: "descriptor_state option \<Rightarrow> bool" where
  "shut_empty data \<longleftrightarrow> (case data of None \<Rightarrow> True | Some dd \<Rightarrow> ds_shutdown dd \<longrightarrow> (\<forall>t. ds_queue dd t = []))"

lemma finished_ids_simps [simp]:
  "finished_ids t [] = []"
  "finished_ids t (x # xs) = (if fst x = t then [op_id (snd x)] else []) @ finished_ids t xs"
  "finished_ids t (xs @ ys) = finished_ids t xs @ finished_ids t ys"
  "finished_ids t (map (Pair t') ops) = (if t' = t then map op_id ops else [])"
  "finished_ids t (map (Pair t' \<circ> f) ops) = (if t' = t then map (op_id \<circ> f) ops else [])"
  by (auto simp: finished_ids_def filter_map o_def)

lemma op_id_set_ec [simp]: "op_id (set_ec ec op) = op_id op" "op_id (abort_op op) = op_id op"
  by (simp_all add: set_ec_def abort_op_def)

lemma op_id_abort_comp [simp]: "op_id \<circ> abort_op = op_id"
  by (simp add: fun_eq_iff)

lemma op_id_perform: "perform_op pf op w = (st, op', w') \<Longrightarrow> op_id op' = op_id op"
  by (auto simp: perform_op_def split: prod.splits)

lemma perform_ops_order:
  "perform_ops pf queue spec w = (completed, queue', spec', w') \<Longrightarrow>
   map op_id completed @ map op_id queue' = map op_id queue"
proof (induction queue arbitrary: w completed queue' spec' w')
  case (Cons op queue)
  obtain st op' w1 where op: "perform_op pf op w = (st, op', w1)"
    by (metis prod.exhaust)
  obtain c q s2 w2 where rest: "perform_ops pf queue spec w1 = (c, q, s2, w2)"
    by (metis prod.exhaust)
  show ?case
    using Cons.prems Cons.IH [OF rest] op_id_perform [OF op] op rest by (cases st) auto
qed simp

text \<open>Performing the operations of one type keeps the order of every type.\<close>

lemma perform_io_type_order:
  assumes "perform_io_type pf events t (dd, done, w) = (dd', done', w')"
  shows "finished_ids t' done' @ map op_id (ds_queue dd' t') =
      finished_ids t' done @ map op_id (ds_queue dd t') \<and> ds_shutdown dd' = ds_shutdown dd"
proof -
  obtain c q s2 w2 where rest: "perform_ops pf (ds_queue dd t) True w = (c, q, s2, w2)"
    by (metis prod.exhaust)
  show ?thesis
    using assms rest perform_ops_order [OF rest] by (auto simp: perform_io_type_def split: if_splits)
qed

lemma perform_io_order:
  assumes "perform_io pf events dd w = (dd', completed, calls, w')"
  shows "finished_ids t completed @ map op_id (ds_queue dd' t) = map op_id (ds_queue dd t) \<and>
      ds_shutdown dd' = ds_shutdown dd"
proof -
  obtain d1 c1 w1 where 1: "perform_io_type pf events Except_Op (dd, [], w) = (d1, c1, w1)"
    by (metis prod.exhaust)
  obtain d2 c2 w2 where 2: "perform_io_type pf events Write_Op (d1, c1, w1) = (d2, c2, w2)"
    by (metis prod.exhaust)
  obtain d3 c3 w3 where 3: "perform_io_type pf events Read_Op (d2, c2, w2) = (d3, c3, w3)"
    by (metis prod.exhaust)
  show ?thesis
    using assms 1 2 3 perform_io_type_order [OF 1, of t] perform_io_type_order [OF 2, of t]
      perform_io_type_order [OF 3, of t]
    by (auto simp: perform_io_def)
qed

lemma all_types_empty: "(f :: op_type \<Rightarrow> 'a list)(Read_Op := [], Write_Op := [], Except_Op := []) = (\<lambda>_. [])"
proof
  fix t
  show "(f(Read_Op := [], Write_Op := [], Except_Op := [])) t = []"
    by (cases t) auto
qed

lemma drain_queues_eq:
  "drain_queues dd = (dd\<lparr>ds_queue := (\<lambda>_. [])\<rparr>,
     map (Pair Read_Op \<circ> abort_op) (ds_queue dd Read_Op) @ map (Pair Write_Op \<circ> abort_op) (ds_queue dd Write_Op) @
     map (Pair Except_Op \<circ> abort_op) (ds_queue dd Except_Op))"
  by (simp add: drain_queues_def all_types_empty)

lemma drain_queues_order:
  "finished_ids t (snd (drain_queues dd)) = map op_id (ds_queue dd t)"
  by (cases t) (simp_all add: drain_queues_eq)

lemma start_op_order:
  assumes "start_op ctl pf t fd data op cont spec w = (data', posted, calls, w')" "shut_empty data"
  shows "(case posted of None \<Rightarrow> [] | Some op' \<Rightarrow> if t = t' then [op_id op'] else []) @ queued t' data' =
      queued t' data @ (if t = t' then [op_id op] else []) \<and> shut_empty data'"
proof (cases data)
  case None
  then show ?thesis
    using assms(1) by (auto simp: start_op_def queued_def shut_empty_def)
next
  case (Some dd)
  obtain st op1 w1 where p: "perform_op pf op w = (st, op1, w1)"
    by (metis prod.exhaust)
  show ?thesis
    using assms Some p op_id_perform [OF p]
    by (auto simp: start_op_def queued_def shut_empty_def Let_def split: if_splits prod.splits)
qed

text \<open>The calls by which an operation enters the scheduler: as outstanding work, or posted at once.\<close>

fun entry_calls :: "handler_call list \<Rightarrow> nat" where
  "entry_calls [] = 0"
| "entry_calls (Post _ _ # calls) = Suc (entry_calls calls)"
| "entry_calls (Work_Started # calls) = Suc (entry_calls calls)"
| "entry_calls (_ # calls) = entry_calls calls"

fun starts :: "reactor_event list \<Rightarrow> nat" where
  "starts [] = 0"
| "starts (Start t op cont spec # evs) = Suc (starts evs)"
| "starts (_ # evs) = starts evs"

lemma entry_calls_append [simp]: "entry_calls (xs @ ys) = entry_calls xs + entry_calls ys"
  by (induction xs rule: entry_calls.induct) auto

lemma start_op_entry:
  "start_op ctl pf t fd data op cont spec w = (data', posted, calls, w') \<Longrightarrow> entry_calls calls = 1"
  by (auto simp: start_op_def Let_def split: if_splits prod.splits option.splits)

lemma reactor_step_order:
  assumes "reactor_step ctl pf fd ev data w = (data', finished, calls, w')" "shut_empty data"
  shows "finished_ids t finished @ queued t data' = queued t data @ started t [ev] \<and> shut_empty data' \<and>
    entry_calls calls = starts [ev]"
proof (cases ev)
  case (Start t' op cont spec)
  obtain d p c w1 where op: "start_op ctl pf t' fd data op cont spec w = (d, p, c, w1)"
    by (metis prod.exhaust)
  show ?thesis
    using start_op_order [OF op assms(2), of t] start_op_entry [OF op] assms(1) Start op
    by (auto simp: reactor_step_def split: option.splits)
next
  case (Ready events)
  show ?thesis
  proof (cases data)
    case None
    then show ?thesis
      using assms Ready by (auto simp: reactor_step_def queued_def)
  next
    case (Some dd)
    obtain d c cs w1 where io: "perform_io pf events dd w = (d, c, cs, w1)"
      by (metis prod.exhaust)
    have "entry_calls cs = 0"
      using io by (auto simp: perform_io_def split: prod.splits if_splits)
    then show ?thesis
      using assms Ready Some io perform_io_order [OF io]
      by (auto simp: reactor_step_def do_complete_def queued_def shut_empty_def)
  qed
next
  case Cancel
  then show ?thesis
    using assms drain_queues_order
    by (auto simp: reactor_step_def cancel_ops_def drain_queues_eq queued_def shut_empty_def split: option.splits)
next
  case (Deregister closing)
  then show ?thesis
    using assms drain_queues_order [of t]
    by (auto simp: reactor_step_def deregister_descriptor_def queued_def shut_empty_def drain_queues_eq Let_def
        split: option.splits if_splits)
qed

text \<open>
  C22. For every sequence of starts, readiness events, cancellations and deregistration on a
  descriptor, whatever its operations and \<open>epoll_ctl\<close> report: the operations of each kind are
  finished in the order in which they were started, every one exactly once, and the others are
  still queued in that order; an operation that is tried at once never overtakes a queued one. And
  every started operation enters the scheduler exactly once, as outstanding work or posted.
\<close>

theorem reactor_completes_in_order:
  assumes "reactor_trace ctl pf fd events data w = (data', finished, calls, w')" "shut_empty data"
  shows "finished_ids t finished @ queued t data' = queued t data @ started t events \<and>
    entry_calls calls = starts events"
  using assms
proof (induction events arbitrary: data w finished calls)
  case (Cons ev events)
  obtain d1 f1 c1 w1 where step: "reactor_step ctl pf fd ev data w = (d1, f1, c1, w1)"
    by (metis prod.exhaust)
  obtain d2 f2 c2 w2 where rest: "reactor_trace ctl pf fd events d1 w1 = (d2, f2, c2, w2)"
    by (metis prod.exhaust)
  have s: "finished_ids t f1 @ queued t d1 = queued t data @ started t [ev]" "shut_empty d1"
      "entry_calls c1 = starts [ev]"
    using reactor_step_order [OF step Cons.prems(2)] by blast+
  have out: "data' = d2" "finished = f1 @ f2" "calls = c1 @ c2" "w' = w2"
    using Cons.prems(1) step rest by auto
  have r: "finished_ids t f2 @ queued t d2 = queued t d1 @ started t events" "entry_calls c2 = starts events"
    using Cons.IH [of d1 w1 f2 c2] rest s(2) out by auto
  have "started t (ev # events) = started t [ev] @ started t events" "starts (ev # events) = starts [ev] + starts events"
    by (cases ev; simp)+
  then show ?case
    using s r out by (metis append_assoc entry_calls_append finished_ids_simps(3))
qed simp

text \<open>Two reads of a socket: the first is tried at once and has to wait, the second queues behind it.\<close>

definition demo_op :: "nat \<Rightarrow> reactor_op" where
  "demo_op n = \<lparr>op_id = n, op_ec = no_error, cancellation_key = 0, op_bytes = 0\<rparr>"

definition demo_perform :: "nat perform_func" where
  "demo_perform op w = (if w = 0 then Not_Done else Done, no_error, 1, w + 1)"

definition demo_ctl :: "nat epoll_ctl_func" where
  "demo_ctl c fd events w = ((0, 0), w)"

definition demo_descriptor :: descriptor_state where
  "demo_descriptor = (new_descriptor_state 3)\<lparr>registered_events := epoll_in\<rparr>"

theorem reactor_completes_in_order_witness:
  "finished_ids Read_Op (fst (snd (reactor_trace demo_ctl demo_perform 3
      [Start Read_Op (demo_op 7) False True, Start Read_Op (demo_op 8) False True, Ready epoll_in]
      (Some demo_descriptor) 0))) = [7, 8]"
proof -
  obtain d f c w where run: "reactor_trace demo_ctl demo_perform 3
      [Start Read_Op (demo_op 7) False True, Start Read_Op (demo_op 8) False True, Ready epoll_in]
      (Some demo_descriptor) 0 = (d, f, c, w)"
    by (metis prod.exhaust)
  have "queued Read_Op (fst (reactor_trace demo_ctl demo_perform 3
      [Start Read_Op (demo_op 7) False True, Start Read_Op (demo_op 8) False True, Ready epoll_in]
      (Some demo_descriptor) 0)) = []"
    by code_simp
  then have "queued Read_Op d = []"
    unfolding run by simp
  moreover have "shut_empty (Some demo_descriptor)" "queued Read_Op (Some demo_descriptor) = []"
    by (simp_all add: shut_empty_def demo_descriptor_def new_descriptor_state_def queued_def)
  ultimately have "finished_ids Read_Op f = [7, 8]"
    using reactor_completes_in_order [OF run, of Read_Op] by (simp add: demo_op_def)
  then show ?thesis
    unfolding run by simp
qed

end
