(* ===== verification/Asio_Socket_Ops.thy ===== *)
theory Asio_Socket_Ops
  imports Asio_Error Asio_Transfer
begin

unbundle bit_operations_syntax

text \<open>
  Model of the part of \<open>asio/detail/impl/socket_ops.ipp\<close> that the client and the server use, in its
  Linux branches. The operating system is a parameter: a record of system calls, each of which
  takes the arguments that the code passes and the state of the world, and yields the value it
  returns, the value it leaves in \<open>errno\<close> and the new world. The memory that \<open>recv\<close> fills is a part
  of the world. The loops end when the system calls let them, so they are partial functions, whose
  value is \<open>None\<close> when they go on for ever.
\<close>

section \<open>Types\<close>

type_synonym socket_type = int
type_synonym state_type = "8 word"
type_synonym sockaddr = "int \<times> 8 word list"
type_synonym 'w call = "'w \<Rightarrow> (int \<times> int) \<times> 'w"

datatype ioctl_command = FIONBIO | FIONREAD
datatype poll_events = POLLIN | POLLOUT

text \<open>
  The options that the code treats specially: the two custom ones, \<open>SO_LINGER\<close>, the buffer sizes
  \<open>SO_SNDBUF\<close> and \<open>SO_RCVBUF\<close>; and \<open>SO_ERROR\<close>, which it reads.
\<close>

datatype socket_option =
  Always_Fail | Enable_Connection_Aborted | Linger | Send_Buffer_Size | Receive_Buffer_Size | So_Error | Other_Option

record 'w kernel =
  k_socket :: "int \<Rightarrow> int \<Rightarrow> int \<Rightarrow> 'w call"
  k_bind :: "socket_type \<Rightarrow> sockaddr \<Rightarrow> 'w call"
  k_listen :: "socket_type \<Rightarrow> int \<Rightarrow> 'w call"
  k_accept :: "socket_type \<Rightarrow> 'w call"
  k_connect :: "socket_type \<Rightarrow> sockaddr \<Rightarrow> 'w call"
  k_shutdown :: "socket_type \<Rightarrow> int \<Rightarrow> 'w call"
  k_close :: "socket_type \<Rightarrow> 'w call"
  k_ioctl :: "socket_type \<Rightarrow> ioctl_command \<Rightarrow> int \<Rightarrow> 'w \<Rightarrow> (int \<times> int) \<times> int \<times> 'w"
  k_poll :: "socket_type \<Rightarrow> poll_events \<Rightarrow> int \<Rightarrow> 'w call"
  k_setsockopt :: "socket_type \<Rightarrow> socket_option \<Rightarrow> 8 word list \<Rightarrow> 'w call"
  k_getsockopt :: "socket_type \<Rightarrow> socket_option \<Rightarrow> int \<Rightarrow> nat \<Rightarrow> 'w \<Rightarrow> (int \<times> int) \<times> int \<times> nat \<times> 'w"
  k_recvmsg :: "socket_type \<Rightarrow> buffer list \<Rightarrow> int \<Rightarrow> 'w call"
  k_recv :: "socket_type \<Rightarrow> buffer \<Rightarrow> int \<Rightarrow> 'w call"
  k_sendmsg :: "socket_type \<Rightarrow> buffer list \<Rightarrow> int \<Rightarrow> 'w call"
  k_send :: "socket_type \<Rightarrow> buffer \<Rightarrow> int \<Rightarrow> 'w call"

definition invalid_socket :: socket_type where
  "invalid_socket = -1"

definition socket_error_retval :: int where
  "socket_error_retval = -1"

definition user_set_non_blocking :: state_type where "user_set_non_blocking = 1"

definition internal_non_blocking :: state_type where "internal_non_blocking = 2"

definition non_blocking :: state_type where
  "non_blocking = user_set_non_blocking OR internal_non_blocking"

definition enable_connection_aborted :: state_type where "enable_connection_aborted = 4"

definition user_set_linger :: state_type where "user_set_linger = 8"

definition stream_oriented :: state_type where "stream_oriented = 16"

definition has_flag :: "state_type \<Rightarrow> state_type \<Rightarrow> bool" where
  "has_flag state flag \<longleftrightarrow> state AND flag \<noteq> 0"

text \<open>The values of \<open>EPROTO\<close>, \<open>ENOTTY\<close>, \<open>MSG_NOSIGNAL\<close> and \<open>AF_UNIX\<close> on Linux.\<close>

definition eproto :: int where "eproto = 71"
definition enotty :: int where "enotty = 25"
definition msg_nosignal :: int where "msg_nosignal = 16384"
definition af_unix :: int where "af_unix = 1"

definition get_last_error :: "error_code \<Rightarrow> bool \<Rightarrow> int \<Rightarrow> error_code" where
  "get_last_error ec is_error_condition errno =
     (if \<not> is_error_condition then clear_ec ec
      else \<lparr>ec_value = errno, ec_category = System_Category\<rparr>)"

definition is_blocking_error :: "error_code \<Rightarrow> bool" where
  "is_blocking_error ec \<longleftrightarrow> ec = basic_ec would_block \<or> ec = basic_ec try_again"

section \<open>Waiting for readiness\<close>

definition poll_read :: "'w kernel \<Rightarrow> socket_type \<Rightarrow> state_type \<Rightarrow> int \<Rightarrow> error_code \<Rightarrow> 'w \<Rightarrow> int \<times> error_code \<times> 'w" where
  "poll_read K s state msec ec w =
     (if s = invalid_socket then (socket_error_retval, basic_ec bad_descriptor, w)
      else
        let timeout = (if has_flag state user_set_non_blocking then 0 else msec);
            ((result, errno), w') = k_poll K s POLLIN timeout w;
            ec' = get_last_error ec (result < 0) errno
        in (result, if result = 0 \<and> has_flag state user_set_non_blocking then basic_ec would_block else ec', w'))"

definition poll_write :: "'w kernel \<Rightarrow> socket_type \<Rightarrow> state_type \<Rightarrow> int \<Rightarrow> error_code \<Rightarrow> 'w \<Rightarrow> int \<times> error_code \<times> 'w" where
  "poll_write K s state msec ec w =
     (if s = invalid_socket then (socket_error_retval, basic_ec bad_descriptor, w)
      else
        let timeout = (if has_flag state user_set_non_blocking then 0 else msec);
            ((result, errno), w') = k_poll K s POLLOUT timeout w;
            ec' = get_last_error ec (result < 0) errno
        in (result, if result = 0 \<and> has_flag state user_set_non_blocking then basic_ec would_block else ec', w'))"

definition poll_connect :: "'w kernel \<Rightarrow> socket_type \<Rightarrow> int \<Rightarrow> error_code \<Rightarrow> 'w \<Rightarrow> int \<times> error_code \<times> 'w" where
  "poll_connect K s msec ec w =
     (if s = invalid_socket then (socket_error_retval, basic_ec bad_descriptor, w)
      else
        let ((result, errno), w') = k_poll K s POLLOUT msec w
        in (result, get_last_error ec (result < 0) errno, w'))"

section \<open>Setting up and closing sockets\<close>

definition open_socket :: "'w kernel \<Rightarrow> int \<Rightarrow> int \<Rightarrow> int \<Rightarrow> error_code \<Rightarrow> 'w \<Rightarrow> socket_type \<times> error_code \<times> 'w" where
  "open_socket K af type protocol ec w =
     (let ((s, errno), w') = k_socket K af type protocol w in (s, get_last_error ec (s < 0) errno, w'))"

definition bind_socket :: "'w kernel \<Rightarrow> socket_type \<Rightarrow> sockaddr \<Rightarrow> error_code \<Rightarrow> 'w \<Rightarrow> int \<times> error_code \<times> 'w" where
  "bind_socket K s addr ec w =
     (if s = invalid_socket then (socket_error_retval, basic_ec bad_descriptor, w)
      else let ((result, errno), w') = k_bind K s addr w in (result, get_last_error ec (result \<noteq> 0) errno, w'))"

definition listen :: "'w kernel \<Rightarrow> socket_type \<Rightarrow> int \<Rightarrow> error_code \<Rightarrow> 'w \<Rightarrow> int \<times> error_code \<times> 'w" where
  "listen K s backlog ec w =
     (if s = invalid_socket then (socket_error_retval, basic_ec bad_descriptor, w)
      else let ((result, errno), w') = k_listen K s backlog w in (result, get_last_error ec (result \<noteq> 0) errno, w'))"

definition shutdown_socket :: "'w kernel \<Rightarrow> socket_type \<Rightarrow> int \<Rightarrow> error_code \<Rightarrow> 'w \<Rightarrow> int \<times> error_code \<times> 'w" where
  "shutdown_socket K s what ec w =
     (if s = invalid_socket then (socket_error_retval, basic_ec bad_descriptor, w)
      else let ((result, errno), w') = k_shutdown K s what w in (result, get_last_error ec (result \<noteq> 0) errno, w'))"

text \<open>
  \<open>optval\<close> is the option value as bytes, so \<open>optlen\<close> is its length; the truth value of the
  \<open>int\<close> behind the pointer is that some byte is not 0.
\<close>

definition setsockopt ::
  "'w kernel \<Rightarrow> socket_type \<Rightarrow> state_type \<Rightarrow> socket_option \<Rightarrow> 8 word list \<Rightarrow> error_code \<Rightarrow> 'w \<Rightarrow>
   int \<times> error_code \<times> state_type \<times> 'w" where
  "setsockopt K s state opt optval ec w =
     (if s = invalid_socket then (socket_error_retval, basic_ec bad_descriptor, state, w)
      else if opt = Always_Fail then (socket_error_retval, basic_ec invalid_argument, state, w)
      else if opt = Enable_Connection_Aborted then
        (if length optval \<noteq> 4 then (socket_error_retval, basic_ec invalid_argument, state, w)
         else (0, clear_ec ec,
               if \<exists>b \<in> set optval. b \<noteq> 0 then state OR enable_connection_aborted
               else state AND NOT enable_connection_aborted, w))
      else
        let state' = (if opt = Linger then state OR user_set_linger else state);
            ((result, errno), w') = k_setsockopt K s opt optval w
        in (result, get_last_error ec (result \<noteq> 0) errno, state', w'))"

definition close_socket ::
  "'w kernel \<Rightarrow> socket_type \<Rightarrow> state_type \<Rightarrow> bool \<Rightarrow> error_code \<Rightarrow> 'w \<Rightarrow> int \<times> error_code \<times> state_type \<times> 'w" where
  "close_socket K s state destruction ec w =
     (if s \<noteq> invalid_socket then
        let (state1, w1) =
              (if destruction \<and> has_flag state user_set_linger
               then let (_, _, st, w') = setsockopt K s state Linger (replicate 8 0) no_error w in (st, w')
               else (state, w));
            ((result, errno), w2) = k_close K s w1;
            ec2 = get_last_error ec (result \<noteq> 0) errno
        in if result \<noteq> 0 \<and> is_blocking_error ec2 then
             let (_, _, w3) = k_ioctl K s FIONBIO 0 w2;
                 state2 = state1 AND NOT non_blocking;
                 ((result', errno'), w4) = k_close K s w3
             in (result', get_last_error ec2 (result' \<noteq> 0) errno', state2, w4)
           else (result, ec2, state1, w2)
      else (0, ec, state, w))"

definition set_user_non_blocking ::
  "'w kernel \<Rightarrow> socket_type \<Rightarrow> state_type \<Rightarrow> bool \<Rightarrow> error_code \<Rightarrow> 'w \<Rightarrow> bool \<times> error_code \<times> state_type \<times> 'w" where
  "set_user_non_blocking K s state value ec w =
     (if s = invalid_socket then (False, basic_ec bad_descriptor, state, w)
      else
        let ((result, errno), _, w') = k_ioctl K s FIONBIO (if value then 1 else 0) w;
            ec' = get_last_error ec (result < 0) errno
        in if result \<ge> 0 then
             (True, ec', if value then state OR user_set_non_blocking
                         else state AND NOT (user_set_non_blocking OR internal_non_blocking), w')
           else (False, ec', state, w'))"

definition set_internal_non_blocking ::
  "'w kernel \<Rightarrow> socket_type \<Rightarrow> state_type \<Rightarrow> bool \<Rightarrow> error_code \<Rightarrow> 'w \<Rightarrow> bool \<times> error_code \<times> state_type \<times> 'w" where
  "set_internal_non_blocking K s state value ec w =
     (if s = invalid_socket then (False, basic_ec bad_descriptor, state, w)
      else if \<not> value \<and> has_flag state user_set_non_blocking then (False, basic_ec invalid_argument, state, w)
      else
        let ((result, errno), _, w') = k_ioctl K s FIONBIO (if value then 1 else 0) w;
            ec' = get_last_error ec (result < 0) errno
        in if result \<ge> 0 then
             (True, ec', if value then state OR internal_non_blocking
                         else state AND NOT internal_non_blocking, w')
           else (False, ec', state, w'))"

definition available :: "'w kernel \<Rightarrow> socket_type \<Rightarrow> error_code \<Rightarrow> 'w \<Rightarrow> nat \<times> error_code \<times> 'w" where
  "available K s ec w =
     (if s = invalid_socket then (0, basic_ec bad_descriptor, w)
      else
        let ((result, errno), value, w') = k_ioctl K s FIONREAD 0 w;
            ec1 = get_last_error ec (result < 0) errno;
            ec2 = (if ec_value ec1 = enotty then basic_ec not_socket else ec1)
        in (if failed ec2 then 0 else nat (value mod 2 ^ 64), ec2, w'))"

section \<open>Accepting\<close>

text \<open>\<open>accept\<close> as it is called without an endpoint for the peer (\<open>addr\<close> and \<open>addrlen\<close> null).\<close>

definition accept :: "'w kernel \<Rightarrow> socket_type \<Rightarrow> error_code \<Rightarrow> 'w \<Rightarrow> socket_type \<times> error_code \<times> 'w" where
  "accept K s ec w =
     (if s = invalid_socket then (invalid_socket, basic_ec bad_descriptor, w)
      else
        let ((new_s, errno), w') = k_accept K s w;
            ec' = get_last_error ec (new_s = invalid_socket) errno
        in if new_s = invalid_socket then (new_s, ec', w') else (new_s, clear_ec ec', w'))"

partial_function (option) sync_accept ::
  "'w kernel \<Rightarrow> socket_type \<Rightarrow> state_type \<Rightarrow> error_code \<Rightarrow> 'w \<Rightarrow> (socket_type \<times> error_code \<times> 'w) option" where
  [code]: "sync_accept K s state ec w =
     (let (new_socket, ec1, w1) = accept K s ec w
      in if new_socket \<noteq> invalid_socket then Some (new_socket, ec1, w1)
         else if (if is_blocking_error ec1 then has_flag state user_set_non_blocking
                  else if ec1 = basic_ec connection_aborted then has_flag state enable_connection_aborted
                  else if ec_value ec1 = eproto then has_flag state enable_connection_aborted
                  else True)
         then Some (invalid_socket, ec1, w1)
         else let (ready, ec2, w2) = poll_read K s 0 (-1) ec1 w1
              in if ready < 0 then Some (invalid_socket, ec2, w2) else sync_accept K s state ec2 w2)"

text \<open>The first component says whether the operation is complete; otherwise the reactor tries again.\<close>

partial_function (option) non_blocking_accept ::
  "'w kernel \<Rightarrow> socket_type \<Rightarrow> state_type \<Rightarrow> error_code \<Rightarrow> 'w \<Rightarrow> (bool \<times> error_code \<times> socket_type \<times> 'w) option" where
  [code]: "non_blocking_accept K s state ec w =
     (let (new_socket, ec1, w1) = accept K s ec w
      in if new_socket \<noteq> invalid_socket then Some (True, ec1, new_socket, w1)
         else if ec1 = basic_ec interrupted then non_blocking_accept K s state ec1 w1
         else if is_blocking_error ec1 then Some (False, ec1, new_socket, w1)
         else if ec1 = basic_ec connection_aborted then
           Some (has_flag state enable_connection_aborted, ec1, new_socket, w1)
         else if ec_value ec1 = eproto then
           Some (has_flag state enable_connection_aborted, ec1, new_socket, w1)
         else Some (True, ec1, new_socket, w1))"

section \<open>Connecting\<close>

definition connect :: "'w kernel \<Rightarrow> socket_type \<Rightarrow> sockaddr \<Rightarrow> error_code \<Rightarrow> 'w \<Rightarrow> int \<times> error_code \<times> 'w" where
  "connect K s addr ec w =
     (if s = invalid_socket then (socket_error_retval, basic_ec bad_descriptor, w)
      else
        let ((result, errno), w') = k_connect K s addr w;
            ec' = get_last_error ec (result \<noteq> 0) errno
        in if result \<noteq> 0 \<and> ec' = basic_ec try_again
           then (result, if fst addr = af_unix then basic_ec in_progress else basic_ec no_buffer_space, w')
           else (result, ec', w'))"

text \<open>
  \<open>getsockopt\<close> for an option whose value is an \<open>int\<close>. The value and its length are in-out
  parameters. The results are the return value, the value of the option, its length, the error
  code and the world. Linux doubles the buffer sizes, so they are halved (truncating towards 0).
\<close>

definition getsockopt ::
  "'w kernel \<Rightarrow> socket_type \<Rightarrow> state_type \<Rightarrow> socket_option \<Rightarrow> int \<Rightarrow> nat \<Rightarrow> error_code \<Rightarrow> 'w \<Rightarrow>
   int \<times> int \<times> nat \<times> error_code \<times> 'w" where
  "getsockopt K s state opt optval optlen ec w =
     (if s = invalid_socket then (socket_error_retval, optval, optlen, basic_ec bad_descriptor, w)
      else if opt = Always_Fail then (socket_error_retval, optval, optlen, basic_ec invalid_argument, w)
      else if opt = Enable_Connection_Aborted then
        (if optlen \<noteq> 4 then (socket_error_retval, optval, optlen, basic_ec invalid_argument, w)
         else (0, if has_flag state enable_connection_aborted then 1 else 0, optlen, clear_ec ec, w))
      else
        let ((result, errno), optval', optlen', w') = k_getsockopt K s opt optval optlen w;
            ec' = get_last_error ec (result \<noteq> 0) errno
        in if result = 0 \<and> optlen' = 4 \<and> (opt = Send_Buffer_Size \<or> opt = Receive_Buffer_Size)
           then (result, if optval' < 0 then - (- optval' div 2) else optval' div 2, optlen', ec', w')
           else (result, optval', optlen', ec', w'))"

definition sync_connect :: "'w kernel \<Rightarrow> socket_type \<Rightarrow> sockaddr \<Rightarrow> error_code \<Rightarrow> 'w \<Rightarrow> error_code \<times> 'w" where
  "sync_connect K s addr ec w =
     (let (_, ec1, w1) = connect K s addr ec w
      in if ec1 \<noteq> basic_ec in_progress \<and> ec1 \<noteq> basic_ec would_block then (ec1, w1)
         else let (ready, ec2, w2) = poll_connect K s (-1) ec1 w1
              in if ready < 0 then (ec2, w2)
                 else let (result, connect_error, _, ec3, w3) = getsockopt K s 0 So_Error 0 4 ec2 w2
                      in if result = socket_error_retval then (ec3, w3)
                         else (\<lparr>ec_value = connect_error, ec_category = System_Category\<rparr>, w3))"

definition non_blocking_connect :: "'w kernel \<Rightarrow> socket_type \<Rightarrow> error_code \<Rightarrow> 'w \<Rightarrow> bool \<times> error_code \<times> 'w" where
  "non_blocking_connect K s ec w =
     (let ((ready, _), w1) = k_poll K s POLLOUT 0 w
      in if ready = 0 then (False, ec, w1)
         else let (result, connect_error, _, ec2, w2) = getsockopt K s 0 So_Error 0 4 ec w1
              in (True,
                  if result = 0
                  then if connect_error \<noteq> 0 then \<lparr>ec_value = connect_error, ec_category = System_Category\<rparr>
                       else clear_ec ec2
                  else ec2, w2))"

section \<open>Receiving\<close>

definition recv :: "'w kernel \<Rightarrow> socket_type \<Rightarrow> buffer list \<Rightarrow> int \<Rightarrow> error_code \<Rightarrow> 'w \<Rightarrow> int \<times> error_code \<times> 'w" where
  "recv K s bufs flags ec w =
     (let ((result, errno), w') = k_recvmsg K s bufs flags w
      in (result, get_last_error ec (result < 0) errno, w'))"

definition recv1 :: "'w kernel \<Rightarrow> socket_type \<Rightarrow> buffer \<Rightarrow> int \<Rightarrow> error_code \<Rightarrow> 'w \<Rightarrow> int \<times> error_code \<times> 'w" where
  "recv1 K s buf flags ec w =
     (let ((result, errno), w') = k_recv K s buf flags w
      in (result, get_last_error ec (result < 0) errno, w'))"

text \<open>The loop of \<open>sync_recv\<close> and the function around it.\<close>

partial_function (option) sync_recv_loop ::
  "'w kernel \<Rightarrow> socket_type \<Rightarrow> state_type \<Rightarrow> buffer list \<Rightarrow> int \<Rightarrow> error_code \<Rightarrow> 'w \<Rightarrow> (nat \<times> error_code \<times> 'w) option" where
  [code]: "sync_recv_loop K s state bufs flags ec w =
     (let (bytes, ec1, w1) = recv K s bufs flags ec w
      in if has_flag state stream_oriented \<and> bytes = 0 then Some (0, misc_ec eof, w1)
         else if bytes \<ge> 0 then Some (nat bytes, ec1, w1)
         else if has_flag state user_set_non_blocking \<or> \<not> is_blocking_error ec1 then Some (0, ec1, w1)
         else let (ready, ec2, w2) = poll_read K s 0 (-1) ec1 w1
              in if ready < 0 then Some (0, ec2, w2) else sync_recv_loop K s state bufs flags ec2 w2)"

definition sync_recv ::
  "'w kernel \<Rightarrow> socket_type \<Rightarrow> state_type \<Rightarrow> buffer list \<Rightarrow> int \<Rightarrow> bool \<Rightarrow> error_code \<Rightarrow> 'w \<Rightarrow>
   (nat \<times> error_code \<times> 'w) option" where
  "sync_recv K s state bufs flags all_empty ec w =
     (if s = invalid_socket then Some (0, basic_ec bad_descriptor, w)
      else if all_empty \<and> has_flag state stream_oriented then Some (0, clear_ec ec, w)
      else sync_recv_loop K s state bufs flags ec w)"

partial_function (option) sync_recv1_loop ::
  "'w kernel \<Rightarrow> socket_type \<Rightarrow> state_type \<Rightarrow> buffer \<Rightarrow> int \<Rightarrow> error_code \<Rightarrow> 'w \<Rightarrow> (nat \<times> error_code \<times> 'w) option" where
  [code]: "sync_recv1_loop K s state buf flags ec w =
     (let (bytes, ec1, w1) = recv1 K s buf flags ec w
      in if has_flag state stream_oriented \<and> bytes = 0 then Some (0, misc_ec eof, w1)
         else if bytes \<ge> 0 then Some (nat bytes, ec1, w1)
         else if has_flag state user_set_non_blocking \<or> \<not> is_blocking_error ec1 then Some (0, ec1, w1)
         else let (ready, ec2, w2) = poll_read K s 0 (-1) ec1 w1
              in if ready < 0 then Some (0, ec2, w2) else sync_recv1_loop K s state buf flags ec2 w2)"

definition sync_recv1 ::
  "'w kernel \<Rightarrow> socket_type \<Rightarrow> state_type \<Rightarrow> buffer \<Rightarrow> int \<Rightarrow> error_code \<Rightarrow> 'w \<Rightarrow> (nat \<times> error_code \<times> 'w) option" where
  "sync_recv1 K s state buf flags ec w =
     (if s = invalid_socket then Some (0, basic_ec bad_descriptor, w)
      else if buffer_size [buf] = 0 \<and> has_flag state stream_oriented then Some (0, clear_ec ec, w)
      else sync_recv1_loop K s state buf flags ec w)"

text \<open>
  \<open>bytes_transferred\<close> is an in-out parameter: an end of file and a retry leave it as it was.
\<close>

partial_function (option) non_blocking_recv ::
  "'w kernel \<Rightarrow> socket_type \<Rightarrow> buffer list \<Rightarrow> int \<Rightarrow> bool \<Rightarrow> error_code \<Rightarrow> nat \<Rightarrow> 'w \<Rightarrow>
   (bool \<times> error_code \<times> nat \<times> 'w) option" where
  [code]: "non_blocking_recv K s bufs flags is_stream ec bytes_transferred w =
     (let (bytes, ec1, w1) = recv K s bufs flags ec w
      in if is_stream \<and> bytes = 0 then Some (True, misc_ec eof, bytes_transferred, w1)
         else if bytes \<ge> 0 then Some (True, ec1, nat bytes, w1)
         else if ec1 = basic_ec interrupted
              then non_blocking_recv K s bufs flags is_stream ec1 bytes_transferred w1
         else if is_blocking_error ec1 then Some (False, ec1, bytes_transferred, w1)
         else Some (True, ec1, 0, w1))"

partial_function (option) non_blocking_recv1 ::
  "'w kernel \<Rightarrow> socket_type \<Rightarrow> buffer \<Rightarrow> int \<Rightarrow> bool \<Rightarrow> error_code \<Rightarrow> nat \<Rightarrow> 'w \<Rightarrow>
   (bool \<times> error_code \<times> nat \<times> 'w) option" where
  [code]: "non_blocking_recv1 K s buf flags is_stream ec bytes_transferred w =
     (let (bytes, ec1, w1) = recv1 K s buf flags ec w
      in if is_stream \<and> bytes = 0 then Some (True, misc_ec eof, bytes_transferred, w1)
         else if bytes \<ge> 0 then Some (True, ec1, nat bytes, w1)
         else if ec1 = basic_ec interrupted
              then non_blocking_recv1 K s buf flags is_stream ec1 bytes_transferred w1
         else if is_blocking_error ec1 then Some (False, ec1, bytes_transferred, w1)
         else Some (True, ec1, 0, w1))"

section \<open>Sending\<close>

definition send :: "'w kernel \<Rightarrow> socket_type \<Rightarrow> buffer list \<Rightarrow> int \<Rightarrow> error_code \<Rightarrow> 'w \<Rightarrow> int \<times> error_code \<times> 'w" where
  "send K s bufs flags ec w =
     (let ((result, errno), w') = k_sendmsg K s bufs (flags OR msg_nosignal) w
      in (result, get_last_error ec (result < 0) errno, w'))"

definition send1 :: "'w kernel \<Rightarrow> socket_type \<Rightarrow> buffer \<Rightarrow> int \<Rightarrow> error_code \<Rightarrow> 'w \<Rightarrow> int \<times> error_code \<times> 'w" where
  "send1 K s buf flags ec w =
     (let ((result, errno), w') = k_send K s buf (flags OR msg_nosignal) w
      in (result, get_last_error ec (result < 0) errno, w'))"

partial_function (option) sync_send_loop ::
  "'w kernel \<Rightarrow> socket_type \<Rightarrow> state_type \<Rightarrow> buffer list \<Rightarrow> int \<Rightarrow> error_code \<Rightarrow> 'w \<Rightarrow> (nat \<times> error_code \<times> 'w) option" where
  [code]: "sync_send_loop K s state bufs flags ec w =
     (let (bytes, ec1, w1) = send K s bufs flags ec w
      in if bytes \<ge> 0 then Some (nat bytes, ec1, w1)
         else if has_flag state user_set_non_blocking \<or> \<not> is_blocking_error ec1 then Some (0, ec1, w1)
         else let (ready, ec2, w2) = poll_write K s 0 (-1) ec1 w1
              in if ready < 0 then Some (0, ec2, w2) else sync_send_loop K s state bufs flags ec2 w2)"

definition sync_send ::
  "'w kernel \<Rightarrow> socket_type \<Rightarrow> state_type \<Rightarrow> buffer list \<Rightarrow> int \<Rightarrow> bool \<Rightarrow> error_code \<Rightarrow> 'w \<Rightarrow>
   (nat \<times> error_code \<times> 'w) option" where
  "sync_send K s state bufs flags all_empty ec w =
     (if s = invalid_socket then Some (0, basic_ec bad_descriptor, w)
      else if all_empty \<and> has_flag state stream_oriented then Some (0, clear_ec ec, w)
      else sync_send_loop K s state bufs flags ec w)"

partial_function (option) sync_send1_loop ::
  "'w kernel \<Rightarrow> socket_type \<Rightarrow> state_type \<Rightarrow> buffer \<Rightarrow> int \<Rightarrow> error_code \<Rightarrow> 'w \<Rightarrow> (nat \<times> error_code \<times> 'w) option" where
  [code]: "sync_send1_loop K s state buf flags ec w =
     (let (bytes, ec1, w1) = send1 K s buf flags ec w
      in if bytes \<ge> 0 then Some (nat bytes, ec1, w1)
         else if has_flag state user_set_non_blocking \<or> \<not> is_blocking_error ec1 then Some (0, ec1, w1)
         else let (ready, ec2, w2) = poll_write K s 0 (-1) ec1 w1
              in if ready < 0 then Some (0, ec2, w2) else sync_send1_loop K s state buf flags ec2 w2)"

definition sync_send1 ::
  "'w kernel \<Rightarrow> socket_type \<Rightarrow> state_type \<Rightarrow> buffer \<Rightarrow> int \<Rightarrow> error_code \<Rightarrow> 'w \<Rightarrow> (nat \<times> error_code \<times> 'w) option" where
  "sync_send1 K s state buf flags ec w =
     (if s = invalid_socket then Some (0, basic_ec bad_descriptor, w)
      else if buffer_size [buf] = 0 \<and> has_flag state stream_oriented then Some (0, clear_ec ec, w)
      else sync_send1_loop K s state buf flags ec w)"

partial_function (option) non_blocking_send ::
  "'w kernel \<Rightarrow> socket_type \<Rightarrow> buffer list \<Rightarrow> int \<Rightarrow> error_code \<Rightarrow> nat \<Rightarrow> 'w \<Rightarrow>
   (bool \<times> error_code \<times> nat \<times> 'w) option" where
  [code]: "non_blocking_send K s bufs flags ec bytes_transferred w =
     (let (bytes, ec1, w1) = send K s bufs flags ec w
      in if bytes \<ge> 0 then Some (True, ec1, nat bytes, w1)
         else if ec1 = basic_ec interrupted
              then non_blocking_send K s bufs flags ec1 bytes_transferred w1
         else if is_blocking_error ec1 then Some (False, ec1, bytes_transferred, w1)
         else Some (True, ec1, 0, w1))"

partial_function (option) non_blocking_send1 ::
  "'w kernel \<Rightarrow> socket_type \<Rightarrow> buffer \<Rightarrow> int \<Rightarrow> error_code \<Rightarrow> nat \<Rightarrow> 'w \<Rightarrow>
   (bool \<times> error_code \<times> nat \<times> 'w) option" where
  [code]: "non_blocking_send1 K s buf flags ec bytes_transferred w =
     (let (bytes, ec1, w1) = send1 K s buf flags ec w
      in if bytes \<ge> 0 then Some (True, ec1, nat bytes, w1)
         else if ec1 = basic_ec interrupted
              then non_blocking_send1 K s buf flags ec1 bytes_transferred w1
         else if is_blocking_error ec1 then Some (False, ec1, bytes_transferred, w1)
         else Some (True, ec1, 0, w1))"

section \<open>Lemmas\<close>

lemma flag_bits [simp]:
  "has_flag state user_set_non_blocking \<longleftrightarrow> bit state 0"
  "has_flag state internal_non_blocking \<longleftrightarrow> bit state (Suc 0)"
  "has_flag state enable_connection_aborted \<longleftrightarrow> bit state 2"
  "has_flag state user_set_linger \<longleftrightarrow> bit state 3"
  "has_flag state stream_oriented \<longleftrightarrow> bit state 4"
  using and_exp_eq_0_iff_not_bit [of state 0] and_exp_eq_0_iff_not_bit [of state 1]
    and_exp_eq_0_iff_not_bit [of state 2] and_exp_eq_0_iff_not_bit [of state 3]
    and_exp_eq_0_iff_not_bit [of state 4]
  by (simp_all add: has_flag_def user_set_non_blocking_def internal_non_blocking_def
      enable_connection_aborted_def user_set_linger_def stream_oriented_def)

lemma non_blocking_flag [simp]: "has_flag state non_blocking \<longleftrightarrow> bit state 0 \<or> bit state (Suc 0)"
proof -
  have "state AND non_blocking =
      (state AND user_set_non_blocking) OR (state AND internal_non_blocking)"
    by (simp add: non_blocking_def bit.conj_disj_distrib)
  then show ?thesis
    using flag_bits(1,2) [of state] by (simp add: has_flag_def or_eq_0_iff)
qed

lemma clear_not_basic [simp]: "clear_ec ec \<noteq> basic_ec b"
  by (metis failed_basic_ec not_failed_no_error(2))

lemma basic_ec_eq [simp]:
  "basic_ec a = basic_ec b \<longleftrightarrow> basic_value a = basic_value b" "ec_value (basic_ec b) = basic_value b"
  by (simp_all add: basic_ec_def)

lemma last_error_iff [simp]:
  "get_last_error ec failure errno = basic_ec b \<longleftrightarrow> failure \<and> errno = basic_value b"
  by (cases failure) (simp add: get_last_error_def basic_ec_def, simp add: get_last_error_def)

lemma last_error_value [simp]:
  "ec_value (clear_ec ec) = 0" "ec_value (get_last_error ec failure errno) = (if failure then errno else 0)"
  by (simp_all add: get_last_error_def clear_ec_def)

lemma not_blocking_misc [simp]: "\<not> is_blocking_error (misc_ec e)" "\<not> is_blocking_error (clear_ec ec)"
  by (auto simp: is_blocking_error_def)

lemma blocking_error_iff [simp]:
  "is_blocking_error (get_last_error ec failure errno) \<longleftrightarrow> failure \<and> errno = 11"
  by (auto simp: is_blocking_error_def)

lemma failed_last_error [simp]:
  "failed (get_last_error ec failure errno) \<longleftrightarrow> failure \<and> errno \<noteq> 0"
  by (simp add: failed_def get_last_error_def clear_ec_def)

text \<open>
  A loop that tries again until a round settles it. \<open>settles step n x\<close>: one of the first \<open>n + 1\<close>
  rounds does.
\<close>

fun settles :: "('s \<Rightarrow> 'r + 's) \<Rightarrow> nat \<Rightarrow> 's \<Rightarrow> bool" where
  "settles step 0 x \<longleftrightarrow> (case step x of Inl r \<Rightarrow> True | Inr y \<Rightarrow> False)"
| "settles step (Suc n) x \<longleftrightarrow> (case step x of Inl r \<Rightarrow> True | Inr y \<Rightarrow> settles step n y)"

lemma settlesI:
  "(case step x of Inl r \<Rightarrow> True | Inr y \<Rightarrow> \<exists>n. settles step n y) \<Longrightarrow> \<exists>n. settles step n x"
  by (auto split: sum.splits intro: exI [of _ 0] exI [of _ "Suc n" for n])

locale retrying =
  fixes loop :: "'s \<Rightarrow> 'r option" and step :: "'s \<Rightarrow> 'r + 's"
  assumes unfold_loop: "loop x = (case step x of Inl r \<Rightarrow> Some r | Inr y \<Rightarrow> loop y)"
    and loop_settles: "loop x = Some r \<Longrightarrow> \<exists>n. settles step n x"
begin

lemma loop_result:
  assumes "settles step n x" and "\<And>x r. step x = Inl r \<Longrightarrow> P r"
  shows "\<exists>r. loop x = Some r \<and> P r"
  using assms(1)
proof (induction n arbitrary: x)
  case 0
  then show ?case
    using assms(2) by (subst unfold_loop) (auto split: sum.splits)
next
  case (Suc n)
  then show ?case
    using assms(2) by (subst unfold_loop) (auto split: sum.splits)
qed

lemma loop_invariant:
  assumes "loop x = Some r" "I x" and "\<And>x y. I x \<Longrightarrow> step x = Inr y \<Longrightarrow> I y" "\<And>x r. I x \<Longrightarrow> step x = Inl r \<Longrightarrow> P r"
  shows "P r"
proof -
  obtain n where "settles step n x"
    using loop_settles [OF assms(1)] by blast
  then show ?thesis
    using assms(1,2)
  proof (induction n arbitrary: x)
    case 0
    then show ?case
      using assms(4) [of x] by (auto simp: unfold_loop [of x] split: sum.splits)
  next
    case (Suc n)
    then show ?case
      using assms(3,4) [of x] by (auto simp: unfold_loop [of x] split: sum.splits)
  qed
qed

end

section \<open>The receive loop\<close>

text \<open>
  What POSIX documents for a stream: \<open>recvmsg\<close> stores no more than there is room for, \<open>sendmsg\<close>
  takes no more than it is given and at least one byte if it is given any, a call that fails sets
  \<open>errno\<close>, and \<open>poll\<close> does not fail with \<open>EAGAIN\<close>.
\<close>

definition recv_law :: "'w kernel \<Rightarrow> socket_type \<Rightarrow> buffer list \<Rightarrow> bool" where
  "recv_law K s bufs \<longleftrightarrow> (\<forall>flags w r errno w'. k_recvmsg K s bufs flags w = ((r, errno), w') \<longrightarrow>
     r \<le> int (buffer_size bufs) \<and> (r < 0 \<longrightarrow> errno \<noteq> 0))"

definition send_law :: "'w kernel \<Rightarrow> socket_type \<Rightarrow> buffer list \<Rightarrow> bool" where
  "send_law K s bufs \<longleftrightarrow> (\<forall>flags w r errno w'. k_sendmsg K s bufs flags w = ((r, errno), w') \<longrightarrow>
     r \<le> int (buffer_size bufs) \<and> (r = 0 \<longrightarrow> buffer_size bufs = 0) \<and> (r < 0 \<longrightarrow> errno \<noteq> 0))"

definition poll_law :: "'w kernel \<Rightarrow> socket_type \<Rightarrow> bool" where
  "poll_law K s \<longleftrightarrow> (\<forall>events timeout w r errno w'. k_poll K s events timeout w = ((r, errno), w') \<longrightarrow>
     r < 0 \<longrightarrow> errno \<noteq> 0 \<and> errno \<noteq> 11)"

text \<open>
  The system lets a transfer through: after at most \<open>n\<close> rounds in which the call would block and
  \<open>poll\<close> reports readiness, the call ends otherwise, or \<open>poll\<close> fails.
\<close>

fun becomes_ready :: "'w call \<Rightarrow> 'w call \<Rightarrow> nat \<Rightarrow> 'w \<Rightarrow> bool" where
  "becomes_ready call poll n w =
     (let ((r, errno), w1) = call w; ((ready, _), w2) = poll w1
      in \<not> (r < 0 \<and> errno = 11) \<or> ready < 0 \<or>
         (case n of 0 \<Rightarrow> False | Suc m \<Rightarrow> becomes_ready call poll m w2))"

declare becomes_ready.simps [simp del]

definition recv_step ::
  "'w kernel \<Rightarrow> socket_type \<Rightarrow> state_type \<Rightarrow> buffer list \<Rightarrow> int \<Rightarrow> error_code \<times> 'w \<Rightarrow>
   (nat \<times> error_code \<times> 'w) + (error_code \<times> 'w)" where
  "recv_step K s state bufs flags x =
     (let (bytes, ec1, w1) = recv K s bufs flags (fst x) (snd x)
      in if has_flag state stream_oriented \<and> bytes = 0 then Inl (0, misc_ec eof, w1)
         else if bytes \<ge> 0 then Inl (nat bytes, ec1, w1)
         else if has_flag state user_set_non_blocking \<or> \<not> is_blocking_error ec1 then Inl (0, ec1, w1)
         else let (ready, ec2, w2) = poll_read K s 0 (-1) ec1 w1
              in if ready < 0 then Inl (0, ec2, w2) else Inr (ec2, w2))"

definition send_step ::
  "'w kernel \<Rightarrow> socket_type \<Rightarrow> state_type \<Rightarrow> buffer list \<Rightarrow> int \<Rightarrow> error_code \<times> 'w \<Rightarrow>
   (nat \<times> error_code \<times> 'w) + (error_code \<times> 'w)" where
  "send_step K s state bufs flags x =
     (let (bytes, ec1, w1) = send K s bufs flags (fst x) (snd x)
      in if bytes \<ge> 0 then Inl (nat bytes, ec1, w1)
         else if has_flag state user_set_non_blocking \<or> \<not> is_blocking_error ec1 then Inl (0, ec1, w1)
         else let (ready, ec2, w2) = poll_write K s 0 (-1) ec1 w1
              in if ready < 0 then Inl (0, ec2, w2) else Inr (ec2, w2))"

lemma sync_recv_loop_settles:
  assumes "sync_recv_loop K s state bufs flags ec w = Some r"
  shows "\<exists>n. settles (recv_step K s state bufs flags) n (ec, w)"
  by (rule sync_recv_loop.raw_induct [where
        P = "\<lambda>K s state bufs flags ec w r. \<exists>n. settles (recv_step K s state bufs flags) n (ec, w)", OF _ assms])
     (auto intro!: settlesI simp: recv_step_def Let_def split: prod.splits if_splits)

interpretation recv_retry: retrying
  "\<lambda>(ec, w). sync_recv_loop K s state bufs flags ec w" "recv_step K s state bufs flags"
  for K s state bufs flags
proof unfold_locales
qed (auto simp: sync_recv_loop_settles, auto simp: recv_step_def Let_def sync_recv_loop.simps split: prod.splits)

lemma sync_send_loop_settles:
  assumes "sync_send_loop K s state bufs flags ec w = Some r"
  shows "\<exists>n. settles (send_step K s state bufs flags) n (ec, w)"
  by (rule sync_send_loop.raw_induct [where
        P = "\<lambda>K s state bufs flags ec w r. \<exists>n. settles (send_step K s state bufs flags) n (ec, w)", OF _ assms])
     (auto intro!: settlesI simp: send_step_def Let_def split: prod.splits if_splits)

interpretation send_retry: retrying
  "\<lambda>(ec, w). sync_send_loop K s state bufs flags ec w" "send_step K s state bufs flags"
  for K s state bufs flags
proof unfold_locales
qed (auto simp: sync_send_loop_settles, auto simp: send_step_def Let_def sync_send_loop.simps split: prod.splits)

lemma recv_step_contract:
  assumes "recv_step K s state bufs flags x = Inl (n, ec, w)" "recv_law K s bufs" "poll_law K s"
    and "bit state 4" "s \<noteq> invalid_socket"
  shows "stream_completion bufs (ec, n) \<and> (\<not> bit state 0 \<longrightarrow> \<not> is_blocking_error ec)"
proof -
  obtain r errno w1 where call: "k_recvmsg K s bufs flags (snd x) = ((r, errno), w1)"
    by (metis prod.exhaust)
  obtain ready errno' w2 where poll: "k_poll K s POLLIN (-1) w1 = ((ready, errno'), w2)"
    by (metis prod.exhaust)
  have "r \<le> int (buffer_size bufs)" "r < 0 \<longrightarrow> errno \<noteq> 0"
    "ready < 0 \<longrightarrow> errno' \<noteq> 0 \<and> errno' \<noteq> 11"
    using assms(2) call assms(3) poll unfolding recv_law_def poll_law_def by blast+
  then show ?thesis
    using assms(1,4,5) call poll
    by (auto simp: recv_step_def recv_def poll_read_def stream_completion_def split: if_splits)
qed

lemma send_step_contract:
  assumes "send_step K s state bufs flags x = Inl (n, ec, w)" "send_law K s bufs" "poll_law K s"
    and "s \<noteq> invalid_socket"
  shows "stream_completion bufs (ec, n) \<and> (\<not> bit state 0 \<longrightarrow> \<not> is_blocking_error ec)"
proof -
  obtain r errno w1 where call: "k_sendmsg K s bufs (flags OR msg_nosignal) (snd x) = ((r, errno), w1)"
    by (metis prod.exhaust)
  obtain ready errno' w2 where poll: "k_poll K s POLLOUT (-1) w1 = ((ready, errno'), w2)"
    by (metis prod.exhaust)
  have "r \<le> int (buffer_size bufs)" "r = 0 \<longrightarrow> buffer_size bufs = 0" "r < 0 \<longrightarrow> errno \<noteq> 0"
    "ready < 0 \<longrightarrow> errno' \<noteq> 0 \<and> errno' \<noteq> 11"
    using assms(2) call assms(3) poll unfolding send_law_def poll_law_def by blast+
  then show ?thesis
    using assms(1,4) call poll
    by (auto simp: send_step_def send_def poll_write_def stream_completion_def split: if_splits)
qed

lemma recv_settles:
  assumes "becomes_ready (k_recvmsg K s bufs flags) (k_poll K s POLLIN (-1)) n w" "s \<noteq> invalid_socket"
  shows "settles (recv_step K s state bufs flags) n (ec, w)"
  using assms(1)
proof (induction n arbitrary: ec w)
  case 0
  then show ?case
    using assms(2)
    by (auto simp: becomes_ready.simps [of _ _ 0] recv_step_def recv_def poll_read_def Let_def split: prod.splits)
next
  case (Suc n)
  then show ?case
    using assms(2)
    by (auto simp: becomes_ready.simps [of _ _ "Suc n"] recv_step_def recv_def poll_read_def Let_def split: prod.splits)
qed

lemma send_settles:
  assumes "becomes_ready (k_sendmsg K s bufs (flags OR msg_nosignal)) (k_poll K s POLLOUT (-1)) n w"
    "s \<noteq> invalid_socket"
  shows "settles (send_step K s state bufs flags) n (ec, w)"
  using assms(1)
proof (induction n arbitrary: ec w)
  case 0
  then show ?case
    using assms(2)
    by (auto simp: becomes_ready.simps [of _ _ 0] send_step_def send_def poll_write_def Let_def split: prod.splits)
next
  case (Suc n)
  then show ?case
    using assms(2)
    by (auto simp: becomes_ready.simps [of _ _ "Suc n"] send_step_def send_def poll_write_def Let_def split: prod.splits)
qed

text \<open>
  A blocking receive on a stream socket returns as soon as the system lets it, and it reports
  what the composed operations rely on: no more bytes than there is room for, 0 bytes without an
  error only if there is no room, the end of the stream as an error, and never \<open>would_block\<close>
  unless the user asked for a non-blocking socket.
\<close>

lemma sync_recv_contract:
  assumes "s \<noteq> invalid_socket" "has_flag state stream_oriented"
    and "recv_law K s bufs" "poll_law K s"
    and "becomes_ready (k_recvmsg K s bufs flags) (k_poll K s POLLIN (-1)) n w"
  shows "\<exists>bytes ec' w'. sync_recv K s state bufs flags (buffer_size bufs = 0) ec w = Some (bytes, ec', w') \<and>
     stream_completion bufs (ec', bytes) \<and>
     (is_blocking_error ec' \<longrightarrow> has_flag state user_set_non_blocking)"
proof -
  have "\<exists>r. sync_recv_loop K s state bufs flags ec w = Some r \<and>
      stream_completion bufs (fst (snd r), fst r) \<and> (\<not> bit state 0 \<longrightarrow> \<not> is_blocking_error (fst (snd r)))"
    using recv_retry.loop_result [where P = "\<lambda>r. stream_completion bufs (fst (snd r), fst r) \<and>
          (\<not> bit state 0 \<longrightarrow> \<not> is_blocking_error (fst (snd r)))", OF recv_settles [OF assms(5,1)], of state ec]
      recv_step_contract [OF _ assms(3,4) _ assms(1)] assms(2)
    by (force simp del: buffer_size_extents)
  then show ?thesis
    using assms(1,2) by (auto simp: sync_recv_def stream_completion_def)
qed

text \<open>
  The same for a blocking send, whose data goes out with \<open>MSG_NOSIGNAL\<close>.
\<close>

lemma sync_send_contract:
  assumes "s \<noteq> invalid_socket" "has_flag state stream_oriented"
    and "send_law K s bufs" "poll_law K s"
    and "becomes_ready (k_sendmsg K s bufs (flags OR msg_nosignal)) (k_poll K s POLLOUT (-1)) n w"
  shows "\<exists>bytes ec' w'. sync_send K s state bufs flags (buffer_size bufs = 0) ec w = Some (bytes, ec', w') \<and>
     stream_completion bufs (ec', bytes) \<and>
     (is_blocking_error ec' \<longrightarrow> has_flag state user_set_non_blocking)"
proof -
  have "\<exists>r. sync_send_loop K s state bufs flags ec w = Some r \<and>
      stream_completion bufs (fst (snd r), fst r) \<and> (\<not> bit state 0 \<longrightarrow> \<not> is_blocking_error (fst (snd r)))"
    using send_retry.loop_result [where P = "\<lambda>r. stream_completion bufs (fst (snd r), fst r) \<and>
          (\<not> bit state 0 \<longrightarrow> \<not> is_blocking_error (fst (snd r)))", OF send_settles [OF assms(5,1)], of state ec]
      send_step_contract [OF _ assms(3,4,1)]
    by (force simp del: buffer_size_extents)
  then show ?thesis
    using assms(1,2) by (auto simp: sync_send_def stream_completion_def)
qed

section \<open>Operations of the reactor\<close>

text \<open>The call is interrupted by signals at most \<open>n\<close> times in a row.\<close>

fun interruptions_end :: "'w call \<Rightarrow> nat \<Rightarrow> 'w \<Rightarrow> bool" where
  "interruptions_end call n w =
     (let ((r, errno), w1) = call w
      in \<not> (r < 0 \<and> errno = 4) \<or> (case n of 0 \<Rightarrow> False | Suc m \<Rightarrow> interruptions_end call m w1))"

declare interruptions_end.simps [simp del]

definition nb_recv_step ::
  "'w kernel \<Rightarrow> socket_type \<Rightarrow> buffer list \<Rightarrow> int \<Rightarrow> bool \<Rightarrow> nat \<Rightarrow> error_code \<times> 'w \<Rightarrow>
   (bool \<times> error_code \<times> nat \<times> 'w) + (error_code \<times> 'w)" where
  "nb_recv_step K s bufs flags is_stream bytes_transferred x =
     (let (bytes, ec1, w1) = recv K s bufs flags (fst x) (snd x)
      in if is_stream \<and> bytes = 0 then Inl (True, misc_ec eof, bytes_transferred, w1)
         else if bytes \<ge> 0 then Inl (True, ec1, nat bytes, w1)
         else if ec1 = basic_ec interrupted then Inr (ec1, w1)
         else if is_blocking_error ec1 then Inl (False, ec1, bytes_transferred, w1)
         else Inl (True, ec1, 0, w1))"

definition nb_send_step ::
  "'w kernel \<Rightarrow> socket_type \<Rightarrow> buffer list \<Rightarrow> int \<Rightarrow> nat \<Rightarrow> error_code \<times> 'w \<Rightarrow>
   (bool \<times> error_code \<times> nat \<times> 'w) + (error_code \<times> 'w)" where
  "nb_send_step K s bufs flags bytes_transferred x =
     (let (bytes, ec1, w1) = send K s bufs flags (fst x) (snd x)
      in if bytes \<ge> 0 then Inl (True, ec1, nat bytes, w1)
         else if ec1 = basic_ec interrupted then Inr (ec1, w1)
         else if is_blocking_error ec1 then Inl (False, ec1, bytes_transferred, w1)
         else Inl (True, ec1, 0, w1))"

lemma non_blocking_recv_settles:
  assumes "non_blocking_recv K s bufs flags is_stream ec k w = Some r"
  shows "\<exists>n. settles (nb_recv_step K s bufs flags is_stream k) n (ec, w)"
  by (rule non_blocking_recv.raw_induct [where
        P = "\<lambda>K s bufs flags is_stream ec k w r. \<exists>n. settles (nb_recv_step K s bufs flags is_stream k) n (ec, w)", OF _ assms])
     (auto intro!: settlesI simp: nb_recv_step_def Let_def split: prod.splits if_splits)

interpretation nb_recv_retry: retrying
  "\<lambda>(ec, w). non_blocking_recv K s bufs flags is_stream ec k w" "nb_recv_step K s bufs flags is_stream k"
  for K s bufs flags is_stream k
proof unfold_locales
qed (auto simp: non_blocking_recv_settles, auto simp: nb_recv_step_def Let_def non_blocking_recv.simps split: prod.splits)

lemma non_blocking_send_settles:
  assumes "non_blocking_send K s bufs flags ec k w = Some r"
  shows "\<exists>n. settles (nb_send_step K s bufs flags k) n (ec, w)"
  by (rule non_blocking_send.raw_induct [where
        P = "\<lambda>K s bufs flags ec k w r. \<exists>n. settles (nb_send_step K s bufs flags k) n (ec, w)", OF _ assms])
     (auto intro!: settlesI simp: nb_send_step_def Let_def split: prod.splits if_splits)

interpretation nb_send_retry: retrying
  "\<lambda>(ec, w). non_blocking_send K s bufs flags ec k w" "nb_send_step K s bufs flags k"
  for K s bufs flags k
proof unfold_locales
qed (auto simp: non_blocking_send_settles, auto simp: nb_send_step_def Let_def non_blocking_send.simps split: prod.splits)

lemma nb_recv_settles:
  "interruptions_end (k_recvmsg K s bufs flags) n w \<Longrightarrow> settles (nb_recv_step K s bufs flags is_stream k) n (ec, w)"
proof (induction n arbitrary: ec w)
  case 0
  then show ?case
    by (auto simp: interruptions_end.simps [of _ 0] nb_recv_step_def recv_def Let_def split: prod.splits)
next
  case (Suc n)
  then show ?case
    by (auto simp: interruptions_end.simps [of _ "Suc n"] nb_recv_step_def recv_def Let_def split: prod.splits)
qed

lemma nb_send_settles:
  "interruptions_end (k_sendmsg K s bufs (flags OR msg_nosignal)) n w \<Longrightarrow> settles (nb_send_step K s bufs flags k) n (ec, w)"
proof (induction n arbitrary: ec w)
  case 0
  then show ?case
    by (auto simp: interruptions_end.simps [of _ 0] nb_send_step_def send_def Let_def split: prod.splits)
next
  case (Suc n)
  then show ?case
    by (auto simp: interruptions_end.simps [of _ "Suc n"] nb_send_step_def send_def Let_def split: prod.splits)
qed

text \<open>
  What an attempt reports: a transfer that keeps to the contract of a stream, or that the
  operation has to wait, with the count untouched; an interruption is never reported.
\<close>

definition attempt_ok :: "buffer list \<Rightarrow> nat \<Rightarrow> bool \<times> error_code \<times> nat \<times> 'w \<Rightarrow> bool" where
  "attempt_ok bufs k r \<longleftrightarrow> (case r of (finished, ec, bytes, _) \<Rightarrow>
     ec \<noteq> basic_ec interrupted \<and>
     (if finished then stream_completion bufs (ec, bytes) \<and> \<not> is_blocking_error ec
      else is_blocking_error ec \<and> bytes = k))"

lemma nb_recv_step_ok:
  assumes "nb_recv_step K s bufs flags True k x = Inl r" "recv_law K s bufs" "k \<le> buffer_size bufs"
  shows "attempt_ok bufs k r"
proof -
  obtain n errno w1 where call: "k_recvmsg K s bufs flags (snd x) = ((n, errno), w1)"
    by (metis prod.exhaust)
  have "n \<le> int (buffer_size bufs)" "n < 0 \<longrightarrow> errno \<noteq> 0"
    using assms(2) call unfolding recv_law_def by blast+
  then show ?thesis
    using assms(1,3) call
    by (auto simp: nb_recv_step_def recv_def attempt_ok_def stream_completion_def split: if_splits)
qed

lemma nb_send_step_ok:
  assumes "nb_send_step K s bufs flags k x = Inl r" "send_law K s bufs"
  shows "attempt_ok bufs k r"
proof -
  obtain n errno w1 where call: "k_sendmsg K s bufs (flags OR msg_nosignal) (snd x) = ((n, errno), w1)"
    by (metis prod.exhaust)
  have "n \<le> int (buffer_size bufs)" "n = 0 \<longrightarrow> buffer_size bufs = 0" "n < 0 \<longrightarrow> errno \<noteq> 0"
    using assms(2) call unfolding send_law_def by blast+
  then show ?thesis
    using assms(1) call
    by (auto simp: nb_send_step_def send_def attempt_ok_def stream_completion_def split: if_splits)
qed

text \<open>The same for every attempt that returns, whatever the signals do.\<close>

lemma non_blocking_recv_returns:
  assumes "non_blocking_recv K s bufs flags True ec k w = Some r" "recv_law K s bufs" "k \<le> buffer_size bufs"
  shows "attempt_ok bufs k r"
proof -
  obtain n where "settles (nb_recv_step K s bufs flags True k) n (ec, w)"
    using non_blocking_recv_settles [OF assms(1)] by blast
  from nb_recv_retry.loop_result [where P = "attempt_ok bufs k", OF this] nb_recv_step_ok [OF _ assms(2,3)]
  show ?thesis
    using assms(1) by fastforce
qed

lemma non_blocking_send_returns:
  assumes "non_blocking_send K s bufs flags ec k w = Some r" "send_law K s bufs"
  shows "attempt_ok bufs k r"
proof -
  obtain n where "settles (nb_send_step K s bufs flags k) n (ec, w)"
    using non_blocking_send_settles [OF assms(1)] by blast
  from nb_send_retry.loop_result [where P = "attempt_ok bufs k", OF this] nb_send_step_ok [OF _ assms(2)]
  show ?thesis
    using assms(1) by fastforce
qed

lemma non_blocking_recv_ok:
  assumes "recv_law K s bufs" "interruptions_end (k_recvmsg K s bufs flags) n w"
  shows "\<exists>r. non_blocking_recv K s bufs flags True ec 0 w = Some r \<and> attempt_ok bufs 0 r"
  using nb_recv_retry.loop_result [where P = "attempt_ok bufs 0", OF nb_recv_settles [OF assms(2), of True 0 ec]]
    nb_recv_step_ok [OF _ assms(1)]
  by fastforce

lemma non_blocking_send_ok:
  assumes "send_law K s bufs" "interruptions_end (k_sendmsg K s bufs (flags OR msg_nosignal)) n w"
  shows "\<exists>r. non_blocking_send K s bufs flags ec 0 w = Some r \<and> attempt_ok bufs 0 r"
  using nb_send_retry.loop_result [where P = "attempt_ok bufs 0", OF nb_send_settles [OF assms(2), of 0 ec]]
    nb_send_step_ok [OF _ assms(1)]
  by fastforce

text \<open>
  The attempts that the reactor makes for an asynchronous receive and send on a stream end
  once signals stop interrupting them; a complete one keeps to the contract of a stream, an
  incomplete one reports \<open>would_block\<close> and leaves the byte count as it was.
\<close>

lemma non_blocking_transfer_contract:
  assumes "recv_law K s bufs" "interruptions_end (k_recvmsg K s bufs flags) n w"
    and "send_law K s data" "interruptions_end (k_sendmsg K s data (flags OR msg_nosignal)) n w"
  shows "(\<exists>r. non_blocking_recv K s bufs flags True ec 0 w = Some r \<and> attempt_ok bufs 0 r) \<and>
    (\<exists>r. non_blocking_send K s data flags ec 0 w = Some r \<and> attempt_ok data 0 r)"
  using non_blocking_recv_ok [OF assms(1,2)] non_blocking_send_ok [OF assms(3,4)] by blast

section \<open>Single buffers\<close>

text \<open>What POSIX documents: \<open>recv\<close> and \<open>send\<close> are \<open>recvmsg\<close> and \<open>sendmsg\<close> with one buffer.\<close>

definition single_call_law :: "'w kernel \<Rightarrow> bool" where
  "single_call_law K \<longleftrightarrow> (\<forall>s buf flags w. k_recv K s buf flags w = k_recvmsg K s [buf] flags w \<and>
     k_send K s buf flags w = k_sendmsg K s [buf] flags w)"

lemma single_calls:
  assumes "single_call_law K"
  shows "recv1 K s buf = recv K s [buf]" "send1 K s buf = send K s [buf]"
  using assms by (simp_all add: fun_eq_iff single_call_law_def recv1_def recv_def send1_def send_def)

text \<open>The loop is determined by its step, so two loops with the same step agree.\<close>

lemma retrying_unique:
  assumes "retrying loop1 step" "retrying loop2 step"
  shows "loop1 x = loop2 x"
proof (cases "\<exists>n. settles step n x")
  case True
  then obtain n where "settles step n x" ..
  then show ?thesis
  proof (induction n arbitrary: x)
    case 0
    then show ?case
      by (subst retrying.unfold_loop [OF assms(1)], subst retrying.unfold_loop [OF assms(2)])
         (auto split: sum.splits)
  next
    case (Suc n)
    then show ?case
      by (subst retrying.unfold_loop [OF assms(1)], subst retrying.unfold_loop [OF assms(2)])
         (auto split: sum.splits)
  qed
next
  case False
  then show ?thesis
    by (metis retrying.loop_settles assms option.exhaust)
qed

lemma sync_recv1_loop_settles:
  assumes "sync_recv1_loop K s state buf flags ec w = Some r" "single_call_law K"
  shows "\<exists>n. settles (recv_step K s state [buf] flags) n (ec, w)"
proof -
  have "single_call_law K \<longrightarrow> (\<exists>n. settles (recv_step K s state [buf] flags) n (ec, w))"
    by (rule sync_recv1_loop.raw_induct [where
          P = "\<lambda>K s state buf flags ec w r. single_call_law K \<longrightarrow> (\<exists>n. settles (recv_step K s state [buf] flags) n (ec, w))", OF _ assms(1)])
       (auto intro!: settlesI simp: recv_step_def Let_def single_calls split: prod.splits if_splits)
  then show ?thesis
    using assms(2) by blast
qed

lemma sync_recv1_loop_single:
  assumes "single_call_law K"
  shows "sync_recv1_loop K s state buf flags ec w = sync_recv_loop K s state [buf] flags ec w"
proof -
  have "retrying (\<lambda>(ec, w). sync_recv1_loop K s state buf flags ec w) (recv_step K s state [buf] flags)"
    by unfold_locales
       (auto simp: sync_recv1_loop_settles [OF _ assms],
        auto simp: recv_step_def Let_def single_calls [OF assms] sync_recv1_loop.simps split: prod.splits)
  from retrying_unique [OF this recv_retry.retrying_axioms, of "(ec, w)"] show ?thesis
    by simp
qed

lemma sync_send1_loop_settles:
  assumes "sync_send1_loop K s state buf flags ec w = Some r" "single_call_law K"
  shows "\<exists>n. settles (send_step K s state [buf] flags) n (ec, w)"
proof -
  have "single_call_law K \<longrightarrow> (\<exists>n. settles (send_step K s state [buf] flags) n (ec, w))"
    by (rule sync_send1_loop.raw_induct [where
          P = "\<lambda>K s state buf flags ec w r. single_call_law K \<longrightarrow> (\<exists>n. settles (send_step K s state [buf] flags) n (ec, w))", OF _ assms(1)])
       (auto intro!: settlesI simp: send_step_def Let_def single_calls split: prod.splits if_splits)
  then show ?thesis
    using assms(2) by blast
qed

lemma sync_send1_loop_single:
  assumes "single_call_law K"
  shows "sync_send1_loop K s state buf flags ec w = sync_send_loop K s state [buf] flags ec w"
proof -
  have "retrying (\<lambda>(ec, w). sync_send1_loop K s state buf flags ec w) (send_step K s state [buf] flags)"
    by unfold_locales
       (auto simp: sync_send1_loop_settles [OF _ assms],
        auto simp: send_step_def Let_def single_calls [OF assms] sync_send1_loop.simps split: prod.splits)
  from retrying_unique [OF this send_retry.retrying_axioms, of "(ec, w)"] show ?thesis
    by simp
qed

lemma non_blocking_recv1_settles:
  assumes "non_blocking_recv1 K s buf flags is_stream ec k w = Some r" "single_call_law K"
  shows "\<exists>n. settles (nb_recv_step K s [buf] flags is_stream k) n (ec, w)"
proof -
  have "single_call_law K \<longrightarrow> (\<exists>n. settles (nb_recv_step K s [buf] flags is_stream k) n (ec, w))"
    by (rule non_blocking_recv1.raw_induct [where
          P = "\<lambda>K s buf flags is_stream ec k w r. single_call_law K \<longrightarrow> (\<exists>n. settles (nb_recv_step K s [buf] flags is_stream k) n (ec, w))", OF _ assms(1)])
       (auto intro!: settlesI simp: nb_recv_step_def Let_def single_calls split: prod.splits if_splits)
  then show ?thesis
    using assms(2) by blast
qed

lemma non_blocking_recv1_single:
  assumes "single_call_law K"
  shows "non_blocking_recv1 K s buf flags is_stream ec k w = non_blocking_recv K s [buf] flags is_stream ec k w"
proof -
  have "retrying (\<lambda>(ec, w). non_blocking_recv1 K s buf flags is_stream ec k w) (nb_recv_step K s [buf] flags is_stream k)"
    by unfold_locales
       (auto simp: non_blocking_recv1_settles [OF _ assms],
        auto simp: nb_recv_step_def Let_def single_calls [OF assms] non_blocking_recv1.simps split: prod.splits)
  from retrying_unique [OF this nb_recv_retry.retrying_axioms, of "(ec, w)"] show ?thesis
    by simp
qed

lemma non_blocking_send1_settles:
  assumes "non_blocking_send1 K s buf flags ec k w = Some r" "single_call_law K"
  shows "\<exists>n. settles (nb_send_step K s [buf] flags k) n (ec, w)"
proof -
  have "single_call_law K \<longrightarrow> (\<exists>n. settles (nb_send_step K s [buf] flags k) n (ec, w))"
    by (rule non_blocking_send1.raw_induct [where
          P = "\<lambda>K s buf flags ec k w r. single_call_law K \<longrightarrow> (\<exists>n. settles (nb_send_step K s [buf] flags k) n (ec, w))", OF _ assms(1)])
       (auto intro!: settlesI simp: nb_send_step_def Let_def single_calls split: prod.splits if_splits)
  then show ?thesis
    using assms(2) by blast
qed

lemma non_blocking_send1_single:
  assumes "single_call_law K"
  shows "non_blocking_send1 K s buf flags ec k w = non_blocking_send K s [buf] flags ec k w"
proof -
  have "retrying (\<lambda>(ec, w). non_blocking_send1 K s buf flags ec k w) (nb_send_step K s [buf] flags k)"
    by unfold_locales
       (auto simp: non_blocking_send1_settles [OF _ assms],
        auto simp: nb_send_step_def Let_def single_calls [OF assms] non_blocking_send1.simps split: prod.splits)
  from retrying_unique [OF this nb_send_retry.retrying_axioms, of "(ec, w)"] show ?thesis
    by simp
qed

lemma sync_single:
  assumes "single_call_law K"
  shows "sync_recv1 K s state buf flags ec w = sync_recv K s state [buf] flags (buffer_size [buf] = 0) ec w"
    "sync_send1 K s state buf flags ec w = sync_send K s state [buf] flags (buffer_size [buf] = 0) ec w"
  using assms
  by (simp_all add: sync_recv1_def sync_recv_def sync_send1_def sync_send_def sync_recv1_loop_single
      sync_send1_loop_single)

text \<open>
  The operations specialised to a single buffer, which the sockets use for \<open>asio::buffer\<close> of a
  string or a vector, do what the general ones do with a sequence of that one buffer, on every
  path and also when they do not return.
\<close>

lemma single_buffer_operations_agree:
  assumes "single_call_law K"
  shows "sync_recv1 K s state buf flags ec w = sync_recv K s state [buf] flags (buffer_size [buf] = 0) ec w \<and>
    sync_send1 K s state buf flags ec w = sync_send K s state [buf] flags (buffer_size [buf] = 0) ec w \<and>
    non_blocking_recv1 K s buf flags is_stream ec k w = non_blocking_recv K s [buf] flags is_stream ec k w \<and>
    non_blocking_send1 K s buf flags ec k w = non_blocking_send K s [buf] flags ec k w"
  by (intro conjI sync_single non_blocking_recv1_single non_blocking_send1_single assms)

section \<open>The mode of a descriptor\<close>

datatype mode_op = User_Mode bool | Internal_Mode bool | Set_Option socket_option "8 word list"

definition mode_step :: "'w kernel \<Rightarrow> socket_type \<Rightarrow> mode_op \<Rightarrow> state_type \<times> 'w \<Rightarrow> state_type \<times> 'w" where
  "mode_step K s op x = (case op of
      User_Mode value \<Rightarrow> snd (snd (set_user_non_blocking K s (fst x) value no_error (snd x)))
    | Internal_Mode value \<Rightarrow> snd (snd (set_internal_non_blocking K s (fst x) value no_error (snd x)))
    | Set_Option opt optval \<Rightarrow> snd (snd (setsockopt K s (fst x) opt optval no_error (snd x))))"

text \<open>
  \<open>nb\<close> reads the mode of the descriptor from the world. \<open>FIONBIO\<close> sets it if the call succeeds and
  does not change it otherwise, and socket options do not change it.
\<close>

definition mode_law :: "'w kernel \<Rightarrow> socket_type \<Rightarrow> ('w \<Rightarrow> bool) \<Rightarrow> bool" where
  "mode_law K s nb \<longleftrightarrow>
     (\<forall>arg w r errno v w'. k_ioctl K s FIONBIO arg w = ((r, errno), v, w') \<longrightarrow>
        nb w' = (if r \<ge> 0 then arg \<noteq> 0 else nb w)) \<and>
     (\<forall>opt optval w. nb (snd (k_setsockopt K s opt optval w)) = nb w)"

lemma flag_value_bits [simp]:
  "bit user_set_non_blocking 0" "\<not> bit user_set_non_blocking (Suc 0)"
  "\<not> bit internal_non_blocking 0" "bit internal_non_blocking (Suc 0)"
  "\<not> bit enable_connection_aborted 0" "\<not> bit enable_connection_aborted (Suc 0)"
  "\<not> bit user_set_linger 0" "\<not> bit user_set_linger (Suc 0)"
  by code_simp+

lemma or_flags [simp]:
  "bit (state OR user_set_non_blocking) 0" "bit (state OR user_set_non_blocking) (Suc 0) = bit state (Suc 0)"
  "bit (state OR internal_non_blocking) (Suc 0)" "bit (state OR internal_non_blocking) 0 = bit state 0"
  "bit (state OR enable_connection_aborted) 0 = bit state 0" "bit (state OR enable_connection_aborted) (Suc 0) = bit state (Suc 0)"
  "bit (state OR user_set_linger) 0 = bit state 0" "bit (state OR user_set_linger) (Suc 0) = bit state (Suc 0)"
  by (simp_all add: bit_or_iff)

lemma clear_flags [simp]:
  "\<not> bit (state AND NOT (user_set_non_blocking OR internal_non_blocking)) 0"
  "\<not> bit (state AND NOT (user_set_non_blocking OR internal_non_blocking)) (Suc 0)"
  "\<not> bit (state AND NOT internal_non_blocking) (Suc 0)" "bit (state AND NOT internal_non_blocking) 0 = bit state 0"
  "bit (state AND NOT enable_connection_aborted) 0 = bit state 0"
  "bit (state AND NOT enable_connection_aborted) (Suc 0) = bit state (Suc 0)"
  by (simp_all add: bit_and_iff bit_not_iff bit_or_iff)

lemma ioctl_mode:
  assumes "mode_law K s nb" "k_ioctl K s FIONBIO arg w = ((r, errno), v, w')"
  shows "nb w' = (if r \<ge> 0 then arg \<noteq> 0 else nb w)"
  using assms unfolding mode_law_def by blast

lemma mode_step_tracks:
  assumes "mode_law K s nb" "has_flag (fst x) non_blocking = nb (snd x)"
  shows "has_flag (fst (mode_step K s op x)) non_blocking = nb (snd (mode_step K s op x))"
proof (cases op)
  case (User_Mode b)
  obtain r errno v w' where call: "k_ioctl K s FIONBIO (if b then 1 else 0) (snd x) = ((r, errno), v, w')"
    by (metis prod.exhaust)
  have "nb w' = (if r \<ge> 0 then b else nb (snd x))"
    using ioctl_mode [OF assms(1) call] by simp
  then show ?thesis
    using assms(2) call User_Mode by (auto simp: mode_step_def set_user_non_blocking_def Let_def bit_and_iff bit_not_iff)
next
  case (Internal_Mode b)
  obtain r errno v w' where call: "k_ioctl K s FIONBIO (if b then 1 else 0) (snd x) = ((r, errno), v, w')"
    by (metis prod.exhaust)
  have "nb w' = (if r \<ge> 0 then b else nb (snd x))"
    using ioctl_mode [OF assms(1) call] by simp
  then show ?thesis
    using assms(2) call Internal_Mode by (auto simp: mode_step_def set_internal_non_blocking_def Let_def)
next
  case (Set_Option opt optval)
  have "nb (snd (k_setsockopt K s opt optval (snd x))) = nb (snd x)"
    using assms(1) unfolding mode_law_def by blast
  then show ?thesis
    using assms(2) Set_Option
    by (cases "k_setsockopt K s opt optval (snd x)") (auto simp: mode_step_def setsockopt_def Let_def)
qed

text \<open>
  Whatever sequence of mode changes and options is applied to a socket, and whichever of the
  system calls fail, the non-blocking flags of the state describe the mode of the descriptor: a
  socket that the code takes for a blocking one is one.
\<close>

lemma non_blocking_mode_tracked:
  assumes "mode_law K s nb" "has_flag state non_blocking = nb w"
  shows "case fold (mode_step K s) ops (state, w) of (state', w') \<Rightarrow> has_flag state' non_blocking = nb w'"
proof -
  have "has_flag (fst (fold (mode_step K s) ops x)) non_blocking = nb (snd (fold (mode_step K s) ops x))"
    if "has_flag (fst x) non_blocking = nb (snd x)" for x
    using that
    by (induction ops arbitrary: x) (simp_all add: mode_step_tracks [OF assms(1)] del: non_blocking_flag)
  from this [of "(state, w)"] show ?thesis
    using assms(2) by (simp add: case_prod_unfold del: non_blocking_flag)
qed

section \<open>Accepting and connecting\<close>

definition accept_law :: "'w kernel \<Rightarrow> socket_type \<Rightarrow> bool" where
  "accept_law K s \<longleftrightarrow> (\<forall>w errno w'. k_accept K s w = ((-1, errno), w') \<longrightarrow> errno \<noteq> 0)"

definition nb_accept_step ::
  "'w kernel \<Rightarrow> socket_type \<Rightarrow> state_type \<Rightarrow> error_code \<times> 'w \<Rightarrow>
   (bool \<times> error_code \<times> socket_type \<times> 'w) + (error_code \<times> 'w)" where
  "nb_accept_step K s state x =
     (let (new_socket, ec1, w1) = accept K s (fst x) (snd x)
      in if new_socket \<noteq> invalid_socket then Inl (True, ec1, new_socket, w1)
         else if ec1 = basic_ec interrupted then Inr (ec1, w1)
         else if is_blocking_error ec1 then Inl (False, ec1, new_socket, w1)
         else if ec1 = basic_ec connection_aborted then
           Inl (has_flag state enable_connection_aborted, ec1, new_socket, w1)
         else if ec_value ec1 = eproto then Inl (has_flag state enable_connection_aborted, ec1, new_socket, w1)
         else Inl (True, ec1, new_socket, w1))"

lemma non_blocking_accept_settles:
  assumes "non_blocking_accept K s state ec w = Some r"
  shows "\<exists>n. settles (nb_accept_step K s state) n (ec, w)"
  by (rule non_blocking_accept.raw_induct [where
        P = "\<lambda>K s state ec w r. \<exists>n. settles (nb_accept_step K s state) n (ec, w)", OF _ assms])
     (auto intro!: settlesI simp: nb_accept_step_def Let_def split: prod.splits if_splits)

interpretation nb_accept_retry: retrying
  "\<lambda>(ec, w). non_blocking_accept K s state ec w" "nb_accept_step K s state"
  for K s state
proof unfold_locales
qed (auto simp: non_blocking_accept_settles,
     auto simp: nb_accept_step_def Let_def non_blocking_accept.simps split: prod.splits)

lemma accept_settles:
  "interruptions_end (k_accept K s) n w \<Longrightarrow> settles (nb_accept_step K s state) n (ec, w)"
proof (induction n arbitrary: ec w)
  case 0
  then show ?case
    by (auto simp: interruptions_end.simps [of _ 0] nb_accept_step_def accept_def Let_def invalid_socket_def
        split: prod.splits)
next
  case (Suc n)
  then show ?case
    by (auto simp: interruptions_end.simps [of _ "Suc n"] nb_accept_step_def accept_def Let_def
        invalid_socket_def split: prod.splits)
qed

text \<open>What an attempt to accept reports.\<close>

definition accepted_ok :: "state_type \<Rightarrow> bool \<times> error_code \<times> socket_type \<times> 'w \<Rightarrow> bool" where
  "accepted_ok state r \<longleftrightarrow> (case r of (finished, ec, new_socket, _) \<Rightarrow>
     (failed ec \<longleftrightarrow> new_socket = invalid_socket) \<and>
     (\<not> finished \<longrightarrow> failed ec) \<and> (finished \<longrightarrow> \<not> is_blocking_error ec) \<and>
     (finished \<and> (ec = basic_ec connection_aborted \<or> ec_value ec = eproto) \<longrightarrow>
        has_flag state enable_connection_aborted))"

lemma nb_accept_step_ok:
  assumes "nb_accept_step K s state x = Inl r" "accept_law K s"
  shows "accepted_ok state r"
proof -
  obtain n errno w1 where call: "k_accept K s (snd x) = ((n, errno), w1)"
    by (metis prod.exhaust)
  have "n = -1 \<longrightarrow> errno \<noteq> 0"
    using assms(2) call unfolding accept_law_def by blast
  then show ?thesis
    using assms(1) call
    by (auto simp: nb_accept_step_def accept_def accepted_ok_def invalid_socket_def eproto_def
        is_blocking_error_def Let_def split: if_splits)
qed

text \<open>
  An attempt of the reactor to accept a connection ends once signals stop interrupting it. It
  reports an error exactly if there is no new socket; a completed attempt is never reported as
  \<open>would_block\<close>, and a connection that was aborted before it could be accepted is hidden from the
  program (the accept goes on waiting) unless the program asked to see it.
\<close>

lemma non_blocking_accept_correct:
  assumes "accept_law K s" "interruptions_end (k_accept K s) n w"
  shows "\<exists>r. non_blocking_accept K s state ec w = Some r \<and> accepted_ok state r"
  using nb_accept_retry.loop_result [OF accept_settles [OF assms(2)]] nb_accept_step_ok [OF _ assms(1)]
  by fastforce

text \<open>
  A synchronous connect to a TCP endpoint succeeds exactly if the system established the
  connection: at once, or after it reported that the attempt is in progress, the wait for the
  socket did not fail and the option \<open>SO_ERROR\<close> could be read and is 0.
\<close>

lemma sync_connect_correct:
  assumes "s \<noteq> invalid_socket" "fst addr \<noteq> af_unix"
    and "k_connect K s addr w = ((r, errno), w1)" "r \<noteq> 0 \<longrightarrow> errno \<noteq> 0"
    and "k_poll K s POLLOUT (-1) w1 = ((ready, errno1), w2)" "ready < 0 \<longrightarrow> errno1 \<noteq> 0"
    and "k_getsockopt K s So_Error 0 4 w2 = ((g, errno2), so_error, len, w3)" "g = -1 \<longrightarrow> errno2 \<noteq> 0"
  shows "\<not> failed (fst (sync_connect K s addr ec w)) \<longleftrightarrow>
    r = 0 \<or> (errno = basic_value in_progress \<and> ready \<ge> 0 \<and> g \<noteq> -1 \<and> so_error = 0)"
  using assms
  by (auto simp: sync_connect_def connect_def poll_connect_def getsockopt_def
      socket_error_retval_def failed_def [of "\<lparr>ec_value = so_error, ec_category = System_Category\<rparr>"])

section \<open>Witnesses\<close>

text \<open>
  A small system: the world is the number of times a call still fails, with the given error, before
  it transfers up to three bytes; the mode of the descriptor is whether that number is positive.
\<close>

definition demo_kernel :: "int \<Rightarrow> nat kernel" where
  "demo_kernel err = (let transfer = (\<lambda>bufs w. if w = 0 then ((min 3 (int (buffer_size bufs)), 0), 0) else ((-1, err), w - 1))
    in \<lparr>k_socket = (\<lambda>_ _ _ w. ((3, 0), w)), k_bind = (\<lambda>_ _ w. ((0, 0), w)), k_listen = (\<lambda>_ _ w. ((0, 0), w)),
       k_accept = (\<lambda>_ w. if w = 0 then ((4, 0), 0) else ((-1, err), w - 1)),
       k_connect = (\<lambda>_ _ w. ((-1, 115), w)), k_shutdown = (\<lambda>_ _ w. ((0, 0), w)), k_close = (\<lambda>_ w. ((0, 0), w)),
       k_ioctl = (\<lambda>_ c arg w. ((0, 0), arg, if c = FIONBIO then if arg = 0 then 0 else 1 else w)),
       k_poll = (\<lambda>_ _ _ w. ((1, 0), w)), k_setsockopt = (\<lambda>_ _ _ w. ((0, 0), w)),
       k_getsockopt = (\<lambda>_ _ _ len w. ((0, 0), 0, len, w)),
       k_recvmsg = (\<lambda>_ bufs _. transfer bufs), k_recv = (\<lambda>_ buf _. transfer [buf]),
       k_sendmsg = (\<lambda>_ bufs _. transfer bufs), k_send = (\<lambda>_ buf _. transfer [buf])\<rparr>)"

definition demo_buffer :: buffer where
  "demo_buffer = \<lparr>buf_data = 0, buf_size = 5\<rparr>"

lemma demo_laws [simp]:
  "recv_law (demo_kernel 11) s bufs" "recv_law (demo_kernel 4) s bufs" "poll_law (demo_kernel err) s"
  "send_law (demo_kernel 11) s [demo_buffer]" "send_law (demo_kernel 4) s [demo_buffer]"
  "single_call_law (demo_kernel err)" "mode_law (demo_kernel err) s (\<lambda>w. 0 < w)" "accept_law (demo_kernel 4) s"
  by (auto simp: recv_law_def poll_law_def send_law_def single_call_law_def mode_law_def accept_law_def
      demo_kernel_def demo_buffer_def split: if_splits)

lemma demo_ready [simp]:
  "becomes_ready (k_recvmsg (demo_kernel 11) s bufs flags) (k_poll (demo_kernel 11) s ev t) 2 2"
  "becomes_ready (k_sendmsg (demo_kernel 11) s bufs flags) (k_poll (demo_kernel 11) s ev t) 2 2"
  "interruptions_end (k_recvmsg (demo_kernel 4) s bufs flags) 2 2"
  "interruptions_end (k_sendmsg (demo_kernel 4) s bufs flags) 2 2"
  "interruptions_end (k_accept (demo_kernel 4) s) 2 2"
  by (simp_all add: becomes_ready.simps interruptions_end.simps demo_kernel_def numeral_2_eq_2)

lemma non_blocking_transfer_contract_example:
  "(\<exists>r. non_blocking_recv (demo_kernel 4) 3 [demo_buffer] 0 True no_error 0 2 = Some r \<and> attempt_ok [demo_buffer] 0 r) \<and>
   (\<exists>r. non_blocking_send (demo_kernel 4) 3 [demo_buffer] 0 no_error 0 2 = Some r \<and> attempt_ok [demo_buffer] 0 r)"
  by (rule non_blocking_transfer_contract [where n = 2]) simp_all

lemma single_buffer_operations_agree_example:
  "sync_recv1 (demo_kernel 11) 3 stream_oriented demo_buffer 0 no_error 2 =
   sync_recv (demo_kernel 11) 3 stream_oriented [demo_buffer] 0 (buffer_size [demo_buffer] = 0) no_error 2"
  using single_buffer_operations_agree [of "demo_kernel 11" 3 stream_oriented demo_buffer 0 no_error 2] by simp

lemma non_blocking_mode_tracked_example:
  "case fold (mode_step (demo_kernel 0) 3) [Internal_Mode True, User_Mode True, Internal_Mode False, User_Mode False]
      (stream_oriented, 0) of (state', w') \<Rightarrow> has_flag state' non_blocking = (0 < w')"
  by (rule non_blocking_mode_tracked) (simp_all add: has_flag_def non_blocking_def stream_oriented_def
      user_set_non_blocking_def internal_non_blocking_def del: non_blocking_flag)

lemma non_blocking_accept_correct_example:
  "\<exists>r. non_blocking_accept (demo_kernel 4) 3 0 no_error 2 = Some r \<and> accepted_ok 0 r"
  by (rule non_blocking_accept_correct [where n = 2]) simp_all

lemma sync_connect_correct_example:
  "\<not> failed (fst (sync_connect (demo_kernel 0) 3 (2, []) no_error 0))"
  using sync_connect_correct [of 3 "(2, [])" "demo_kernel 0" 0 "-1" 115 0 1 0 0 0 0 0 4 0 no_error]
  by (simp add: invalid_socket_def af_unix_def demo_kernel_def)

end
