(* ===== verification/Asio_Socket_Service.thy ===== *)
theory Asio_Socket_Service
  imports Asio_Socket_Ops Asio_Reactor
begin

text \<open>
  Model of the layer between the sockets of the program and the system: the adapter that turns
  buffer sequences into native ones (\<open>detail/buffer_sequence_adapter.hpp\<close>), the operations that the
  reactor performs (\<open>detail/reactive_socket_recv_op.hpp\<close> and its siblings), the service
  (\<open>detail/reactive_socket_service.hpp\<close>, \<open>detail/reactive_socket_service_base.hpp\<close> and
  \<open>detail/impl/reactive_socket_service_base.ipp\<close>), the owner of a descriptor
  (\<open>detail/socket_holder.hpp\<close>), and \<open>connect\<close> over a range of endpoints (\<open>impl/connect.hpp\<close>).
  Handlers are taken without a cancellation slot, as the program passes them, and
  \<open>on_immediate\<close> is the function that posts the operation.
\<close>

section \<open>Native buffers\<close>

definition adapter_max_buffers :: nat where
  "adapter_max_buffers = 64"

text \<open>The loop of \<open>init\<close>: the native buffers in order, their number and their total size.\<close>

fun adapter_init :: "buffer list \<Rightarrow> buffer list \<Rightarrow> nat \<Rightarrow> nat \<Rightarrow> buffer list \<times> nat \<times> nat" where
  "adapter_init (b # bs) native count total_size =
     (if count < adapter_max_buffers
      then adapter_init bs (native @ [b]) (count + 1) (total_size + buf_size b)
      else (native, count, total_size))"
| "adapter_init [] native count total_size = (native, count, total_size)"

record buffer_adapter =
  ad_buffers :: "buffer list"
  ad_count :: nat
  ad_total_size :: nat

definition make_adapter :: "buffer list \<Rightarrow> buffer_adapter" where
  "make_adapter bs = (case adapter_init bs [] 0 0 of (native, count, n) \<Rightarrow>
     \<lparr>ad_buffers = native, ad_count = count, ad_total_size = n\<rparr>)"

definition adapter_all_empty :: "buffer_adapter \<Rightarrow> bool" where
  "adapter_all_empty ad \<longleftrightarrow> ad_total_size ad = 0"

text \<open>The static \<open>all_empty\<close>, which \<open>async_send\<close> and \<open>async_receive\<close> use, and \<open>first\<close>.\<close>

fun all_empty_loop :: "buffer list \<Rightarrow> nat \<Rightarrow> bool" where
  "all_empty_loop (b # bs) i =
     (if i < adapter_max_buffers then if buf_size b > 0 then False else all_empty_loop bs (i + 1) else True)"
| "all_empty_loop [] i = True"

fun adapter_first :: "buffer list \<Rightarrow> buffer" where
  "adapter_first (b # bs) = (if buf_size b \<noteq> 0 then b else adapter_first bs)"
| "adapter_first [] = \<lparr>buf_data = 0, buf_size = 0\<rparr>"

text \<open>What the user passes: one buffer (\<open>is_single_buffer\<close>) or a sequence.\<close>

datatype user_buffers = One_Buffer buffer | Many_Buffers "buffer list"

fun buffers_all_empty :: "user_buffers \<Rightarrow> bool" where
  "buffers_all_empty (One_Buffer b) \<longleftrightarrow> buf_size b = 0"
| "buffers_all_empty (Many_Buffers bs) \<longleftrightarrow> all_empty_loop bs 0"

section \<open>The operations that the reactor performs\<close>

text \<open>\<open>do_perform\<close> of the receive operation, on its members \<open>ec_\<close> and \<open>bytes_transferred_\<close>.\<close>

definition recv_do_perform ::
  "'w kernel \<Rightarrow> socket_type \<Rightarrow> state_type \<Rightarrow> user_buffers \<Rightarrow> int \<Rightarrow> reactor_op \<Rightarrow> 'w \<Rightarrow>
   (status \<times> error_code \<times> nat \<times> 'w) option" where
  "recv_do_perform K s state bufs flags op w =
     (let stream = has_flag state stream_oriented;
          attempt = (case bufs of
              One_Buffer b \<Rightarrow> non_blocking_recv1 K s b flags stream (op_ec op) (op_bytes op) w
            | Many_Buffers bs \<Rightarrow>
                non_blocking_recv K s (ad_buffers (make_adapter bs)) flags stream (op_ec op) (op_bytes op) w)
      in map_option (\<lambda>(finished, ec, bytes, w').
           (if finished then if stream \<and> bytes = 0 then Done_And_Exhausted else Done else Not_Done, ec, bytes, w')) attempt)"

definition send_do_perform ::
  "'w kernel \<Rightarrow> socket_type \<Rightarrow> state_type \<Rightarrow> user_buffers \<Rightarrow> int \<Rightarrow> reactor_op \<Rightarrow> 'w \<Rightarrow>
   (status \<times> error_code \<times> nat \<times> 'w) option" where
  "send_do_perform K s state bufs flags op w =
     (let (attempt, offered) = (case bufs of
              One_Buffer b \<Rightarrow> (non_blocking_send1 K s b flags (op_ec op) (op_bytes op) w, buf_size b)
            | Many_Buffers bs \<Rightarrow> let ad = make_adapter bs
                in (non_blocking_send K s (ad_buffers ad) flags (op_ec op) (op_bytes op) w, ad_total_size ad))
      in map_option (\<lambda>(finished, ec, bytes, w').
           (if finished then if has_flag state stream_oriented \<and> bytes < offered then Done_And_Exhausted else Done
            else Not_Done, ec, bytes, w')) attempt)"

definition connect_do_perform :: "'w kernel \<Rightarrow> socket_type \<Rightarrow> reactor_op \<Rightarrow> 'w \<Rightarrow> status \<times> error_code \<times> nat \<times> 'w" where
  "connect_do_perform K s op w = (case non_blocking_connect K s (op_ec op) w of (finished, ec, w') \<Rightarrow>
     (if finished then Done else Not_Done, ec, op_bytes op, w'))"

section \<open>Owning a descriptor\<close>

definition holder_reset :: "'w kernel \<Rightarrow> socket_type \<Rightarrow> 'w \<Rightarrow> socket_type \<times> 'w" where
  "holder_reset K held w =
     (if held \<noteq> invalid_socket
      then let (_, _, _, w') = close_socket K held 0 True no_error w in (invalid_socket, w')
      else (held, w))"

text \<open>\<open>do_perform\<close> of the accept operation; the new socket goes to its \<open>new_socket_\<close> member.\<close>

definition accept_do_perform ::
  "'w kernel \<Rightarrow> socket_type \<Rightarrow> state_type \<Rightarrow> socket_type \<Rightarrow> reactor_op \<Rightarrow> 'w \<Rightarrow>
   ((status \<times> error_code \<times> nat \<times> 'w) \<times> socket_type) option" where
  "accept_do_perform K s state held op w =
     map_option (\<lambda>(finished, ec, new_socket, w1). case holder_reset K held w1 of (_, w2) \<Rightarrow>
       ((if finished then Done else Not_Done, ec, op_bytes op, w2), new_socket))
     (non_blocking_accept K s state (op_ec op) w)"

section \<open>The service\<close>

record socket_impl =
  impl_socket :: socket_type
  impl_state :: state_type
  reactor_data :: "descriptor_state option"

definition is_open :: "socket_impl \<Rightarrow> bool" where
  "is_open impl \<longleftrightarrow> impl_socket impl \<noteq> invalid_socket"

definition construct :: socket_impl where
  "construct = \<lparr>impl_socket = invalid_socket, impl_state = 0, reactor_data = None\<rparr>"

definition possible_dup :: state_type where
  "possible_dup = 64"

definition datagram_oriented :: state_type where
  "datagram_oriented = 32"

text \<open>The new implementation and what is left of the other one.\<close>

definition base_move_construct :: "socket_impl \<Rightarrow> socket_impl \<times> socket_impl" where
  "base_move_construct other = (let (target, source) = move_descriptor None (reactor_data other)
     in (\<lparr>impl_socket = impl_socket other, impl_state = impl_state other, reactor_data = target\<rparr>,
         \<lparr>impl_socket = invalid_socket, impl_state = 0, reactor_data = source\<rparr>))"

type_synonym finished_ops = "(op_type \<times> reactor_op) list"

text \<open>
  \<open>destroy\<close> leaves the members but closes the descriptor. The results are the implementation, the
  operations that were aborted, the calls on the scheduler and the world.
\<close>

definition destroy_impl ::
  "'w kernel \<Rightarrow> 'w epoll_ctl_func \<Rightarrow> socket_impl \<Rightarrow> 'w \<Rightarrow> socket_impl \<times> finished_ops \<times> handler_call list \<times> 'w" where
  "destroy_impl K ctl impl w =
     (if impl_socket impl \<noteq> invalid_socket then
        let (data, ops, calls, w1) = deregister_descriptor ctl (impl_socket impl)
              (\<not> has_flag (impl_state impl) possible_dup) (reactor_data impl) w;
            (_, _, state, w2) = close_socket K (impl_socket impl) (impl_state impl) True no_error w1
        in (impl\<lparr>impl_state := state, reactor_data := snd (cleanup_descriptor_data data)\<rparr>, ops, calls, w2)
      else (impl, [], [], w))"

definition base_move_assign ::
  "'w kernel \<Rightarrow> 'w epoll_ctl_func \<Rightarrow> socket_impl \<Rightarrow> socket_impl \<Rightarrow> 'w \<Rightarrow>
   socket_impl \<times> socket_impl \<times> finished_ops \<times> handler_call list \<times> 'w" where
  "base_move_assign K ctl impl other w =
     (let (_, ops, calls, w') = destroy_impl K ctl impl w;
          (new_impl, rest) = base_move_construct other
      in (new_impl, rest, ops, calls, w'))"

definition close_impl ::
  "'w kernel \<Rightarrow> 'w epoll_ctl_func \<Rightarrow> socket_impl \<Rightarrow> error_code \<Rightarrow> 'w \<Rightarrow>
   socket_impl \<times> error_code \<times> finished_ops \<times> handler_call list \<times> 'w" where
  "close_impl K ctl impl ec w =
     (if is_open impl then
        let (data, ops, calls, w1) = deregister_descriptor ctl (impl_socket impl)
              (\<not> has_flag (impl_state impl) possible_dup) (reactor_data impl) w;
            (_, ec', _, w2) = close_socket K (impl_socket impl) (impl_state impl) False ec w1
        in (construct, ec', ops, calls, w2)
      else (construct, no_error, [], [], w))"

definition release_impl ::
  "'w epoll_ctl_func \<Rightarrow> socket_impl \<Rightarrow> 'w \<Rightarrow>
   socket_type \<times> socket_impl \<times> error_code \<times> finished_ops \<times> handler_call list \<times> 'w" where
  "release_impl ctl impl w =
     (if \<not> is_open impl then (invalid_socket, impl, basic_ec bad_descriptor, [], [], w)
      else
        let (_, ops, calls, w') = deregister_descriptor ctl (impl_socket impl) False (reactor_data impl) w
        in (impl_socket impl, construct, no_error, ops, calls, w'))"

definition cancel_impl :: "socket_impl \<Rightarrow> socket_impl \<times> error_code \<times> finished_ops \<times> handler_call list" where
  "cancel_impl impl =
     (if \<not> is_open impl then (impl, basic_ec bad_descriptor, [], [])
      else let (data, ops, calls) = cancel_ops (reactor_data impl)
           in (impl\<lparr>reactor_data := data\<rparr>, no_error, ops, calls))"

text \<open>Socket types: \<open>SOCK_STREAM\<close> is 1 and \<open>SOCK_DGRAM\<close> is 2 on Linux.\<close>

definition type_state :: "int \<Rightarrow> state_type" where
  "type_state type = (if type = 1 then stream_oriented else if type = 2 then datagram_oriented else 0)"

text \<open>
  \<open>do_open\<close>: if the reactor refuses the descriptor, the holder closes it, and the descriptor data stay
  behind in the implementation.
\<close>

definition do_open ::
  "'w kernel \<Rightarrow> 'w epoll_ctl_func \<Rightarrow> socket_impl \<Rightarrow> int \<Rightarrow> int \<Rightarrow> int \<Rightarrow> error_code \<Rightarrow> 'w \<Rightarrow>
   socket_impl \<times> error_code \<times> 'w" where
  "do_open K ctl impl af type protocol ec w =
     (if is_open impl then (impl, misc_ec already_open, w)
      else
        let (sock, ec1, w1) = open_socket K af type protocol ec w
        in if sock = invalid_socket then (impl, ec1, w1)
           else
             let (err, dd, w2) = register_descriptor ctl sock w1
             in if err \<noteq> 0 then
                  (impl\<lparr>reactor_data := Some dd\<rparr>, \<lparr>ec_value = err, ec_category = System_Category\<rparr>,
                   snd (holder_reset K sock w2))
                else (impl\<lparr>impl_socket := sock, impl_state := type_state type, reactor_data := Some dd\<rparr>, no_error, w2))"

definition do_assign ::
  "'w epoll_ctl_func \<Rightarrow> socket_impl \<Rightarrow> int \<Rightarrow> socket_type \<Rightarrow> 'w \<Rightarrow> socket_impl \<times> error_code \<times> 'w" where
  "do_assign ctl impl type native_socket w =
     (if is_open impl then (impl, misc_ec already_open, w)
      else
        let (err, dd, w1) = register_descriptor ctl native_socket w
        in if err \<noteq> 0 then (impl\<lparr>reactor_data := Some dd\<rparr>, \<lparr>ec_value = err, ec_category = System_Category\<rparr>, w1)
           else (impl\<lparr>impl_socket := native_socket, impl_state := type_state type OR possible_dup,
                   reactor_data := Some dd\<rparr>, no_error, w1))"

section \<open>Starting operations\<close>

type_synonym 'w started_op = "socket_impl \<times> reactor_op option \<times> handler_call list \<times> 'w"

definition post_op :: "socket_impl \<Rightarrow> reactor_op \<Rightarrow> bool \<Rightarrow> 'w \<Rightarrow> 'w started_op" where
  "post_op impl op is_continuation w = (impl, Some op, [Post (op_id op) is_continuation], w)"

definition reactor_start ::
  "'w epoll_ctl_func \<Rightarrow> 'w perform_func \<Rightarrow> socket_impl \<Rightarrow> op_type \<Rightarrow> reactor_op \<Rightarrow> bool \<Rightarrow> bool \<Rightarrow> 'w \<Rightarrow> 'w started_op" where
  "reactor_start ctl pf impl t op is_continuation allow_speculative w =
     (let (data, posted, calls, w') =
            start_op ctl pf t (impl_socket impl) (reactor_data impl) op is_continuation allow_speculative w
      in (impl\<lparr>reactor_data := data\<rparr>, posted, calls, w'))"

definition do_start_op ::
  "'w kernel \<Rightarrow> 'w epoll_ctl_func \<Rightarrow> 'w perform_func \<Rightarrow> socket_impl \<Rightarrow> op_type \<Rightarrow> reactor_op \<Rightarrow> bool \<Rightarrow> bool \<Rightarrow> bool \<Rightarrow>
   'w \<Rightarrow> 'w started_op" where
  "do_start_op K ctl pf impl t op is_continuation is_non_blocking noop w =
     (if \<not> noop then
        if has_flag (impl_state impl) non_blocking
        then reactor_start ctl pf impl t op is_continuation is_non_blocking w
        else
          let (ok, ec, state, w1) = set_internal_non_blocking K (impl_socket impl) (impl_state impl) True (op_ec op) w;
              impl1 = impl\<lparr>impl_state := state\<rparr>;
              op1 = set_ec ec op
          in if ok then reactor_start ctl pf impl1 t op1 is_continuation is_non_blocking w1
             else post_op impl1 op1 is_continuation w1
      else post_op impl op is_continuation w)"

definition do_start_accept_op ::
  "'w kernel \<Rightarrow> 'w epoll_ctl_func \<Rightarrow> 'w perform_func \<Rightarrow> socket_impl \<Rightarrow> reactor_op \<Rightarrow> bool \<Rightarrow> bool \<Rightarrow> 'w \<Rightarrow> 'w started_op" where
  "do_start_accept_op K ctl pf impl op is_continuation peer_is_open w =
     (if \<not> peer_is_open then do_start_op K ctl pf impl Read_Op op is_continuation True False w
      else post_op impl (set_ec (misc_ec already_open) op) is_continuation w)"

definition do_start_connect_op ::
  "'w kernel \<Rightarrow> 'w epoll_ctl_func \<Rightarrow> 'w perform_func \<Rightarrow> socket_impl \<Rightarrow> reactor_op \<Rightarrow> bool \<Rightarrow> sockaddr \<Rightarrow> 'w \<Rightarrow> 'w started_op" where
  "do_start_connect_op K ctl pf impl op is_continuation addr w =
     (let (ok, ec, state, w1) =
            (if has_flag (impl_state impl) non_blocking then (True, op_ec op, impl_state impl, w)
             else set_internal_non_blocking K (impl_socket impl) (impl_state impl) True (op_ec op) w);
          impl1 = impl\<lparr>impl_state := state\<rparr>
      in if ok then
           let (result, ec2, w2) = connect K (impl_socket impl) addr ec w1
           in if result \<noteq> 0 \<and> (ec2 = basic_ec in_progress \<or> ec2 = basic_ec would_block)
              then reactor_start ctl pf impl1 Write_Op (set_ec no_error op) is_continuation False w2
              else post_op impl1 (set_ec ec2 op) is_continuation w2
         else post_op impl1 (set_ec ec op) is_continuation w1)"

text \<open>\<open>async_send\<close> and \<open>async_receive\<close>; \<open>message_out_of_band\<close> is \<open>MSG_OOB\<close>, 1 on Linux.\<close>

definition new_op :: "nat \<Rightarrow> reactor_op" where
  "new_op n = \<lparr>op_id = n, op_ec = no_error, cancellation_key = 0, op_bytes = 0\<rparr>"

definition async_send ::
  "'w kernel \<Rightarrow> 'w epoll_ctl_func \<Rightarrow> 'w perform_func \<Rightarrow> socket_impl \<Rightarrow> nat \<Rightarrow> user_buffers \<Rightarrow> bool \<Rightarrow> 'w \<Rightarrow> 'w started_op" where
  "async_send K ctl pf impl n bufs is_continuation w =
     do_start_op K ctl pf impl Write_Op (new_op n) is_continuation True
       (has_flag (impl_state impl) stream_oriented \<and> buffers_all_empty bufs) w"

definition async_receive ::
  "'w kernel \<Rightarrow> 'w epoll_ctl_func \<Rightarrow> 'w perform_func \<Rightarrow> socket_impl \<Rightarrow> nat \<Rightarrow> user_buffers \<Rightarrow> int \<Rightarrow> bool \<Rightarrow> 'w \<Rightarrow> 'w started_op" where
  "async_receive K ctl pf impl n bufs flags is_continuation w =
     do_start_op K ctl pf impl (if flags AND 1 \<noteq> 0 then Except_Op else Read_Op) (new_op n) is_continuation
       (flags AND 1 = 0) (has_flag (impl_state impl) stream_oriented \<and> buffers_all_empty bufs) w"

section \<open>Synchronous operations\<close>

definition service_send ::
  "'w kernel \<Rightarrow> socket_impl \<Rightarrow> user_buffers \<Rightarrow> int \<Rightarrow> error_code \<Rightarrow> 'w \<Rightarrow> (nat \<times> error_code \<times> 'w) option" where
  "service_send K impl bufs flags ec w = (case bufs of
      One_Buffer b \<Rightarrow> sync_send1 K (impl_socket impl) (impl_state impl) b flags ec w
    | Many_Buffers bs \<Rightarrow> let ad = make_adapter bs
        in sync_send K (impl_socket impl) (impl_state impl) (ad_buffers ad) flags (adapter_all_empty ad) ec w)"

definition service_receive ::
  "'w kernel \<Rightarrow> socket_impl \<Rightarrow> user_buffers \<Rightarrow> int \<Rightarrow> error_code \<Rightarrow> 'w \<Rightarrow> (nat \<times> error_code \<times> 'w) option" where
  "service_receive K impl bufs flags ec w = (case bufs of
      One_Buffer b \<Rightarrow> sync_recv1 K (impl_socket impl) (impl_state impl) b flags ec w
    | Many_Buffers bs \<Rightarrow> let ad = make_adapter bs
        in sync_recv K (impl_socket impl) (impl_state impl) (ad_buffers ad) flags (adapter_all_empty ad) ec w)"

text \<open>An endpoint: its protocol (family, type, number) and its address.\<close>

record endpoint =
  ep_protocol :: "int \<times> int \<times> int"
  ep_address :: sockaddr

definition service_connect :: "'w kernel \<Rightarrow> socket_impl \<Rightarrow> endpoint \<Rightarrow> error_code \<Rightarrow> 'w \<Rightarrow> error_code \<times> 'w" where
  "service_connect K impl ep ec w = sync_connect K (impl_socket impl) (ep_address ep) ec w"

text \<open>\<open>basic_socket::connect\<close>: a socket that is not open is opened with the protocol of the endpoint.\<close>

definition socket_connect ::
  "'w kernel \<Rightarrow> 'w epoll_ctl_func \<Rightarrow> socket_impl \<Rightarrow> endpoint \<Rightarrow> error_code \<Rightarrow> 'w \<Rightarrow> socket_impl \<times> error_code \<times> 'w" where
  "socket_connect K ctl impl ep ec w =
     (let (impl1, ec1, w1) = (if \<not> is_open impl
            then case ep_protocol ep of (af, type, protocol) \<Rightarrow> do_open K ctl impl af type protocol ec w
            else (impl, ec, w))
      in if \<not> is_open impl \<and> failed ec1 then (impl1, ec1, w1)
         else let (ec2, w2) = service_connect K impl1 ep ec1 w1 in (impl1, ec2, w2))"

section \<open>Connecting to a range of endpoints\<close>

fun connect_loop ::
  "'w kernel \<Rightarrow> 'w epoll_ctl_func \<Rightarrow> (error_code \<Rightarrow> endpoint \<Rightarrow> bool) \<Rightarrow> endpoint list \<Rightarrow> error_code \<Rightarrow> socket_impl \<Rightarrow> 'w \<Rightarrow>
   endpoint option \<times> error_code \<times> socket_impl \<times> 'w" where
  "connect_loop K ctl condition [] ec impl w = (None, ec, impl, w)"
| "connect_loop K ctl condition (ep # eps) ec impl w =
     (if condition ec ep then
        let (impl1, ec1, _, _, w1) = close_impl K ctl impl ec w;
            (impl2, ec2, w2) = socket_connect K ctl impl1 ep ec1 w1
        in if \<not> failed ec2 then (Some ep, ec2, impl2, w2)
           else connect_loop K ctl condition eps ec2 impl2 w2
      else connect_loop K ctl condition eps ec impl w)"

definition range_connect ::
  "'w kernel \<Rightarrow> 'w epoll_ctl_func \<Rightarrow> (error_code \<Rightarrow> endpoint \<Rightarrow> bool) \<Rightarrow> endpoint list \<Rightarrow> socket_impl \<Rightarrow> 'w \<Rightarrow>
   endpoint option \<times> error_code \<times> socket_impl \<times> 'w" where
  "range_connect K ctl condition eps impl w = (case connect_loop K ctl condition eps no_error impl w of
      (Some ep, ec, impl', w') \<Rightarrow> (Some ep, ec, impl', w')
    | (None, ec, impl', w') \<Rightarrow> (None, if \<not> failed ec then misc_ec not_found else ec, impl', w'))"

definition default_connect_condition :: "error_code \<Rightarrow> endpoint \<Rightarrow> bool" where
  "default_connect_condition ec ep = True"

text \<open>\<open>connect(s, endpoints)\<close> as the client calls it: an error is thrown.\<close>

definition connect_or_throw ::
  "'w kernel \<Rightarrow> 'w epoll_ctl_func \<Rightarrow> endpoint list \<Rightarrow> socket_impl \<Rightarrow> 'w \<Rightarrow> (error_code + endpoint option) \<times> socket_impl \<times> 'w" where
  "connect_or_throw K ctl eps impl w = (case range_connect K ctl default_connect_condition eps impl w of
      (result, ec, impl', w') \<Rightarrow> (throw_error ec (if failed ec then None else result), impl', w'))"

section \<open>Lemmas on native buffers\<close>

text \<open>The buffers that one operation can use: the first 64.\<close>

fun native_buffers :: "user_buffers \<Rightarrow> buffer list" where
  "native_buffers (One_Buffer b) = [b]"
| "native_buffers (Many_Buffers bs) = take adapter_max_buffers bs"

lemma buffer_size_Cons: "buffer_size (b # bs) = buf_size b + buffer_size bs"
  by (simp add: extents_def)

lemma take_diff_Cons: "take (m - i) (b # bs) = (if i < m then b # take (m - Suc i) bs else [])"
  by (cases "m - i") (auto simp: Suc_diff_Suc dest: arg_cong [where f = "\<lambda>n. n - 1"])

lemma adapter_init_eq:
  "adapter_init bs native count n =
     (native @ take (adapter_max_buffers - count) bs, count + min (adapter_max_buffers - count) (length bs),
      n + buffer_size (take (adapter_max_buffers - count) bs))"
proof (induction bs native count n rule: adapter_init.induct)
  case (1 b bs native count n)
  then show ?case
    by (auto simp: take_diff_Cons Suc_diff_Suc)
qed (simp add: buffer_size_def)

lemma make_adapter_eq:
  "make_adapter bs = \<lparr>ad_buffers = take adapter_max_buffers bs, ad_count = min adapter_max_buffers (length bs),
     ad_total_size = buffer_size (take adapter_max_buffers bs)\<rparr>"
  by (simp add: make_adapter_def adapter_init_eq)

lemma all_empty_loop_eq: "all_empty_loop bs i \<longleftrightarrow> buffer_size (take (adapter_max_buffers - i) bs) = 0"
proof (induction bs i rule: all_empty_loop.induct)
  case (1 b bs i)
  then show ?case
    by (auto simp: take_diff_Cons extent_def)
qed (simp add: buffer_size_def)

lemma buffers_all_empty_eq: "buffers_all_empty bufs \<longleftrightarrow> buffer_size (native_buffers bufs) = 0"
  by (cases bufs) (simp_all add: all_empty_loop_eq buffer_size_Cons buffer_size_def)

section \<open>Synchronous transfers\<close>

text \<open>
  A synchronous \<open>read_some\<close> or \<open>write_some\<close> on an open stream socket, with one buffer or a
  sequence: it returns as soon as the system lets it, never reports more bytes than the (first 64)
  buffers hold, reports 0 bytes without an error only if they are empty, and reports \<open>would_block\<close>
  only if the user made the socket non-blocking.
\<close>

lemma service_transfer_contract:
  assumes "is_open impl" "has_flag (impl_state impl) stream_oriented" "single_call_law K"
    and "recv_law K (impl_socket impl) (native_buffers bufs)" "send_law K (impl_socket impl) (native_buffers data)"
    and "poll_law K (impl_socket impl)"
    and "becomes_ready (k_recvmsg K (impl_socket impl) (native_buffers bufs) flags) (k_poll K (impl_socket impl) POLLIN (-1)) n w"
    and "becomes_ready (k_sendmsg K (impl_socket impl) (native_buffers data) (flags OR msg_nosignal))
      (k_poll K (impl_socket impl) POLLOUT (-1)) n w"
  shows "(\<exists>bytes ec' w'. service_receive K impl bufs flags ec w = Some (bytes, ec', w') \<and>
      stream_completion (native_buffers bufs) (ec', bytes) \<and>
      (is_blocking_error ec' \<longrightarrow> has_flag (impl_state impl) user_set_non_blocking)) \<and>
    (\<exists>bytes ec' w'. service_send K impl data flags ec w = Some (bytes, ec', w') \<and>
      stream_completion (native_buffers data) (ec', bytes) \<and>
      (is_blocking_error ec' \<longrightarrow> has_flag (impl_state impl) user_set_non_blocking))"
proof -
  have "service_receive K impl bufs flags ec w = sync_recv K (impl_socket impl) (impl_state impl)
      (native_buffers bufs) flags (buffer_size (native_buffers bufs) = 0) ec w"
    by (cases bufs) (simp_all add: service_receive_def sync_single [OF assms(3)] make_adapter_eq adapter_all_empty_def Let_def)
  moreover have "service_send K impl data flags ec w = sync_send K (impl_socket impl) (impl_state impl)
      (native_buffers data) flags (buffer_size (native_buffers data) = 0) ec w"
    by (cases data) (simp_all add: service_send_def sync_single [OF assms(3)] make_adapter_eq adapter_all_empty_def Let_def)
  ultimately show ?thesis
    using sync_recv_contract [of "impl_socket impl" "impl_state impl" K "native_buffers bufs" flags n w ec]
      sync_send_contract [of "impl_socket impl" "impl_state impl" K "native_buffers data" flags n w ec] assms
    by (simp only: is_open_def) blast
qed

section \<open>Asynchronous transfers\<close>

text \<open>
  The transfers of a session, by the identity of their operations. The operations of one socket
  keep a copy of its descriptor and state, of which only the stream flag matters to them.
\<close>

datatype io_request = Receive_Request user_buffers int | Send_Request user_buffers int

fun request_buffers :: "io_request \<Rightarrow> buffer list" where
  "request_buffers (Receive_Request bufs flags) = native_buffers bufs"
| "request_buffers (Send_Request bufs flags) = native_buffers bufs"

fun request_perform ::
  "'w kernel \<Rightarrow> socket_type \<Rightarrow> state_type \<Rightarrow> io_request \<Rightarrow> reactor_op \<Rightarrow> 'w \<Rightarrow> (status \<times> error_code \<times> nat \<times> 'w) option" where
  "request_perform K s state (Receive_Request bufs flags) op w = recv_do_perform K s state bufs flags op w"
| "request_perform K s state (Send_Request bufs flags) op w = send_do_perform K s state bufs flags op w"

definition performs ::
  "'w kernel \<Rightarrow> socket_type \<Rightarrow> (nat \<Rightarrow> io_request) \<Rightarrow> 'w perform_func \<Rightarrow> bool" where
  "performs K s requests pf \<longleftrightarrow>
     (\<forall>op w. request_perform K s stream_oriented (requests (op_id op)) op w = Some (pf op w))"

datatype service_event =
    Start_Transfer nat bool
  | Descriptor_Ready "32 word"
  | Cancel_All
  | Close_Socket

definition posted_list :: "op_type \<Rightarrow> 'w started_op \<Rightarrow> socket_impl \<times> finished_ops \<times> handler_call list \<times> 'w" where
  "posted_list t x = (case x of (impl, posted, calls, w) \<Rightarrow>
     (impl, (case posted of None \<Rightarrow> [] | Some op \<Rightarrow> [(t, op)]), calls, w))"

definition service_step ::
  "'w kernel \<Rightarrow> 'w epoll_ctl_func \<Rightarrow> 'w perform_func \<Rightarrow> (nat \<Rightarrow> io_request) \<Rightarrow> service_event \<Rightarrow> socket_impl \<Rightarrow> 'w \<Rightarrow>
   socket_impl \<times> finished_ops \<times> handler_call list \<times> 'w" where
  "service_step K ctl pf requests ev impl w = (case ev of
      Start_Transfer n cont \<Rightarrow> (case requests n of
          Receive_Request bufs flags \<Rightarrow>
            posted_list (if flags AND 1 \<noteq> 0 then Except_Op else Read_Op) (async_receive K ctl pf impl n bufs flags cont w)
        | Send_Request bufs flags \<Rightarrow> posted_list Write_Op (async_send K ctl pf impl n bufs cont w))
    | Descriptor_Ready events \<Rightarrow> (case reactor_data impl of
          None \<Rightarrow> (impl, [], [], w)
        | Some dd \<Rightarrow> let (dd', completed, calls, _, w') = do_complete True pf events dd w
                    in (impl\<lparr>reactor_data := Some dd'\<rparr>, completed, calls, w'))
    | Cancel_All \<Rightarrow> let (impl', _, ops, calls) = cancel_impl impl in (impl', ops, calls, w)
    | Close_Socket \<Rightarrow> let (impl', _, ops, calls, w') = close_impl K ctl impl no_error w in (impl', ops, calls, w'))"

fun service_trace ::
  "'w kernel \<Rightarrow> 'w epoll_ctl_func \<Rightarrow> 'w perform_func \<Rightarrow> (nat \<Rightarrow> io_request) \<Rightarrow> service_event list \<Rightarrow> socket_impl \<Rightarrow> 'w \<Rightarrow>
   socket_impl \<times> finished_ops \<times> handler_call list \<times> 'w" where
  "service_trace K ctl pf requests [] impl w = (impl, [], [], w)"
| "service_trace K ctl pf requests (ev # evs) impl w =
     (let (impl1, finished1, calls1, w1) = service_step K ctl pf requests ev impl w;
          (impl2, finished2, calls2, w2) = service_trace K ctl pf requests evs impl1 w1
      in (impl2, finished1 @ finished2, calls1 @ calls2, w2))"

text \<open>What the system promises for a stream: the laws of the transfers, and that failing calls set \<open>errno\<close>.\<close>

definition stream_system :: "'w kernel \<Rightarrow> 'w epoll_ctl_func \<Rightarrow> socket_type \<Rightarrow> bool" where
  "stream_system K ctl s \<longleftrightarrow> single_call_law K \<and> (\<forall>bufs. recv_law K s bufs \<and> send_law K s bufs) \<and>
     (\<forall>c fd ev w r errno w'. ctl c fd ev w = ((r, errno), w') \<longrightarrow> r \<noteq> 0 \<longrightarrow> errno \<noteq> 0) \<and>
     (\<forall>fd c arg w r errno v w'. k_ioctl K fd c arg w = ((r, errno), v, w') \<longrightarrow> r < 0 \<longrightarrow> errno \<noteq> 0)"

definition transfer_ok :: "(nat \<Rightarrow> io_request) \<Rightarrow> reactor_op \<Rightarrow> bool" where
  "transfer_ok requests op \<longleftrightarrow> stream_completion (request_buffers (requests (op_id op))) (op_ec op, op_bytes op)"

definition untouched :: "reactor_op \<Rightarrow> bool" where
  "untouched op \<longleftrightarrow> op_bytes op = 0"

definition data_ok :: "descriptor_state option \<Rightarrow> bool" where
  "data_ok data \<longleftrightarrow> (case data of None \<Rightarrow> True
     | Some dd \<Rightarrow> \<not> ds_shutdown dd \<and> (\<forall>t. list_all untouched (ds_queue dd t)))"

lemma has_stream_flag [simp]: "has_flag stream_oriented stream_oriented"
  by (simp only: has_flag_def stream_oriented_def) simp

lemma recv_do_perform_native:
  assumes "single_call_law K"
  shows "recv_do_perform K s stream_oriented bufs flags op w =
    map_option (\<lambda>(finished, ec, bytes, w').
        (if finished then if bytes = 0 then Done_And_Exhausted else Done else Not_Done, ec, bytes, w'))
      (non_blocking_recv K s (native_buffers bufs) flags True (op_ec op) (op_bytes op) w)"
  by (cases bufs) (simp_all add: recv_do_perform_def make_adapter_eq non_blocking_recv1_single [OF assms] Let_def
      case_prod_unfold del: flag_bits cong: if_cong)

lemma send_do_perform_native:
  assumes "single_call_law K"
  shows "send_do_perform K s stream_oriented bufs flags op w =
    map_option (\<lambda>(finished, ec, bytes, w').
        (if finished then if bytes < buffer_size (native_buffers bufs) then Done_And_Exhausted else Done
         else Not_Done, ec, bytes, w'))
      (non_blocking_send K s (native_buffers bufs) flags (op_ec op) (op_bytes op) w)"
  by (cases bufs) (simp_all add: send_do_perform_def make_adapter_eq non_blocking_send1_single [OF assms] Let_def
      case_prod_unfold del: flag_bits cong: if_cong)

lemma attempt_status:
  assumes "attempt_ok bufs 0 (finished, ec, n, w)" "st \<noteq> Not_Done \<longleftrightarrow> finished"
  shows "(st \<noteq> Not_Done \<longrightarrow> stream_completion bufs (ec, n)) \<and> (st = Not_Done \<longrightarrow> n = 0)"
  using assms by (auto simp: attempt_ok_def)

lemma request_perform_ok:
  assumes "request_perform K s stream_oriented r op w = Some (st, ec, n, w')" "stream_system K ctl s" "untouched op"
  shows "(st \<noteq> Not_Done \<longrightarrow> stream_completion (request_buffers r) (ec, n)) \<and> (st = Not_Done \<longrightarrow> n = 0)"
proof -
  have laws: "single_call_law K" "recv_law K s bufs" "send_law K s bufs" for bufs
    using assms(2) by (simp_all add: stream_system_def)
  show ?thesis
  proof (cases r)
    case (Receive_Request bufs flags)
    then obtain finished where
      "non_blocking_recv K s (native_buffers bufs) flags True (op_ec op) 0 w = Some (finished, ec, n, w')"
      "st \<noteq> Not_Done \<longleftrightarrow> finished"
      using assms(1,3) by (auto simp: recv_do_perform_native [OF laws(1)] untouched_def split: if_splits)
    from attempt_status [OF non_blocking_recv_returns [OF this(1) laws(2)] this(2)] show ?thesis
      by (simp add: Receive_Request)
  next
    case (Send_Request bufs flags)
    then obtain finished where
      "non_blocking_send K s (native_buffers bufs) flags (op_ec op) 0 w = Some (finished, ec, n, w')"
      "st \<noteq> Not_Done \<longleftrightarrow> finished"
      using assms(1,3) by (auto simp: send_do_perform_native [OF laws(1)] untouched_def split: if_splits)
    from attempt_status [OF non_blocking_send_returns [OF this(1) laws(3)] this(2)] show ?thesis
      by (simp add: Send_Request)
  qed
qed

lemma perform_op_ok:
  assumes "performs K s requests pf" "stream_system K ctl s" "untouched op" "perform_op pf op w = (st, op', w')"
  shows "(st \<noteq> Not_Done \<longrightarrow> transfer_ok requests op') \<and> (st = Not_Done \<longrightarrow> untouched op')"
proof -
  obtain ec n where pf: "pf op w = (st, ec, n, w')" and op': "op' = op\<lparr>op_ec := ec, op_bytes := n\<rparr>"
    using assms(4) by (auto simp: perform_op_def split: prod.splits)
  have "request_perform K s stream_oriented (requests (op_id op)) op w = Some (st, ec, n, w')"
    using assms(1) pf by (simp add: performs_def)
  from request_perform_ok [OF this assms(2,3)] show ?thesis
    by (simp add: op' transfer_ok_def untouched_def)
qed

lemma failed_transfer_ok [simp]:
  "untouched op \<Longrightarrow> failed ec \<Longrightarrow> transfer_ok requests (set_ec ec op)"
  by (simp add: transfer_ok_def untouched_def set_ec_def stream_completion_def)

lemma untouched_simps [simp]: "untouched (new_op n)" "untouched (set_ec ec op) = untouched op"
  by (simp_all add: untouched_def new_op_def set_ec_def)

lemma perform_ops_ok:
  assumes "performs K s requests pf" "stream_system K ctl s"
    "perform_ops pf queue spec w = (completed, queue', spec', w')" "list_all untouched queue"
  shows "list_all (transfer_ok requests) completed \<and> list_all untouched queue'"
  using assms(3,4)
proof (induction queue arbitrary: w completed queue' spec' w')
  case (Cons op queue)
  obtain st op' w1 where op: "perform_op pf op w = (st, op', w1)"
    by (metis prod.exhaust)
  obtain c q s2 w2 where rest: "perform_ops pf queue spec w1 = (c, q, s2, w2)"
    by (metis prod.exhaust)
  have "(st \<noteq> Not_Done \<longrightarrow> transfer_ok requests op') \<and> (st = Not_Done \<longrightarrow> untouched op')"
    using perform_op_ok [OF assms(1,2) _ op] Cons.prems(2) by simp
  then show ?case
    using Cons.prems Cons.IH [OF rest] op rest by (cases st) auto
qed simp

definition finished_ok :: "(nat \<Rightarrow> io_request) \<Rightarrow> finished_ops \<Rightarrow> bool" where
  "finished_ok requests ops \<longleftrightarrow> (\<forall>x \<in> set ops. transfer_ok requests (snd x))"

lemma finished_ok_simps [simp]:
  "finished_ok requests []" "finished_ok requests (x # xs) \<longleftrightarrow> transfer_ok requests (snd x) \<and> finished_ok requests xs"
  "finished_ok requests (xs @ ys) \<longleftrightarrow> finished_ok requests xs \<and> finished_ok requests ys"
  "finished_ok requests (map (Pair t) ops) \<longleftrightarrow> list_all (transfer_ok requests) ops"
  by (auto simp: finished_ok_def list_all_iff)

lemma perform_io_type_ok:
  assumes "performs K s requests pf" "stream_system K ctl s"
    "perform_io_type pf events t (dd, completed, w) = (dd', completed', w')"
    "data_ok (Some dd)" "finished_ok requests completed"
  shows "data_ok (Some dd') \<and> finished_ok requests completed'"
proof -
  obtain c q s2 w2 where rest: "perform_ops pf (ds_queue dd t) True w = (c, q, s2, w2)"
    by (metis prod.exhaust)
  have "list_all untouched (ds_queue dd t)"
    using assms(4) by (simp add: data_ok_def)
  from perform_ops_ok [OF assms(1,2) rest this] show ?thesis
    using assms(3-5) rest by (auto simp: perform_io_type_def data_ok_def split: if_splits)
qed

lemma perform_io_ok:
  assumes "performs K s requests pf" "stream_system K ctl s"
    "perform_io pf events dd w = (dd', completed, calls, w')" "data_ok (Some dd)"
  shows "data_ok (Some dd') \<and> finished_ok requests completed"
proof -
  obtain d1 c1 w1 where 1: "perform_io_type pf events Except_Op (dd, [], w) = (d1, c1, w1)"
    by (metis prod.exhaust)
  obtain d2 c2 w2 where 2: "perform_io_type pf events Write_Op (d1, c1, w1) = (d2, c2, w2)"
    by (metis prod.exhaust)
  obtain d3 c3 w3 where 3: "perform_io_type pf events Read_Op (d2, c2, w2) = (d3, c3, w3)"
    by (metis prod.exhaust)
  note step = perform_io_type_ok [OF assms(1,2)]
  show ?thesis
    using assms(3) 1 2 3 step [OF 3] step [OF 2] step [OF 1 assms(4)] by (auto simp: perform_io_def)
qed

lemma drain_queues_ok:
  assumes "data_ok (Some dd)" "drain_queues dd = (dd', ops)"
  shows "data_ok (Some dd') \<and> finished_ok requests ops \<and> (\<forall>t. ds_queue dd' t = [])"
  using assms by (auto simp: drain_queues_eq data_ok_def finished_ok_def list_all_iff abort_op_def)

lemma start_op_ok:
  assumes "performs K s requests pf" "stream_system K ctl s" "data_ok data" "untouched op"
    "start_op ctl pf t fd data op cont spec w = (data', posted, calls, w')"
  shows "data_ok data' \<and> (\<forall>op'. posted = Some op' \<longrightarrow> transfer_ok requests op')"
proof (cases data)
  case None
  then show ?thesis
    using assms(4,5) by (auto simp: start_op_def data_ok_def)
next
  case (Some dd)
  obtain st op1 w1 where p: "perform_op pf op w = (st, op1, w1)"
    by (metis prod.exhaust)
  obtain r errno w2 where c: "ctl EPOLL_CTL_MOD fd (registered_events dd OR epoll_out) w1 = ((r, errno), w2)"
    by (metis prod.exhaust)
  obtain r' errno' w2' where c': "ctl EPOLL_CTL_MOD fd (registered_events dd OR epoll_out) w = ((r', errno'), w2')"
    by (metis prod.exhaust)
  have errno: "r \<noteq> 0 \<longrightarrow> errno \<noteq> 0" "r' \<noteq> 0 \<longrightarrow> errno' \<noteq> 0"
    using assms(2) c c' unfolding stream_system_def by blast+
  have "\<not> ds_shutdown dd" "\<forall>t. list_all untouched (ds_queue dd t)"
    using assms(3) Some by (simp_all add: data_ok_def)
  then show ?thesis
    using assms(4,5) Some p c c' errno perform_op_ok [OF assms(1,2,4) p]
    by (auto simp: start_op_def data_ok_def Let_def failed_def split: if_splits prod.splits)
qed

lemma reactor_start_ok:
  assumes "performs K s requests pf" "stream_system K ctl s" "data_ok (reactor_data impl)" "untouched op"
    "reactor_start ctl pf impl t op cont spec w = (impl', posted, calls, w')"
  shows "data_ok (reactor_data impl') \<and> (\<forall>op'. posted = Some op' \<longrightarrow> transfer_ok requests op')"
  using assms(5) start_op_ok [OF assms(1-4)]
  by (auto simp: reactor_start_def split: prod.splits)

lemma set_internal_fails:
  assumes "stream_system K ctl s'" "set_internal_non_blocking K s state True ec w = (False, ec', state', w')"
  shows "failed ec'"
proof (cases "s = invalid_socket")
  case False
  obtain r errno v w1 where call: "k_ioctl K s FIONBIO 1 w = ((r, errno), v, w1)"
    by (metis prod.exhaust)
  then have "r < 0 \<longrightarrow> errno \<noteq> 0"
    using assms(1) unfolding stream_system_def by blast
  with False call assms(2) show ?thesis
    by (auto simp: set_internal_non_blocking_def get_last_error_def failed_def Let_def split: if_splits)
qed (use assms(2) in \<open>auto simp: set_internal_non_blocking_def failed_def\<close>)

lemma do_start_op_ok:
  assumes "performs K s requests pf" "stream_system K ctl s" "data_ok (reactor_data impl)" "untouched op"
    "do_start_op K ctl pf impl t op cont nb noop w = (impl', posted, calls, w')" "noop \<longrightarrow> transfer_ok requests op"
  shows "data_ok (reactor_data impl') \<and> (\<forall>op'. posted = Some op' \<longrightarrow> transfer_ok requests op')"
proof -
  obtain ok ec state w1 where set: "set_internal_non_blocking K (impl_socket impl) (impl_state impl) True (op_ec op) w
      = (ok, ec, state, w1)"
    by (metis prod.exhaust)
  note start = reactor_start_ok [OF assms(1,2), of "impl\<lparr>impl_state := state\<rparr>" "set_ec ec op" t cont nb w1]
    reactor_start_ok [OF assms(1-4)]
  have "\<not> ok \<longrightarrow> failed ec"
    using set_internal_fails [OF assms(2), of "impl_socket impl" "impl_state impl" "op_ec op" w ec state w1] set
    by (cases ok) simp_all
  then show ?thesis
    using assms(3-6) set start
    by (auto simp: do_start_op_def post_op_def Let_def simp del: non_blocking_flag split: if_splits)
qed

lemma noop_ok:
  assumes "buffers_all_empty bufs" "requests n = Receive_Request bufs flags \<or> requests n = Send_Request bufs flags"
  shows "transfer_ok requests (new_op n)"
  using assms by (auto simp: transfer_ok_def new_op_def stream_completion_def buffers_all_empty_eq)

lemma deregister_ok:
  assumes "data_ok data" "deregister_descriptor ctl fd closing data w = (data', ops, calls, w')"
  shows "finished_ok requests ops"
proof (cases data)
  case (Some dd)
  obtain dd1 ops1 where "drain_queues dd = (dd1, ops1)"
    by (metis prod.exhaust)
  then show ?thesis
    using drain_queues_ok [of dd dd1 ops1] assms Some by (auto simp: deregister_descriptor_def data_ok_def)
qed (use assms(2) in \<open>auto simp: deregister_descriptor_def\<close>)

lemma cancel_ops_ok:
  assumes "data_ok data" "cancel_ops data = (data', ops, calls)"
  shows "data_ok data' \<and> finished_ok requests ops"
proof (cases data)
  case (Some dd)
  obtain dd1 ops1 where "drain_queues dd = (dd1, ops1)"
    by (metis prod.exhaust)
  then show ?thesis
    using drain_queues_ok [of dd dd1 ops1] assms Some by (auto simp: cancel_ops_def)
qed (use assms in \<open>auto simp: cancel_ops_def\<close>)

lemma service_step_ok:
  assumes "performs K s requests pf" "stream_system K ctl s" "data_ok (reactor_data impl)"
    "service_step K ctl pf requests ev impl w = (impl', finished, calls, w')"
  shows "data_ok (reactor_data impl') \<and> finished_ok requests finished"
proof (cases ev)
  case (Start_Transfer n cont)
  note start = do_start_op_ok [OF assms(1-3) untouched_simps(1)]
  show ?thesis
  proof (cases "requests n")
    case (Receive_Request bufs flags)
    then show ?thesis
      using assms(4) Start_Transfer start noop_ok [of bufs requests n flags]
      by (auto simp: service_step_def posted_list_def async_receive_def finished_ok_def
          simp del: flag_bits split: prod.splits option.splits)
  next
    case (Send_Request bufs flags)
    then show ?thesis
      using assms(4) Start_Transfer start noop_ok [of bufs requests n flags]
      by (auto simp: service_step_def posted_list_def async_send_def finished_ok_def
          simp del: flag_bits split: prod.splits option.splits)
  qed
next
  case (Descriptor_Ready events)
  then show ?thesis
    using assms(3,4) perform_io_ok [OF assms(1,2)]
    by (auto simp: service_step_def do_complete_def Let_def split: option.splits prod.splits)
next
  case Cancel_All
  then show ?thesis
    using assms(3,4) cancel_ops_ok [of "reactor_data impl"]
    by (auto simp: service_step_def cancel_impl_def split: prod.splits if_splits)
next
  case Close_Socket
  obtain data ops c w1 where d: "deregister_descriptor ctl (impl_socket impl)
      (\<not> has_flag (impl_state impl) possible_dup) (reactor_data impl) w = (data, ops, c, w1)"
    by (metis prod.exhaust)
  obtain r ec st w2 where s: "close_socket K (impl_socket impl) (impl_state impl) False no_error w1 = (r, ec, st, w2)"
    by (metis prod.exhaust)
  show ?thesis
    using Close_Socket assms(4) deregister_ok [OF assms(3) d] d s
    by (auto simp: service_step_def close_impl_def construct_def data_ok_def split: if_splits)
qed

text \<open>
  C26. Every asynchronous transfer that is started on a socket, in any sequence of starts, readiness
  events, cancellations and closing, whatever the system calls report: when it is finished, the
  error code and byte count that its handler receives keep to the contract of a stream, that is to
  what the composed operations \<open>async_read\<close> and \<open>async_write\<close> rely on.
\<close>

theorem async_transfers_keep_contract:
  assumes "performs K s requests pf" "stream_system K ctl s" "data_ok (reactor_data impl)"
    "service_trace K ctl pf requests evs impl w = (impl', finished, calls, w')" "(t, op) \<in> set finished"
  shows "stream_completion (request_buffers (requests (op_id op))) (op_ec op, op_bytes op)"
proof -
  have "finished_ok requests finished"
    using assms(3,4)
  proof (induction evs arbitrary: impl w finished calls)
    case (Cons ev evs)
    obtain i1 f1 c1 w1 where step: "service_step K ctl pf requests ev impl w = (i1, f1, c1, w1)"
      by (metis prod.exhaust)
    obtain i2 f2 c2 w2 where rest: "service_trace K ctl pf requests evs i1 w1 = (i2, f2, c2, w2)"
      by (metis prod.exhaust)
    show ?case
      using Cons service_step_ok [OF assms(1,2) Cons.prems(1) step] step rest by auto
  qed simp
  then show ?thesis
    using assms(5) by (auto simp: finished_ok_def transfer_ok_def)
qed

section \<open>Connecting to a range of endpoints, correctness\<close>

text \<open>
  One attempt as the loop makes it: the socket is closed and connected to the endpoint, and then a
  sequence of attempts of which every one fails, with the state after the last one.
\<close>

definition attempt_endpoint ::
  "'w kernel \<Rightarrow> 'w epoll_ctl_func \<Rightarrow> endpoint \<Rightarrow> error_code \<times> socket_impl \<times> 'w \<Rightarrow> error_code \<times> socket_impl \<times> 'w" where
  "attempt_endpoint K ctl ep st = (case st of (ec, impl, w) \<Rightarrow>
     let (impl1, ec1, _, _, w1) = close_impl K ctl impl ec w;
         (impl2, ec2, w2) = socket_connect K ctl impl1 ep ec1 w1
     in (ec2, impl2, w2))"

fun failing_attempts ::
  "'w kernel \<Rightarrow> 'w epoll_ctl_func \<Rightarrow> endpoint list \<Rightarrow> error_code \<times> socket_impl \<times> 'w \<Rightarrow>
   (error_code \<times> socket_impl \<times> 'w) option" where
  "failing_attempts K ctl [] st = Some st"
| "failing_attempts K ctl (ep # eps) st =
     (let st' = attempt_endpoint K ctl ep st in if failed (fst st') then failing_attempts K ctl eps st' else None)"

definition connected_to ::
  "'w kernel \<Rightarrow> 'w epoll_ctl_func \<Rightarrow> endpoint list \<Rightarrow> error_code \<times> socket_impl \<times> 'w \<Rightarrow> endpoint \<Rightarrow>
   error_code \<times> socket_impl \<times> 'w \<Rightarrow> bool" where
  "connected_to K ctl eps st ep st' \<longleftrightarrow> (\<exists>pre post st1. eps = pre @ ep # post \<and>
     failing_attempts K ctl pre st = Some st1 \<and> attempt_endpoint K ctl ep st1 = st' \<and> \<not> failed (fst st'))"

lemma connected_to_Cons:
  assumes "attempt_endpoint K ctl ep st = st1" "failed (fst st1)" "connected_to K ctl eps st1 ep' st'"
  shows "connected_to K ctl (ep # eps) st ep' st'"
proof -
  obtain pre post st2 where "eps = pre @ ep' # post" "failing_attempts K ctl pre st1 = Some st2"
    "attempt_endpoint K ctl ep' st2 = st'" "\<not> failed (fst st')"
    using assms(3) by (auto simp: connected_to_def)
  then show ?thesis
    unfolding connected_to_def using assms(1,2)
    by (intro exI [of _ "ep # pre"] exI [of _ post] exI [of _ st2]) simp
qed

lemma connect_loop_cases:
  assumes "connect_loop K ctl default_connect_condition eps ec impl w = (result, ec', impl', w')"
  shows "case result of
      Some ep \<Rightarrow> connected_to K ctl eps (ec, impl, w) ep (ec', impl', w')
    | None \<Rightarrow> failing_attempts K ctl eps (ec, impl, w) = Some (ec', impl', w')"
  using assms
proof (induction eps arbitrary: ec impl w)
  case (Cons ep eps)
  obtain impl1 ec1 ops calls w1 where c: "close_impl K ctl impl ec w = (impl1, ec1, ops, calls, w1)"
    by (metis prod.exhaust)
  obtain impl2 ec2 w2 where s: "socket_connect K ctl impl1 ep ec1 w1 = (impl2, ec2, w2)"
    by (metis prod.exhaust)
  have a: "attempt_endpoint K ctl ep (ec, impl, w) = (ec2, impl2, w2)"
    by (simp add: attempt_endpoint_def c s)
  show ?case
  proof (cases "failed ec2")
    case True
    then show ?thesis
      using Cons.IH [of ec2 impl2 w2] Cons.prems c s a connected_to_Cons [OF a, of eps]
      by (auto simp: default_connect_condition_def split: option.splits)
  next
    case False
    then have "connected_to K ctl (ep # eps) (ec, impl, w) ep (ec2, impl2, w2)"
      unfolding connected_to_def using a by (intro exI [of _ "[]"] exI [of _ eps] exI [of _ "(ec, impl, w)"]) simp
    with False show ?thesis
      using Cons.prems c s by (auto simp: default_connect_condition_def)
  qed
qed simp

lemma failing_attempts_failed:
  "failing_attempts K ctl eps st = Some st' \<Longrightarrow> eps \<noteq> [] \<Longrightarrow> failed (fst st')"
proof (induction eps arbitrary: st)
  case (Cons ep eps)
  then show ?case
    by (cases eps) (auto simp: Let_def split: if_splits)
qed simp

lemma connected_is_open:
  assumes "attempt_endpoint K ctl ep st = (ec, impl, w)" "\<not> failed ec"
  shows "is_open impl"
  using assms
  by (auto simp: attempt_endpoint_def socket_connect_def service_connect_def sync_connect_def connect_def is_open_def Let_def
      split: prod.splits if_splits)

text \<open>
  C31. \<open>connect\<close> as the client calls it, for every list of endpoints and whatever the system calls
  report: it tries the endpoints in order, each on a socket that was closed before; it returns the
  first endpoint whose attempt succeeds, with the socket open, and then tries no other; it throws
  exactly if there is none, namely the error of the last attempt, or \<open>not_found\<close> for an empty list.
\<close>

theorem range_connect_first_success:
  "case connect_or_throw K ctl eps impl w of
     (Inr result, impl', w') \<Rightarrow> \<exists>ep ec'. result = Some ep \<and>
       connected_to K ctl eps (no_error, impl, w) ep (ec', impl', w') \<and> is_open impl'
   | (Inl ec, impl', w') \<Rightarrow> failed ec \<and>
       (if eps = [] then ec = misc_ec not_found \<and> impl' = impl \<and> w' = w
        else failing_attempts K ctl eps (no_error, impl, w) = Some (ec, impl', w'))"
proof -
  obtain result ec' impl' w' where loop:
      "connect_loop K ctl default_connect_condition eps no_error impl w = (result, ec', impl', w')"
    by (metis prod.exhaust)
  show ?thesis
  proof (cases result)
    case None
    then have *: "failing_attempts K ctl eps (no_error, impl, w) = Some (ec', impl', w')"
      using connect_loop_cases [OF loop] by simp
    then have "eps \<noteq> [] \<Longrightarrow> failed ec'"
      using failing_attempts_failed by fastforce
    with * show ?thesis
      by (cases "eps = []") (auto simp: connect_or_throw_def range_connect_def loop None throw_error_def)
  next
    case (Some ep)
    then have *: "connected_to K ctl eps (no_error, impl, w) ep (ec', impl', w')"
      using connect_loop_cases [OF loop] by simp
    then have "\<not> failed ec'" "is_open impl'"
      using connected_is_open by (fastforce simp: connected_to_def)+
    with * show ?thesis
      by (auto simp: connect_or_throw_def range_connect_def loop Some throw_error_def)
  qed
qed

section \<open>Witnesses\<close>

definition demo_impl :: socket_impl where
  "demo_impl = \<lparr>impl_socket = 3, impl_state = stream_oriented, reactor_data = Some demo_descriptor\<rparr>"

lemma service_transfer_contract_example:
  "(\<exists>bytes ec' w'. service_receive (demo_kernel 11) demo_impl (One_Buffer demo_buffer) 0 no_error 2 = Some (bytes, ec', w') \<and>
     stream_completion [demo_buffer] (ec', bytes)) \<and>
   (\<exists>bytes ec' w'. service_send (demo_kernel 11) demo_impl (Many_Buffers [demo_buffer]) 0 no_error 2 = Some (bytes, ec', w') \<and>
     stream_completion [demo_buffer] (ec', bytes))"
  using service_transfer_contract [of demo_impl "demo_kernel 11" "One_Buffer demo_buffer" "Many_Buffers [demo_buffer]" 0 2 2 no_error]
  by (auto simp: demo_impl_def is_open_def invalid_socket_def adapter_max_buffers_def simp del: flag_bits)

text \<open>The receive and send operations on this system: one refusal, then up to three bytes.\<close>

definition demo_io_requests :: "nat \<Rightarrow> io_request" where
  "demo_io_requests n = (if n = 7 then Receive_Request (One_Buffer demo_buffer) 0 else Send_Request (One_Buffer demo_buffer) 0)"

definition demo_transfer :: "nat perform_func" where
  "demo_transfer op w =
     (if w = 0 then (if op_id op = 7 then Done else Done_And_Exhausted, clear_ec (op_ec op), 3, 0)
      else (Not_Done, basic_ec would_block, op_bytes op, w - 1))"

lemma demo_performs [simp]: "performs (demo_kernel 11) 3 demo_io_requests demo_transfer"
  unfolding performs_def demo_io_requests_def
  by (auto simp: recv_do_perform_def send_do_perform_def non_blocking_recv1.simps non_blocking_send1.simps recv1_def send1_def
      demo_kernel_def demo_transfer_def demo_buffer_def get_last_error_def is_blocking_error_def basic_ec_def buffer_size_def
      simp del: flag_bits)

lemma demo_sends: "send_law (demo_kernel 11) s bufs" "k_ioctl (demo_kernel 11) s c arg w = ((r, errno), v, w') \<Longrightarrow> r = 0"
  by (auto simp: send_law_def demo_kernel_def min_def split: if_splits)

lemma demo_stream_system [simp]: "stream_system (demo_kernel 11) demo_ctl 3"
  by (auto simp: stream_system_def demo_sends(1) demo_ctl_def dest: demo_sends(2))

theorem async_transfers_keep_contract_witness:
  "\<exists>op1 op2. fst (snd (service_trace (demo_kernel 11) demo_ctl demo_transfer demo_io_requests
       [Start_Transfer 7 False, Start_Transfer 8 False, Descriptor_Ready epoll_in] demo_impl 0)) = [(Write_Op, op1), (Read_Op, op2)] \<and>
     op_id op2 = 7 \<and> stream_completion [demo_buffer] (op_ec op2, op_bytes op2)"
proof -
  obtain i f c w where run: "service_trace (demo_kernel 11) demo_ctl demo_transfer demo_io_requests
       [Start_Transfer 7 False, Start_Transfer 8 False, Descriptor_Ready epoll_in] demo_impl 0 = (i, f, c, w)"
    by (metis prod.exhaust)
  have "map (map_prod id op_id) (fst (snd (service_trace (demo_kernel 11) demo_ctl demo_transfer demo_io_requests
       [Start_Transfer 7 False, Start_Transfer 8 False, Descriptor_Ready epoll_in] demo_impl 0))) = [(Write_Op, 8), (Read_Op, 7)]"
    by code_simp
  then have "map (map_prod id op_id) f = [(Write_Op, 8), (Read_Op, 7)]"
    unfolding run by simp
  then obtain op1 op2 where f: "f = [(Write_Op, op1), (Read_Op, op2)]" "op_id op2 = 7"
    by auto
  moreover have "data_ok (reactor_data demo_impl)"
    by (simp add: demo_impl_def data_ok_def demo_descriptor_def new_descriptor_state_def)
  ultimately have "stream_completion (request_buffers (demo_io_requests (op_id op2))) (op_ec op2, op_bytes op2)"
    using async_transfers_keep_contract [OF demo_performs demo_stream_system _ run, of Read_Op op2] by simp
  with f show ?thesis
    unfolding run by (simp add: demo_io_requests_def)
qed

end
