(* ===== verification/Asio_Acceptor.thy ===== *)
theory Asio_Acceptor
  imports Asio_Socket_Service
begin

text \<open>
  Model of the acceptor of the server: its constructor (\<open>basic_socket_acceptor.hpp\<close>), accepting
  through the service (\<open>detail/reactive_socket_service.hpp\<close>), and the completion of an accept
  operation (\<open>detail/reactive_socket_accept_op.hpp\<close>). The theory shows who owns the descriptors of the
  process: a descriptor that the system hands out belongs to exactly one socket object or is closed
  again, for the acceptor, for accepted connections and for the sockets of \<open>connect\<close>.
\<close>

section \<open>The constructor\<close>

definition service_set_option ::
  "'w kernel \<Rightarrow> socket_impl \<Rightarrow> socket_option \<Rightarrow> 8 word list \<Rightarrow> error_code \<Rightarrow> 'w \<Rightarrow> socket_impl \<times> error_code \<times> 'w" where
  "service_set_option K impl opt optval ec w =
     (case setsockopt K (impl_socket impl) (impl_state impl) opt optval ec w of (_, ec', state, w') \<Rightarrow>
        (impl\<lparr>impl_state := state\<rparr>, ec', w'))"

definition service_bind :: "'w kernel \<Rightarrow> socket_impl \<Rightarrow> endpoint \<Rightarrow> error_code \<Rightarrow> 'w \<Rightarrow> error_code \<times> 'w" where
  "service_bind K impl ep ec w = (case bind_socket K (impl_socket impl) (ep_address ep) ec w of (_, ec', w') \<Rightarrow> (ec', w'))"

definition service_listen :: "'w kernel \<Rightarrow> socket_impl \<Rightarrow> int \<Rightarrow> error_code \<Rightarrow> 'w \<Rightarrow> error_code \<times> 'w" where
  "service_listen K impl backlog ec w = (case listen K (impl_socket impl) backlog ec w of (_, ec', w') \<Rightarrow> (ec', w'))"

text \<open>A constructor that throws destroys its member \<open>impl_\<close>, and with it the socket.\<close>

definition construction_throws ::
  "'w kernel \<Rightarrow> 'w epoll_ctl_func \<Rightarrow> error_code \<Rightarrow> socket_impl \<Rightarrow> 'w \<Rightarrow> (error_code + socket_impl) \<times> 'w" where
  "construction_throws K ctl ec impl w = (case destroy_impl K ctl impl w of (_, _, _, w') \<Rightarrow> (Inl ec, w'))"

text \<open>
  \<open>reuse_address(true)\<close> is an \<open>int\<close> with the value 1; \<open>somaxconn\<close> is the constant \<open>SOMAXCONN\<close> of the
  system.
\<close>

definition acceptor_construct ::
  "'w kernel \<Rightarrow> 'w epoll_ctl_func \<Rightarrow> int \<Rightarrow> endpoint \<Rightarrow> bool \<Rightarrow> 'w \<Rightarrow> (error_code + socket_impl) \<times> 'w" where
  "acceptor_construct K ctl somaxconn ep reuse_addr w =
     (let (af, type, protocol) = ep_protocol ep;
          (impl1, ec1, w1) = do_open K ctl construct af type protocol no_error w
      in if failed ec1 then construction_throws K ctl ec1 impl1 w1
         else
           let (impl2, ec2, w2) = (if reuse_addr then service_set_option K impl1 Other_Option [1, 0, 0, 0] ec1 w1
                                   else (impl1, ec1, w1))
           in if failed ec2 then construction_throws K ctl ec2 impl2 w2
              else
                let (ec3, w3) = service_bind K impl2 ep ec2 w2
                in if failed ec3 then construction_throws K ctl ec3 impl2 w3
                   else
                     let (ec4, w4) = service_listen K impl2 somaxconn ec3 w3
                     in if failed ec4 then construction_throws K ctl ec4 impl2 w4 else (Inr impl2, w4))"

section \<open>Accepting\<close>

text \<open>
  The common part of \<open>accept\<close> and of the accept operation: a new socket is assigned to the peer, and
  stays with its holder if this fails. The results are the peer, the error code, what the holder
  has, and the world.
\<close>

definition accept_do_assign ::
  "'w epoll_ctl_func \<Rightarrow> int \<Rightarrow> socket_impl \<Rightarrow> error_code \<Rightarrow> socket_type \<Rightarrow> 'w \<Rightarrow>
   socket_impl \<times> error_code \<times> socket_type \<times> 'w" where
  "accept_do_assign ctl type peer ec held w =
     (if held \<noteq> invalid_socket then
        let (peer', ec', w') = do_assign ctl peer type held w
        in (peer', ec', if \<not> failed ec' then invalid_socket else held, w')
      else (peer, ec, held, w))"

definition service_accept ::
  "'w kernel \<Rightarrow> 'w epoll_ctl_func \<Rightarrow> int \<Rightarrow> socket_impl \<Rightarrow> socket_impl \<Rightarrow> error_code \<Rightarrow> 'w \<Rightarrow>
   (socket_impl \<times> error_code \<times> 'w) option" where
  "service_accept K ctl type impl peer ec w =
     (if is_open peer then Some (peer, misc_ec already_open, w)
      else map_option (\<lambda>(new_socket, ec1, w1).
             let (peer', ec2, held, w2) = accept_do_assign ctl type peer ec1 new_socket w1
             in (peer', ec2, snd (holder_reset K held w2)))
           (sync_accept K (impl_socket impl) (impl_state impl) ec w))"

definition async_accept ::
  "'w kernel \<Rightarrow> 'w epoll_ctl_func \<Rightarrow> 'w perform_func \<Rightarrow> socket_impl \<Rightarrow> nat \<Rightarrow> socket_impl \<Rightarrow> bool \<Rightarrow> 'w \<Rightarrow> 'w started_op" where
  "async_accept K ctl pf impl n peer is_continuation w =
     do_start_accept_op K ctl pf impl (new_op n) is_continuation (is_open peer) w"

text \<open>
  The completion of the operation: with an owner the new socket is assigned and the handler called
  with the error code; in both cases the operation is destroyed, and with it the holder.
\<close>

definition accept_do_complete ::
  "'w kernel \<Rightarrow> 'w epoll_ctl_func \<Rightarrow> int \<Rightarrow> bool \<Rightarrow> socket_impl \<Rightarrow> error_code \<Rightarrow> socket_type \<Rightarrow> 'w \<Rightarrow>
   socket_impl \<times> error_code option \<times> 'w" where
  "accept_do_complete K ctl type owner peer ec held w =
     (let (peer', ec', held', w') = (if owner then accept_do_assign ctl type peer ec held w else (peer, ec, held, w))
      in (peer', if owner then Some ec' else None, snd (holder_reset K held' w')))"

section \<open>Descriptors\<close>

text \<open>
  What the system calls do to the open descriptors of the process, \<open>fds\<close>: \<open>socket\<close> and \<open>accept\<close> open a
  new one or fail, \<open>close\<close> closes it, even if it reports an error, and the others leave them alone.
\<close>

definition opens :: "('w \<Rightarrow> int set) \<Rightarrow> 'w call \<Rightarrow> bool" where
  "opens fds call \<longleftrightarrow> (\<forall>w s errno w'. call w = ((s, errno), w') \<longrightarrow>
     (if s = -1 then errno \<noteq> 0 \<and> fds w' = fds w else s \<ge> 0 \<and> s \<notin> fds w \<and> fds w' = insert s (fds w)))"

definition keeps :: "('w \<Rightarrow> 'x) \<Rightarrow> 'w call \<Rightarrow> bool" where
  "keeps fds call \<longleftrightarrow> (\<forall>w. fds (snd (call w)) = fds w)"

definition fd_laws :: "'w kernel \<Rightarrow> 'w epoll_ctl_func \<Rightarrow> ('w \<Rightarrow> int set) \<Rightarrow> bool" where
  "fd_laws K ctl fds \<longleftrightarrow>
     (\<forall>af type protocol. opens fds (k_socket K af type protocol)) \<and> (\<forall>s. opens fds (k_accept K s)) \<and>
     (\<forall>s w. fds (snd (k_close K s w)) = fds w - {s}) \<and>
     (\<forall>s addr. keeps fds (k_bind K s addr)) \<and> (\<forall>s n. keeps fds (k_listen K s n)) \<and>
     (\<forall>s addr. keeps fds (k_connect K s addr)) \<and> (\<forall>s ev t. keeps fds (k_poll K s ev t)) \<and>
     (\<forall>s opt v. keeps fds (k_setsockopt K s opt v)) \<and>
     (\<forall>s opt v n w. fds (snd (snd (snd (k_getsockopt K s opt v n w)))) = fds w) \<and>
     (\<forall>s c a w. fds (snd (snd (k_ioctl K s c a w))) = fds w) \<and>
     (\<forall>c fd ev w. fds (snd (ctl c fd ev w)) = fds w \<and>
        (fst (fst (ctl c fd ev w)) \<noteq> 0 \<longrightarrow> snd (fst (ctl c fd ev w)) \<noteq> 0))"

definition owned :: "socket_impl \<Rightarrow> int set" where
  "owned impl = (if is_open impl then {impl_socket impl} else {})"

lemma fd_keeps:
  assumes "fd_laws K ctl fds"
  shows "k_close K s w = (x, w') \<Longrightarrow> fds w' = fds w - {s}"
    "k_bind K s addr w = (x, w') \<Longrightarrow> fds w' = fds w" "k_listen K s n w = (x, w') \<Longrightarrow> fds w' = fds w"
    "k_connect K s addr w = (x, w') \<Longrightarrow> fds w' = fds w" "k_poll K s ev t w = (x, w') \<Longrightarrow> fds w' = fds w"
    "k_setsockopt K s opt v w = (x, w') \<Longrightarrow> fds w' = fds w"
    "k_getsockopt K s opt v' n' w = (x, a, b, w') \<Longrightarrow> fds w' = fds w"
    "k_ioctl K s c a' w = (x, a, w') \<Longrightarrow> fds w' = fds w"
    "ctl cc fd evs w = (x, w') \<Longrightarrow> fds w' = fds w"
  using assms unfolding fd_laws_def keeps_def by (metis snd_conv)+

lemma ctl_errno: "fd_laws K ctl fds \<Longrightarrow> ctl c fd ev w = ((r, errno), w') \<Longrightarrow> r \<noteq> 0 \<Longrightarrow> errno \<noteq> 0"
  unfolding fd_laws_def by (metis fst_conv snd_conv)

lemma fd_opens:
  assumes "fd_laws K ctl fds"
  shows "k_socket K af type protocol w = ((s, errno), w') \<Longrightarrow>
      if s = -1 then errno \<noteq> 0 \<and> fds w' = fds w else s \<ge> 0 \<and> s \<notin> fds w \<and> fds w' = insert s (fds w)"
    "k_accept K l w = ((s, errno), w') \<Longrightarrow>
      if s = -1 then errno \<noteq> 0 \<and> fds w' = fds w else s \<ge> 0 \<and> s \<notin> fds w \<and> fds w' = insert s (fds w)"
proof -
  have "opens fds (k_socket K af type protocol)" "opens fds (k_accept K l)"
    using assms by (simp_all add: fd_laws_def)
  then show "k_socket K af type protocol w = ((s, errno), w') \<Longrightarrow>
      if s = -1 then errno \<noteq> 0 \<and> fds w' = fds w else s \<ge> 0 \<and> s \<notin> fds w \<and> fds w' = insert s (fds w)"
    "k_accept K l w = ((s, errno), w') \<Longrightarrow>
      if s = -1 then errno \<noteq> 0 \<and> fds w' = fds w else s \<ge> 0 \<and> s \<notin> fds w \<and> fds w' = insert s (fds w)"
    unfolding opens_def by presburger+
qed

lemma setsockopt_fds:
  assumes "fd_laws K ctl fds" "setsockopt K s state opt v ec w = (r, ec', state', w')"
  shows "fds w' = fds w"
  using assms(2) by (auto simp: setsockopt_def Let_def fd_keeps [OF assms(1)] split: if_splits prod.splits)

lemma close_socket_fds:
  assumes "fd_laws K ctl fds" "close_socket K s state d ec w = (r, ec', state', w')" "s \<noteq> invalid_socket"
  shows "fds w' = fds w - {s}"
proof -
  obtain r1 e1 st1 w1 where 1: "setsockopt K s state Linger (replicate 8 0) no_error w = (r1, e1, st1, w1)"
    by (metis prod.exhaust)
  define w0 where "w0 = (if d \<and> has_flag state user_set_linger then w1 else w)"
  have 0: "fds w0 = fds w"
    using setsockopt_fds [OF assms(1) 1] by (simp add: w0_def)
  obtain r2 e2 w2 where 2: "k_close K s w0 = ((r2, e2), w2)"
    by (metis prod.exhaust)
  obtain r3 v3 w3 where 3: "k_ioctl K s FIONBIO 0 w2 = (r3, v3, w3)"
    by (metis prod.exhaust)
  obtain r4 e4 w4 where 4: "k_close K s w3 = ((r4, e4), w4)"
    by (metis prod.exhaust)
  have "w' = w2 \<or> w' = w4"
    using assms(2,3) 1 2 3 4
    by (auto simp: close_socket_def w0_def Let_def simp del: flag_bits split: if_splits)
  then show ?thesis
    using 0 fd_keeps(1) [OF assms(1) 2] fd_keeps(1) [OF assms(1) 4] fd_keeps(8) [OF assms(1) 3] by auto
qed

lemma holder_reset_fds:
  assumes "fd_laws K ctl fds"
  shows "fds (snd (holder_reset K s w)) = (if s = invalid_socket then fds w else fds w - {s})"
  using close_socket_fds [OF assms] by (auto simp: holder_reset_def split: prod.splits)

lemma deregister_fds:
  assumes "fd_laws K ctl fds" "deregister_descriptor ctl fd closing data w = (data', ops, calls, w')"
  shows "fds w' = fds w"
proof -
  obtain x w1 where c: "ctl EPOLL_CTL_DEL fd 0 w = (x, w1)"
    by (metis prod.exhaust)
  show ?thesis
    using assms(2) c fd_keeps(9) [OF assms(1) c]
    by (auto simp: deregister_descriptor_def drain_queues_eq Let_def split: option.splits if_splits)
qed

lemma close_impl_fds:
  assumes "fd_laws K ctl fds" "close_impl K ctl impl ec w = (impl', ec', ops, calls, w')"
  shows "fds w' = fds w - owned impl \<and> owned impl' = {}"
proof -
  obtain data ops c w1 where d: "deregister_descriptor ctl (impl_socket impl)
      (\<not> has_flag (impl_state impl) possible_dup) (reactor_data impl) w = (data, ops, c, w1)"
    by (metis prod.exhaust)
  obtain r e st w2 where s: "close_socket K (impl_socket impl) (impl_state impl) False ec w1 = (r, e, st, w2)"
    by (metis prod.exhaust)
  show ?thesis
    using assms(2) d s deregister_fds [OF assms(1) d] close_socket_fds [OF assms(1) s]
    by (auto simp: close_impl_def owned_def is_open_def construct_def split: if_splits)
qed

lemma destroy_impl_fds:
  assumes "fd_laws K ctl fds" "destroy_impl K ctl impl w = (impl', ops, calls, w')"
  shows "fds w' = fds w - owned impl"
proof -
  obtain data ops c w1 where d: "deregister_descriptor ctl (impl_socket impl)
      (\<not> has_flag (impl_state impl) possible_dup) (reactor_data impl) w = (data, ops, c, w1)"
    by (metis prod.exhaust)
  obtain r e st w2 where s: "close_socket K (impl_socket impl) (impl_state impl) True no_error w1 = (r, e, st, w2)"
    by (metis prod.exhaust)
  show ?thesis
    using assms(2) d s deregister_fds [OF assms(1) d] close_socket_fds [OF assms(1) s]
    by (auto simp: destroy_impl_def owned_def is_open_def split: if_splits)
qed

lemma register_fds:
  assumes "fd_laws K ctl fds" "register_descriptor ctl fd w = (err, dd, w')"
  shows "fds w' = fds w"
proof -
  obtain r e w1 where c: "ctl EPOLL_CTL_ADD fd (epoll_in OR epoll_err OR epoll_hup OR epoll_pri OR epoll_et) w = ((r, e), w1)"
    by (metis prod.exhaust)
  show ?thesis
    using assms(2) c fd_keeps(9) [OF assms(1) c]
    by (auto simp: register_descriptor_def Let_def split: if_splits)
qed

text \<open>What the operations on a socket object do to the descriptors of the others.\<close>

definition moves_ownership :: "('w \<Rightarrow> int set) \<Rightarrow> socket_impl \<Rightarrow> 'w \<Rightarrow> socket_impl \<Rightarrow> 'w \<Rightarrow> bool" where
  "moves_ownership fds impl w impl' w' \<longleftrightarrow>
     fds w' - owned impl' = fds w - owned impl \<and> owned impl' \<subseteq> fds w' \<and> owned impl' \<inter> (fds w - owned impl) = {}"

lemma do_open_fds:
  assumes "fd_laws K ctl fds" "do_open K ctl impl af type protocol ec w = (impl', ec', w')" "\<not> is_open impl"
  shows "moves_ownership fds impl w impl' w' \<and> (is_open impl' \<longleftrightarrow> \<not> failed ec')"
proof -
  obtain s errno w1 where call: "k_socket K af type protocol w = ((s, errno), w1)"
    by (metis prod.exhaust)
  obtain err dd w2 where reg: "register_descriptor ctl s w1 = (err, dd, w2)"
    by (metis prod.exhaust)
  show ?thesis
    using assms(2,3) call reg fd_opens(1) [OF assms(1) call] register_fds [OF assms(1) reg]
      holder_reset_fds [OF assms(1), of s w2]
    by (auto simp: do_open_def open_socket_def get_last_error_def moves_ownership_def owned_def is_open_def
        invalid_socket_def failed_def no_error_def Let_def split: if_splits)
qed

lemma getsockopt_fds:
  assumes "fd_laws K ctl fds" "getsockopt K s state opt v n ec w = (r, v', n', ec', w')"
  shows "fds w' = fds w"
  using assms(2) by (auto simp: getsockopt_def Let_def fd_keeps(7) [OF assms(1)] split: if_splits prod.splits)

lemma sync_connect_fds:
  assumes "fd_laws K ctl fds" "sync_connect K s addr ec w = (ec', w')"
  shows "fds w' = fds w"
proof -
  obtain r1 e1 w1 where 1: "connect K s addr ec w = (r1, e1, w1)"
    by (metis prod.exhaust)
  obtain r2 e2 w2 where 2: "poll_connect K s (-1) e1 w1 = (r2, e2, w2)"
    by (metis prod.exhaust)
  obtain r3 v3 n3 e3 w3 where 3: "getsockopt K s 0 So_Error 0 4 e2 w2 = (r3, v3, n3, e3, w3)"
    by (metis prod.exhaust)
  have "fds w1 = fds w"
    using 1 by (auto simp: connect_def Let_def fd_keeps(4) [OF assms(1)] split: if_splits prod.splits)
  moreover have "fds w2 = fds w1"
    using 2 by (auto simp: poll_connect_def Let_def fd_keeps(5) [OF assms(1)] split: if_splits prod.splits)
  ultimately show ?thesis
    using assms(2) 1 2 3 getsockopt_fds [OF assms(1) 3] by (auto simp: sync_connect_def split: if_splits)
qed

lemma moves_refl: "owned impl \<subseteq> fds w \<Longrightarrow> moves_ownership fds impl w impl w"
  by (auto simp: moves_ownership_def)

lemma moves_same_world: "moves_ownership fds impl w impl' w1 \<Longrightarrow> fds w2 = fds w1 \<Longrightarrow> moves_ownership fds impl w impl' w2"
  by (simp add: moves_ownership_def)

lemma moves_trans:
  "moves_ownership fds impl w impl1 w1 \<Longrightarrow> moves_ownership fds impl1 w1 impl2 w2 \<Longrightarrow> moves_ownership fds impl w impl2 w2"
  by (simp add: moves_ownership_def)

lemma close_impl_moves:
  assumes "fd_laws K ctl fds" "close_impl K ctl impl ec w = (impl', ec', ops, calls, w')"
  shows "moves_ownership fds impl w impl' w'" "\<not> is_open impl'"
  using close_impl_fds [OF assms] by (auto simp: moves_ownership_def owned_def split: if_splits)

lemma socket_connect_moves:
  assumes "fd_laws K ctl fds" "socket_connect K ctl impl ep ec w = (impl', ec', w')" "\<not> is_open impl"
  shows "moves_ownership fds impl w impl' w'"
proof -
  obtain af type protocol where ep: "ep_protocol ep = (af, type, protocol)"
    by (metis prod.exhaust)
  obtain impl1 e1 w1 where o: "do_open K ctl impl af type protocol ec w = (impl1, e1, w1)"
    by (metis prod.exhaust)
  obtain e2 w2 where c: "sync_connect K (impl_socket impl1) (ep_address ep) e1 w1 = (e2, w2)"
    by (metis prod.exhaust)
  show ?thesis
    using assms(2,3) ep o c do_open_fds [OF assms(1) o assms(3)] sync_connect_fds [OF assms(1) c] moves_same_world
    by (auto simp: socket_connect_def service_connect_def split: if_splits)
qed

lemma connect_loop_moves:
  assumes "fd_laws K ctl fds"
  shows "connect_loop K ctl condition eps ec impl w = (result, ec', impl', w') \<Longrightarrow> owned impl \<subseteq> fds w \<Longrightarrow>
    moves_ownership fds impl w impl' w'"
proof (induction eps arbitrary: ec impl w)
  case Nil
  then show ?case
    by (simp add: moves_refl)
next
  case (Cons ep eps)
  obtain impl1 e1 ops calls w1 where c: "close_impl K ctl impl ec w = (impl1, e1, ops, calls, w1)"
    by (metis prod.exhaust)
  obtain impl2 e2 w2 where s: "socket_connect K ctl impl1 ep e1 w1 = (impl2, e2, w2)"
    by (metis prod.exhaust)
  have moved: "moves_ownership fds impl w impl2 w2"
    by (rule moves_trans [OF close_impl_moves(1) [OF assms c]
          socket_connect_moves [OF assms s close_impl_moves(2) [OF assms c]]])
  then have "owned impl2 \<subseteq> fds w2"
    by (simp add: moves_ownership_def)
  then show ?case
    using Cons.prems Cons.IH [of ec impl w] Cons.IH [of e2 impl2 w2] c s moved moves_trans [OF moved]
    by (auto split: if_splits)
qed

lemma connect_or_throw_moves:
  assumes "fd_laws K ctl fds" "connect_or_throw K ctl eps impl w = (result, impl', w')" "owned impl \<subseteq> fds w"
  shows "moves_ownership fds impl w impl' w'"
proof -
  obtain r ec where "connect_loop K ctl default_connect_condition eps no_error impl w = (r, ec, impl', w')"
    using assms(2) by (auto simp: connect_or_throw_def range_connect_def split: prod.splits option.splits)
  from connect_loop_moves [OF assms(1) this assms(3)] show ?thesis .
qed

text \<open>
  Whatever the system calls report, \<open>connect\<close> over a list of endpoints leaves no descriptor
  behind: afterwards the process has the descriptors of the other objects, as before, and the one
  of the socket if it is open; the descriptors of failed attempts and the one the socket had
  before are closed.
\<close>

lemma connect_owns_descriptors:
  assumes "fd_laws K ctl fds" "owned impl \<subseteq> fds w" "connect_or_throw K ctl eps impl w = (result, impl', w')"
  shows "fds w' - owned impl' = fds w - owned impl \<and> owned impl' \<subseteq> fds w' \<and> owned impl' \<inter> (fds w - owned impl) = {}"
  using connect_or_throw_moves [OF assms(1,3,2)] by (simp add: moves_ownership_def)

section \<open>The descriptors of the server\<close>

lemma construction_throws_fds:
  assumes "fd_laws K ctl fds" "moves_ownership fds construct w impl w1"
  shows "fst (construction_throws K ctl ec impl w1) = Inl ec \<and> fds (snd (construction_throws K ctl ec impl w1)) = fds w"
proof -
  obtain i ops c w2 where d: "destroy_impl K ctl impl w1 = (i, ops, c, w2)"
    by (metis prod.exhaust)
  show ?thesis
    using destroy_impl_fds [OF assms(1) d] assms(2)
    by (auto simp: construction_throws_def d moves_ownership_def owned_def construct_def is_open_def)
qed

lemma set_option_fds:
  assumes "fd_laws K ctl fds" "service_set_option K impl opt v ec w = (impl', ec', w')"
  shows "fds w' = fds w \<and> impl_socket impl' = impl_socket impl"
  using assms(2) setsockopt_fds [OF assms(1)] by (auto simp: service_set_option_def split: prod.splits)

lemma bind_listen_fds:
  assumes "fd_laws K ctl fds"
  shows "service_bind K impl ep ec w = (ec', w') \<Longrightarrow> fds w' = fds w"
    "service_listen K impl n ec w = (ec', w') \<Longrightarrow> fds w' = fds w"
  by (auto simp: service_bind_def bind_socket_def service_listen_def listen_def fd_keeps(2,3) [OF assms]
      split: if_splits prod.splits)

lemma moves_same_socket:
  "moves_ownership fds impl w impl1 w1 \<Longrightarrow> impl_socket impl2 = impl_socket impl1 \<Longrightarrow> fds w2 = fds w1 \<Longrightarrow>
   moves_ownership fds impl w impl2 w2"
proof -
  assume "impl_socket impl2 = impl_socket impl1"
  then have "owned impl2 = owned impl1"
    by (simp add: owned_def is_open_def)
  then show "moves_ownership fds impl w impl1 w1 \<Longrightarrow> fds w2 = fds w1 \<Longrightarrow> moves_ownership fds impl w impl2 w2"
    by (simp add: moves_ownership_def)
qed

lemma acceptor_constructed:
  assumes "fd_laws K ctl fds" "acceptor_construct K ctl somaxconn ep reuse_addr w = (result, w')"
  shows "case result of
      Inl ec \<Rightarrow> failed ec \<and> fds w' = fds w
    | Inr impl \<Rightarrow> is_open impl \<and> impl_socket impl \<notin> fds w \<and> fds w' = insert (impl_socket impl) (fds w)"
proof -
  obtain af type protocol where ep: "ep_protocol ep = (af, type, protocol)"
    by (metis prod.exhaust)
  obtain i1 e1 w1 where 1: "do_open K ctl construct af type protocol no_error w = (i1, e1, w1)"
    by (metis prod.exhaust)
  obtain i2 e2 w2 where 2: "(if reuse_addr then service_set_option K i1 Other_Option [1, 0, 0, 0] e1 w1 else (i1, e1, w1)) = (i2, e2, w2)"
    by (metis prod.exhaust)
  obtain e3 w3 where 3: "service_bind K i2 ep e2 w2 = (e3, w3)"
    by (metis prod.exhaust)
  obtain e4 w4 where 4: "service_listen K i2 somaxconn e3 w3 = (e4, w4)"
    by (metis prod.exhaust)
  have "\<not> is_open construct"
    by (simp add: construct_def is_open_def)
  from do_open_fds [OF assms(1) 1 this] have m1: "moves_ownership fds construct w i1 w1" and opened: "is_open i1 \<longleftrightarrow> \<not> failed e1"
    by auto
  have s2: "fds w2 = fds w1" "impl_socket i2 = impl_socket i1"
    using 2 set_option_fds [OF assms(1), of i1 Other_Option "[1, 0, 0, 0]" e1 w1 i2 e2 w2] by (auto split: if_splits)
  note m2 = moves_same_socket [OF m1 s2(2,1)]
  note m3 = moves_same_world [OF m2 bind_listen_fds(1) [OF assms(1) 3]]
  note m4 = moves_same_world [OF m3 bind_listen_fds(2) [OF assms(1) 4]]
  have fails: "result = Inl ec \<and> fds w' = fds w" if "construction_throws K ctl ec i v = (result, w')"
    "moves_ownership fds construct w i v" for ec i v
    using construction_throws_fds [OF assms(1) that(2), of ec] that(1) by simp
  consider "failed e1" | "\<not> failed e1" "failed e2" | "\<not> failed e1" "\<not> failed e2" "failed e3"
    | "\<not> failed e1" "\<not> failed e2" "\<not> failed e3" "failed e4"
    | "\<not> failed e1" "\<not> failed e2" "\<not> failed e3" "\<not> failed e4"
    by blast
  then show ?thesis
  proof cases
    case 5
    then have "result = Inr i2" "w' = w4"
      using assms(2) ep 1 2 3 4 by (simp_all add: acceptor_construct_def)
    moreover have "is_open i2"
      using 5(1) opened s2(2) by (simp add: is_open_def)
    ultimately show ?thesis
      using m4 by (auto simp: moves_ownership_def owned_def construct_def is_open_def)
  qed (use assms(2) ep 1 2 3 4 fails [OF _ m1, of e1] fails [OF _ m2, of e2] fails [OF _ m3, of e3] fails [OF _ m4, of e4]
       in \<open>simp_all add: acceptor_construct_def\<close>)
qed

lemma accept_fds:
  assumes "fd_laws K ctl fds" "accept K s ec w = (new_socket, ec', w')"
  shows "if new_socket = invalid_socket then failed ec' \<and> fds w' = fds w
    else \<not> failed ec' \<and> new_socket \<notin> fds w \<and> fds w' = insert new_socket (fds w)"
proof -
  obtain n errno w1 where call: "k_accept K s w = ((n, errno), w1)"
    by (metis prod.exhaust)
  show ?thesis
    using assms(2) call fd_opens(2) [OF assms(1) call]
    by (auto simp: accept_def get_last_error_def invalid_socket_def Let_def failed_def clear_ec_def split: if_splits)
qed

lemma non_blocking_accept_fds:
  assumes "fd_laws K ctl fds" "non_blocking_accept K s state ec w = Some (finished, ec', new_socket, w')"
  shows "if new_socket = invalid_socket then failed ec' \<and> fds w' = fds w
    else finished \<and> \<not> failed ec' \<and> new_socket \<notin> fds w \<and> fds w' = insert new_socket (fds w)"
proof -
  let ?P = "\<lambda>(finished, ec', new_socket, w'). if new_socket = invalid_socket then failed ec' \<and> fds w' = fds w
    else finished \<and> \<not> failed ec' \<and> new_socket \<notin> fds w \<and> fds w' = insert new_socket (fds w)"
  have loop: "(\<lambda>(ec, w). non_blocking_accept K s state ec w) (ec, w) = Some (finished, ec', new_socket, w')"
    using assms(2) by simp
  have "?P (finished, ec', new_socket, w')"
  proof (rule nb_accept_retry.loop_invariant [OF loop, where I = "\<lambda>(_, w1). fds w1 = fds w"])
    fix x y r
    obtain n e1 w1 where a: "accept K s (fst x) (snd x) = (n, e1, w1)"
      by (metis prod.exhaust)
    note accept_fds [OF assms(1) a]
    then show "(case x of (_, w1) \<Rightarrow> fds w1 = fds w) \<Longrightarrow> nb_accept_step K s state x = Inr y \<Longrightarrow> case y of (_, w1) \<Rightarrow> fds w1 = fds w"
      "(case x of (_, w1) \<Rightarrow> fds w1 = fds w) \<Longrightarrow> nb_accept_step K s state x = Inl r \<Longrightarrow> ?P r"
      using a by (auto simp: nb_accept_step_def split: prod.splits if_splits)
  qed simp
  then show ?thesis
    by simp
qed

lemma accept_do_assign_fds:
  assumes "fd_laws K ctl fds" "accept_do_assign ctl type peer ec held w = (peer', ec', held', w')" "\<not> is_open peer"
  shows "fds w' = fds w \<and>
    (if held = invalid_socket then ec' = ec \<and> held' = held \<and> peer' = peer
     else if failed ec' then held' = held \<and> \<not> is_open peer' else held' = invalid_socket \<and> impl_socket peer' = held)"
proof -
  obtain err dd w1 where reg: "register_descriptor ctl held w = (err, dd, w1)"
    by (metis prod.exhaust)
  show ?thesis
    using assms(2,3) reg register_fds [OF assms(1) reg]
    by (auto simp: accept_do_assign_def do_assign_def is_open_def failed_def no_error_def Let_def split: if_splits)
qed

text \<open>
  An accept of the server, from the attempt of the reactor to the call of the handler: an
  attempt that has to wait opens no descriptor; when the handler is called without an error, the
  socket of the new connection is open and owns the new descriptor; with an error, or when the
  operation is destroyed without calling its handler, the socket is not open and the process has
  the same descriptors as before.
\<close>

lemma accept_owns_descriptor:
  assumes "fd_laws K ctl fds" "\<not> is_open peer"
    and "accept_do_perform K s state invalid_socket op w = Some ((st, ec, n, w1), held)"
    and "accept_do_complete K ctl type owner peer ec held w1 = (peer', result, w')"
  shows "(st = Not_Done \<longrightarrow> held = invalid_socket \<and> fds w1 = fds w) \<and>
    (case result of
       None \<Rightarrow> \<not> owner \<and> peer' = peer \<and> fds w' = fds w
     | Some ec' \<Rightarrow> owner \<and>
         (if failed ec' then \<not> is_open peer' \<and> fds w' = fds w
          else is_open peer' \<and> impl_socket peer' \<notin> fds w \<and> fds w' = insert (impl_socket peer') (fds w)))"
proof -
  obtain finished where attempt: "non_blocking_accept K s state (op_ec op) w = Some (finished, ec, held, w1)"
    and st: "st = (if finished then Done else Not_Done)"
    using assms(3) by (auto simp: accept_do_perform_def holder_reset_def)
  note tried = non_blocking_accept_fds [OF assms(1) attempt]
  obtain p2 e2 h2 w2 where assign: "accept_do_assign ctl type peer ec held w1 = (p2, e2, h2, w2)"
    by (metis prod.exhaust)
  show ?thesis
  proof (cases owner)
    case True
    then have r: "peer' = p2" "result = Some e2" "w' = snd (holder_reset K h2 w2)"
      using assms(4) assign by (simp_all add: accept_do_complete_def)
    show ?thesis
      using r True tried st accept_do_assign_fds [OF assms(1) assign assms(2)] holder_reset_fds [OF assms(1), of h2 w2] assms(2)
      by (auto simp: is_open_def split: if_splits)
  next
    case False
    then show ?thesis
      using assms(4) tried st holder_reset_fds [OF assms(1), of held w1]
      by (auto simp: accept_do_complete_def split: if_splits)
  qed
qed

section \<open>Witnesses\<close>

text \<open>
  A system whose state is the list of its open descriptors. It refuses connections to the address
  that starts with 0.
\<close>

definition fresh_fd :: "int list \<Rightarrow> int" where
  "fresh_fd w = foldr max w 2 + 1"

definition fd_kernel :: "int list kernel" where
  "fd_kernel = \<lparr>k_socket = (\<lambda>_ _ _ w. ((fresh_fd w, 0), fresh_fd w # w)), k_bind = (\<lambda>_ _ w. ((0, 0), w)),
     k_listen = (\<lambda>_ _ w. ((0, 0), w)), k_accept = (\<lambda>_ w. ((fresh_fd w, 0), fresh_fd w # w)),
     k_connect = (\<lambda>_ addr w. (if snd addr = [0] then (-1, 111) else (0, 0), w)), k_shutdown = (\<lambda>_ _ w. ((0, 0), w)),
     k_close = (\<lambda>s w. ((0, 0), filter (\<lambda>x. x \<noteq> s) w)), k_ioctl = (\<lambda>_ _ arg w. ((0, 0), arg, w)),
     k_poll = (\<lambda>_ _ _ w. ((1, 0), w)), k_setsockopt = (\<lambda>_ _ _ w. ((0, 0), w)),
     k_getsockopt = (\<lambda>_ _ _ len w. ((0, 0), 0, len, w)),
     k_recvmsg = (\<lambda>_ _ _ w. ((0, 0), w)), k_recv = (\<lambda>_ _ _ w. ((0, 0), w)),
     k_sendmsg = (\<lambda>_ _ _ w. ((0, 0), w)), k_send = (\<lambda>_ _ _ w. ((0, 0), w))\<rparr>"

definition fd_ctl :: "int list epoll_ctl_func" where
  "fd_ctl c fd ev w = ((0, 0), w)"

lemma fresh_fd_new: "fresh_fd w \<notin> set w" "fresh_fd w \<ge> 3"
proof -
  have "x \<in> set w \<Longrightarrow> x < fresh_fd w" for x
    by (induction w) (auto simp: fresh_fd_def)
  then show "fresh_fd w \<notin> set w"
    by blast
  show "fresh_fd w \<ge> 3"
    by (induction w) (auto simp: fresh_fd_def)
qed

lemma fresh_fd_valid: "fresh_fd w \<noteq> -1" "0 \<le> fresh_fd w"
  using fresh_fd_new(2) [of w] by linarith+

lemma fd_kernel_laws [simp]: "fd_laws fd_kernel fd_ctl set"
  using fresh_fd_new(1) fresh_fd_valid
  by (auto simp: fd_laws_def opens_def keeps_def fd_kernel_def fd_ctl_def split: if_splits)

definition demo_endpoint :: "8 word list \<Rightarrow> endpoint" where
  "demo_endpoint addr = \<lparr>ep_protocol = (2, 1, 6), ep_address = (2, addr)\<rparr>"

lemma connect_owns_descriptors_example:
  "case connect_or_throw fd_kernel fd_ctl [demo_endpoint [0], demo_endpoint [1]] construct [7] of
     (result, impl', w') \<Rightarrow> result = Inr (Some (demo_endpoint [1])) \<and> set w' - owned impl' = {7}"
proof -
  obtain result impl' w' where run:
      "connect_or_throw fd_kernel fd_ctl [demo_endpoint [0], demo_endpoint [1]] construct [7] = (result, impl', w')"
    by (metis prod.exhaust)
  have "fst (connect_or_throw fd_kernel fd_ctl [demo_endpoint [0], demo_endpoint [1]] construct [7]) =
      Inr (Some (demo_endpoint [1]))"
    by code_simp
  then have "result = Inr (Some (demo_endpoint [1]))"
    by (simp only: run fst_conv)
  moreover have "owned construct = {}"
    by (simp add: owned_def is_open_def construct_def)
  ultimately show ?thesis
    using connect_owns_descriptors [OF fd_kernel_laws _ run] by (simp only: run) simp
qed

lemma acceptor_constructed_example:
  "\<exists>impl. acceptor_construct fd_kernel fd_ctl 4096 (demo_endpoint [1]) True [7] = (Inr impl, [8, 7]) \<and>
     is_open impl \<and> impl_socket impl \<notin> {7}"
proof -
  have "case acceptor_construct fd_kernel fd_ctl 4096 (demo_endpoint [1]) True [7] of (r, w) \<Rightarrow> \<not> isl r \<and> w = [8, 7]"
    by code_simp
  moreover obtain r w where run: "acceptor_construct fd_kernel fd_ctl 4096 (demo_endpoint [1]) True [7] = (r, w)"
    by (metis prod.exhaust)
  ultimately obtain impl where "r = Inr impl" "w = [8, 7]"
    by (cases r) simp_all
  then show ?thesis
    using acceptor_constructed [OF fd_kernel_laws run] run by simp
qed

lemma accept_owns_descriptor_example:
  "\<exists>ec w1 held peer' w'.
     accept_do_perform fd_kernel 8 0 invalid_socket (new_op 0) [8, 7] = Some ((Done, ec, 0, w1), held) \<and>
     accept_do_complete fd_kernel fd_ctl 1 True construct ec held w1 = (peer', Some no_error, w') \<and>
     is_open peer' \<and> set w' = insert (impl_socket peer') {8, 7}"
proof -
  have attempt: "accept_do_perform fd_kernel 8 0 invalid_socket (new_op 0) [8, 7] = Some ((Done, no_error, 0, [9, 8, 7]), 9)"
    by code_simp
  obtain peer' result w' where run: "accept_do_complete fd_kernel fd_ctl 1 True construct no_error 9 [9, 8, 7] = (peer', result, w')"
    by (metis prod.exhaust)
  have "fst (snd (accept_do_complete fd_kernel fd_ctl 1 True construct no_error 9 [9, 8, 7])) = Some no_error"
    by code_simp
  then have "result = Some no_error"
    by (simp only: run fst_conv snd_conv)
  moreover have "\<not> is_open construct"
    by (simp add: is_open_def construct_def)
  ultimately show ?thesis
    using accept_owns_descriptor [OF fd_kernel_laws _ attempt run] attempt run by auto
qed

end
