(* ===== verification/Connection_On_Socket.thy ===== *)
theory Connection_On_Socket
  imports Save_Protocol Asio_Socket_Service
begin

text \<open>
  A connection of the server together with the socket service and the reactor: the members
  \<open>async_read_some\<close> and \<open>async_write_some\<close> of \<open>basic_stream_socket.hpp\<close>, by which the composed operations
  of \<open>impl/read.hpp\<close> and \<open>impl/write.hpp\<close> start a transfer, and the completion of the transfer, which
  calls the composed operation again. The theory shows that everything proved of a connection over
  the events of its socket holds for a connection that runs on the service: the service produces
  only events that the connection expects.
\<close>

section \<open>Transfers of a stream socket\<close>

definition async_write_some ::
  "'w kernel \<Rightarrow> 'w epoll_ctl_func \<Rightarrow> 'w perform_func \<Rightarrow> socket_impl \<Rightarrow> nat \<Rightarrow> user_buffers \<Rightarrow> bool \<Rightarrow> 'w \<Rightarrow> 'w started_op" where
  "async_write_some K ctl pf impl n buffers is_continuation w = async_send K ctl pf impl n buffers is_continuation w"

definition async_read_some ::
  "'w kernel \<Rightarrow> 'w epoll_ctl_func \<Rightarrow> 'w perform_func \<Rightarrow> socket_impl \<Rightarrow> nat \<Rightarrow> user_buffers \<Rightarrow> bool \<Rightarrow> 'w \<Rightarrow> 'w started_op" where
  "async_read_some K ctl pf impl n buffers is_continuation w = async_receive K ctl pf impl n buffers 0 is_continuation w"

text \<open>The synchronous members that take an error code, as the client calls them.\<close>

definition stream_write_some ::
  "'w kernel \<Rightarrow> socket_impl \<Rightarrow> user_buffers \<Rightarrow> error_code \<Rightarrow> 'w \<Rightarrow> (nat \<times> error_code \<times> 'w) option" where
  "stream_write_some K impl buffers ec w = service_send K impl buffers 0 ec w"

definition stream_read_some ::
  "'w kernel \<Rightarrow> socket_impl \<Rightarrow> user_buffers \<Rightarrow> error_code \<Rightarrow> 'w \<Rightarrow> (nat \<times> error_code \<times> 'w) option" where
  "stream_read_some K impl buffers ec w = service_receive K impl buffers 0 ec w"

section \<open>The connection on the service\<close>

text \<open>
  The transfer that the composed operation of a connection needs: \<open>buffers_.prepare(max_size)\<close> with
  the 65536 bytes of \<open>transfer_all\<close>.
\<close>

fun pending_transfer :: "pending_op \<Rightarrow> io_request option" where
  "pending_transfer (Reading_PreRequestHeader c) = Some (Receive_Request (One_Buffer (single_prepare c 65536)) 0)"
| "pending_transfer (Reading_RequestHeader c) = Some (Receive_Request (One_Buffer (single_prepare c 65536)) 0)"
| "pending_transfer (Reading_RequestContent c) = Some (Receive_Request (One_Buffer (single_prepare c 65536)) 0)"
| "pending_transfer (Writing_Response c next_op) = Some (Send_Request (One_Buffer (single_prepare c 65536)) 0)"
| "pending_transfer No_Operation = None"
| "pending_transfer Undefined_Behaviour = None"

text \<open>
  The state of a connection that runs: \<open>l_waiting\<close> if the transfer is in the queue of the reactor.
  The bytes that a receive stores in the buffer are given by the event.
\<close>

record 'w live =
  l_conn :: TcpConnection
  l_disk :: filesystem
  l_impl :: socket_impl
  l_world :: 'w
  l_waiting :: bool

datatype live_event = Issue_Transfer bool "nat \<Rightarrow> byte" | Socket_Ready "32 word" "nat \<Rightarrow> byte"

definition transfer_event :: "io_request \<Rightarrow> (nat \<Rightarrow> byte) \<Rightarrow> reactor_op \<Rightarrow> conn_event" where
  "transfer_event req data op = (case req of
      Receive_Request _ _ \<Rightarrow> Read_Some (op_ec op) (map data [0..<op_bytes op])
    | Send_Request _ _ \<Rightarrow> Write_Some (op_ec op) (op_bytes op))"

definition start_transfer ::
  "'w kernel \<Rightarrow> 'w epoll_ctl_func \<Rightarrow> 'w perform_func \<Rightarrow> io_request \<Rightarrow> socket_impl \<Rightarrow> bool \<Rightarrow> 'w \<Rightarrow>
   socket_impl \<times> finished_ops \<times> handler_call list \<times> 'w" where
  "start_transfer K ctl pf req impl is_continuation w = (case req of
      Receive_Request buffers _ \<Rightarrow> posted_list Read_Op (async_read_some K ctl pf impl 0 buffers is_continuation w)
    | Send_Request buffers _ \<Rightarrow> posted_list Write_Op (async_write_some K ctl pf impl 0 buffers is_continuation w))"

definition socket_ready ::
  "'w perform_func \<Rightarrow> 32 word \<Rightarrow> socket_impl \<Rightarrow> 'w \<Rightarrow> socket_impl \<times> finished_ops \<times> handler_call list \<times> 'w" where
  "socket_ready pf events impl w = (case reactor_data impl of
      None \<Rightarrow> (impl, [], [], w)
    | Some dd \<Rightarrow> let (dd', completed, calls, _, w') = do_complete True pf events dd w
                in (impl\<lparr>reactor_data := Some dd'\<rparr>, completed, calls, w'))"

text \<open>A second operation that finishes in one step would have no handler: this is \<open>None\<close>.\<close>

definition finish_transfer ::
  "io_request \<Rightarrow> (nat \<Rightarrow> byte) \<Rightarrow> bool \<Rightarrow> 'w live \<Rightarrow> socket_impl \<times> finished_ops \<times> handler_call list \<times> 'w \<Rightarrow> 'w live option" where
  "finish_transfer req data waiting l r = (case r of (impl, finished, _, w) \<Rightarrow>
     let l1 = l\<lparr>l_impl := impl, l_world := w\<rparr>
     in case finished of
          [] \<Rightarrow> Some (l1\<lparr>l_waiting := waiting\<rparr>)
        | [(_, op)] \<Rightarrow>
            let (conn, fs) = conn_step (transfer_event req data op) (l_conn l, l_disk l)
            in Some (l1\<lparr>l_conn := conn, l_disk := fs, l_waiting := False\<rparr>)
        | _ \<Rightarrow> None)"

text \<open>\<open>pfs\<close> gives for every transfer the function that performs it.\<close>

definition live_step ::
  "'w kernel \<Rightarrow> 'w epoll_ctl_func \<Rightarrow> (io_request \<Rightarrow> 'w perform_func) \<Rightarrow> live_event \<Rightarrow> 'w live \<Rightarrow> 'w live option" where
  "live_step K ctl pfs ev l = (case pending_transfer (pending (l_conn l)) of
      None \<Rightarrow> Some l
    | Some req \<Rightarrow> (case ev of
          Issue_Transfer is_continuation data \<Rightarrow>
            if l_waiting l then Some l
            else finish_transfer req data True l
                   (start_transfer K ctl (pfs req) req (l_impl l) is_continuation (l_world l))
        | Socket_Ready events data \<Rightarrow>
            finish_transfer req data (l_waiting l) l (socket_ready (pfs req) events (l_impl l) (l_world l))))"

fun live_run ::
  "'w kernel \<Rightarrow> 'w epoll_ctl_func \<Rightarrow> (io_request \<Rightarrow> 'w perform_func) \<Rightarrow> live_event list \<Rightarrow> 'w live \<Rightarrow> 'w live option" where
  "live_run K ctl pfs [] l = Some l"
| "live_run K ctl pfs (ev # evs) l = (case live_step K ctl pfs ev l of
      None \<Rightarrow> None | Some l' \<Rightarrow> live_run K ctl pfs evs l')"

text \<open>After the accept: the connection is started on the new socket.\<close>

definition live_start :: "socket_impl \<Rightarrow> filesystem \<Rightarrow> 'w \<Rightarrow> 'w live" where
  "live_start impl fs w = \<lparr>l_conn = Tcp_Connection.Start createNew, l_disk = fs, l_impl = impl, l_world = w, l_waiting = False\<rparr>"

section \<open>Counting operations\<close>

definition outstanding :: "socket_impl \<Rightarrow> nat" where
  "outstanding impl = (\<Sum>t \<leftarrow> [Read_Op, Write_Op, Except_Op]. length (queued t (reactor_data impl)))"

lemma length_finished_ids:
  "length ops = (\<Sum>t \<leftarrow> [Read_Op, Write_Op, Except_Op]. length (finished_ids t ops))"
proof (induction ops)
  case (Cons x ops)
  then show ?case
    by (cases "fst x") simp_all
qed simp

lemma data_ok_shut_empty: "data_ok data \<Longrightarrow> shut_empty data"
  by (cases data) (simp_all add: data_ok_def shut_empty_def)

lemma counted:
  assumes "\<And>t. finished_ids t finished @ queued t (reactor_data impl') =
      queued t (reactor_data impl) @ (if t0 = t then new else [])"
  shows "length finished + outstanding impl' = outstanding impl + length new"
proof -
  have "length (finished_ids t finished) + length (queued t (reactor_data impl')) =
      length (queued t (reactor_data impl)) + (if t0 = t then length new else 0)" for t
    using arg_cong [OF assms [of t], of length] by (simp split: if_splits)
  from this [of Read_Op] this [of Write_Op] this [of Except_Op] show ?thesis
    by (cases t0) (simp_all add: length_finished_ids [of finished] outstanding_def)
qed

lemma reactor_start_counted:
  assumes "posted_list t (reactor_start ctl pf impl t op cont spec w) = (impl', finished, calls, w')"
    "data_ok (reactor_data impl)"
  shows "length finished + outstanding impl' = outstanding impl + 1"
proof -
  obtain d p c w1 where start: "start_op ctl pf t (impl_socket impl) (reactor_data impl) op cont spec w = (d, p, c, w1)"
    by (metis prod.exhaust)
  have "finished_ids t' finished @ queued t' (reactor_data impl') =
      queued t' (reactor_data impl) @ (if t = t' then [op_id op] else [])" for t'
    using start_op_order [OF start data_ok_shut_empty [OF assms(2)], of t'] assms(1)
    by (cases p) (auto simp: posted_list_def reactor_start_def start)
  from counted [OF this] show ?thesis
    by simp
qed

lemma outstanding_state [simp]: "outstanding (impl\<lparr>impl_state := st\<rparr>) = outstanding impl"
  by (simp add: outstanding_def)

lemma post_op_counted:
  "posted_list t (post_op impl op cont w) = (impl', finished, calls, w') \<Longrightarrow>
   length finished + outstanding impl' = outstanding impl + 1"
  by (auto simp: posted_list_def post_op_def)

lemma do_start_op_counted:
  assumes "posted_list t (do_start_op K ctl pf impl t op cont nb noop w) = (impl', finished, calls, w')"
    "data_ok (reactor_data impl)"
  shows "length finished + outstanding impl' = outstanding impl + 1"
proof -
  obtain ok ec state w1 where set: "set_internal_non_blocking K (impl_socket impl) (impl_state impl) True (op_ec op) w
      = (ok, ec, state, w1)"
    by (metis prod.exhaust)
  show ?thesis
    using assms set reactor_start_counted [of t ctl pf impl op cont nb w impl' finished calls w']
      reactor_start_counted [of t ctl pf "impl\<lparr>impl_state := state\<rparr>" "set_ec ec op" cont nb w1 impl' finished calls w']
      post_op_counted [of t impl op cont w impl' finished calls w']
      post_op_counted [of t "impl\<lparr>impl_state := state\<rparr>" "set_ec ec op" cont w1 impl' finished calls w']
    by (simp add: do_start_op_def Let_def del: non_blocking_flag split: if_splits)
qed

lemma start_transfer_counted:
  assumes "start_transfer K ctl pf req impl cont w = (impl', finished, calls, w')" "data_ok (reactor_data impl)"
  shows "length finished + outstanding impl' = outstanding impl + 1"
  using assms do_start_op_counted
  by (cases req) (auto simp: start_transfer_def async_read_some_def async_write_some_def async_receive_def async_send_def
      simp del: flag_bits)

lemma socket_ready_counted:
  assumes "socket_ready pf events impl w = (impl', finished, calls, w')"
  shows "length finished + outstanding impl' = outstanding impl"
proof (cases "reactor_data impl")
  case (Some dd)
  obtain d c cs w1 where io: "perform_io pf events dd w = (d, c, cs, w1)"
    by (metis prod.exhaust)
  have "finished_ids t finished @ queued t (reactor_data impl') =
      queued t (reactor_data impl) @ (if Read_Op = t then [] else [])" for t
    using perform_io_order [OF io, of t] assms Some io by (auto simp: socket_ready_def do_complete_def queued_def)
  from counted [OF this] show ?thesis
    by simp
qed (use assms in \<open>auto simp: socket_ready_def\<close>)

section \<open>Events of the service are events of the connection\<close>

lemma pending_transfer_flags:
  "pending_transfer p = Some (Receive_Request bufs flags) \<Longrightarrow> flags = 0"
  "pending_transfer p = Some (Send_Request bufs flags) \<Longrightarrow> flags = 0"
  by (cases p; simp)+

lemma start_transfer_step:
  "pending_transfer p = Some req \<Longrightarrow>
   start_transfer K ctl pf req impl cont w = service_step K ctl pf (\<lambda>_. req) (Start_Transfer 0 cont) impl w"
  by (cases req) (auto simp: start_transfer_def service_step_def async_read_some_def async_write_some_def
      dest: pending_transfer_flags)

lemma socket_ready_step:
  "socket_ready pf events impl w = service_step K ctl pf requests (Descriptor_Ready events) impl w"
  by (simp add: socket_ready_def service_step_def)

lemma transfer_event_ok:
  assumes "pending_transfer (pending conn) = Some req" "transfer_ok (\<lambda>_. req) op"
  shows "conn_event_ok (transfer_event req data op) conn"
  using assms by (cases "pending conn") (auto simp: transfer_ok_def transfer_event_def)

text \<open>
  The part of the state below the connection: at most one transfer is in the queue of the reactor.
  A step leaves the connection and the disk as they are, or is a step of the connection for an
  event that it expects.
\<close>

definition io_ok :: "'w live \<Rightarrow> bool" where
  "io_ok l \<longleftrightarrow> data_ok (reactor_data (l_impl l)) \<and> outstanding (l_impl l) = (if l_waiting l then 1 else 0)"

definition conn_moves :: "'w live \<Rightarrow> 'w live \<Rightarrow> bool" where
  "conn_moves l l' \<longleftrightarrow> (l_conn l', l_disk l') = (l_conn l, l_disk l) \<or>
     (\<exists>ev. conn_event_ok ev (l_conn l) \<and> conn_step ev (l_conn l, l_disk l) = (l_conn l', l_disk l'))"

lemma finish_transfer_moves:
  assumes "pending_transfer (pending (l_conn l)) = Some req"
    "data_ok (reactor_data impl)" "finished_ok (\<lambda>_. req) finished"
    "length finished + outstanding impl = (if waiting then 1 else 0)"
  shows "\<exists>l'. finish_transfer req data waiting l (impl, finished, calls, w) = Some l' \<and> io_ok l' \<and> conn_moves l l' \<and>
    l_impl l' = impl \<and> l_world l' = w"
proof (cases finished)
  case Nil
  then show ?thesis
    using assms by (simp add: finish_transfer_def io_ok_def conn_moves_def)
next
  case (Cons x rest)
  then have rest: "rest = []" "outstanding impl = 0"
    using assms(4) by (auto split: if_splits)
  obtain t op where x: "x = (t, op)"
    by (cases x)
  obtain conn fs where step: "conn_step (transfer_event req data op) (l_conn l, l_disk l) = (conn, fs)"
    by (metis prod.exhaust)
  have "conn_event_ok (transfer_event req data op) (l_conn l)"
    using assms(3) transfer_event_ok [OF assms(1)] by (simp add: Cons x)
  then show ?thesis
    using assms(2) rest step by (auto simp: finish_transfer_def io_ok_def conn_moves_def Cons x)
qed

lemma live_step_moves:
  assumes "\<And>req. performs K s (\<lambda>_. req) (pfs req)" "stream_system K ctl s" "io_ok l"
  shows "\<exists>l'. live_step K ctl pfs ev l = Some l' \<and> io_ok l' \<and> conn_moves l l'"
proof (cases "pending_transfer (pending (l_conn l))")
  case (Some req)
  have data: "data_ok (reactor_data (l_impl l))"
    using assms(3) by (simp add: io_ok_def)
  note step = service_step_ok [OF assms(1,2) data]
  show ?thesis
  proof (cases ev)
    case (Issue_Transfer cont bytes)
    obtain impl f c w where r: "start_transfer K ctl (pfs req) req (l_impl l) cont (l_world l) = (impl, f, c, w)"
      by (metis prod.exhaust)
    show ?thesis
    proof (cases "l_waiting l")
      case True
      then show ?thesis
        using assms(3) by (simp add: live_step_def Some Issue_Transfer conn_moves_def)
    next
      case False
      then have "length f + outstanding impl = (if True then 1 else 0)"
        using start_transfer_counted [OF r data] assms(3) by (simp add: io_ok_def)
      then show ?thesis
        using step [OF r [unfolded start_transfer_step [OF Some]]] False
          finish_transfer_moves [OF Some, of impl f True bytes c w]
        by (auto simp: live_step_def Some Issue_Transfer r)
    qed
  next
    case (Socket_Ready events bytes)
    obtain impl f c w where r: "socket_ready (pfs req) events (l_impl l) (l_world l) = (impl, f, c, w)"
      by (metis prod.exhaust)
    have "length f + outstanding impl = (if l_waiting l then 1 else 0)"
      using socket_ready_counted [OF r] assms(3) by (simp add: io_ok_def)
    then show ?thesis
      using step [OF r [unfolded socket_ready_step [of _ _ _ _ K ctl "\<lambda>_. req"]]]
        finish_transfer_moves [OF Some, of impl f "l_waiting l" bytes c w]
      by (auto simp: live_step_def Some Socket_Ready r)
  qed
qed (use assms(3) in \<open>simp add: live_step_def conn_moves_def\<close>)

definition live_ok :: "filesystem \<Rightarrow> 'w live \<Rightarrow> bool" where
  "live_ok fs0 l \<longleftrightarrow> conn_reach fs0 (l_conn l) (l_disk l) \<and> io_ok l"

lemma live_step_ok:
  assumes "\<And>req. performs K s (\<lambda>_. req) (pfs req)" "stream_system K ctl s" "live_ok fs0 l"
  shows "\<exists>l'. live_step K ctl pfs ev l = Some l' \<and> live_ok fs0 l'"
  using live_step_moves [OF assms(1,2), of l ev] assms(3)
  by (auto simp: live_ok_def conn_moves_def intro: conn_reach.event)

lemma live_run_ok:
  assumes "\<And>req. performs K s (\<lambda>_. req) (pfs req)" "stream_system K ctl s" "live_ok fs0 l"
  shows "\<exists>l'. live_run K ctl pfs evs l = Some l' \<and> live_ok fs0 l'"
  using assms(3)
proof (induction evs arbitrary: l)
  case (Cons ev evs)
  then show ?case
    using live_step_ok [OF assms(1,2) Cons.prems, of ev] by auto
qed simp

lemma live_start_ok:
  assumes "do_assign ctl construct 1 s w0 = (impl, ec, w)"
  shows "live_ok fs (live_start impl fs w)"
  using assms
  by (auto simp: do_assign_def register_descriptor_def construct_def is_open_def live_ok_def io_ok_def live_start_def data_ok_def
      outstanding_def queued_def new_descriptor_state_def Let_def intro: conn_reach.started split: prod.splits if_splits)

text \<open>
  C8. A connection of the server that runs on the socket service and the reactor, from the moment its
  socket is accepted, with any bytes from the network, any readiness events and whatever the
  system calls report: it has at most one transfer outstanding, which is in the queue of the
  reactor exactly while the connection waits for it; every completion is one that the connection
  expects; it never has undefined behaviour, never holds more than 20 horcruxes, and changes the
  disk only by saving a complete request.
\<close>

theorem connection_on_socket_safe:
  assumes "\<And>req. performs K s (\<lambda>_. req) (pfs req)" "stream_system K ctl s"
    and "do_assign ctl construct 1 s w0 = (impl, ec, w)"
  shows "\<exists>l. live_run K ctl pfs evs (live_start impl fs w) = Some l \<and>
     outstanding (l_impl l) = (if l_waiting l then 1 else 0) \<and>
     conn_reach fs (l_conn l) (l_disk l) \<and> pending (l_conn l) \<noteq> Undefined_Behaviour \<and>
     length (mCurrentRequestHorcruxes (l_conn l)) \<le> 20 \<and>
     (l_disk l = fs \<or> pending (l_conn l) = No_Operation \<and> all_received (l_conn l) \<and>
        l_disk l = store_all saveFile fs (horcrux_files (mUuid (mPreRequestHeader (l_conn l))) 0 (received_contents (l_conn l))))"
proof -
  obtain l where l: "live_run K ctl pfs evs (live_start impl fs w) = Some l" "live_ok fs l"
    using live_run_ok [OF assms(1,2) live_start_ok [OF assms(3)]] by blast
  then have reach: "conn_reach fs (l_conn l) (l_disk l)"
    by (simp add: live_ok_def)
  show ?thesis
    using l reach conn_reach_inv [OF reach] conn_reach_files [OF reach]
    by (auto simp: live_ok_def io_ok_def conn_inv_def pending_inv_def)
qed

definition demo_performers :: "io_request \<Rightarrow> nat perform_func" where
  "demo_performers req op w = (case request_perform (demo_kernel 11) 3 stream_oriented req op w of
      Some r \<Rightarrow> r | None \<Rightarrow> (Done, no_error, 0, w))"

lemma demo_attempts:
  "non_blocking_recv (demo_kernel 11) s bufs flags True ec n w \<noteq> None"
  "non_blocking_send (demo_kernel 11) s bufs flags ec n w \<noteq> None"
  by (subst non_blocking_recv.simps, force simp: recv_def demo_kernel_def get_last_error_def is_blocking_error_def basic_ec_def)
    (subst non_blocking_send.simps, force simp: send_def demo_kernel_def get_last_error_def is_blocking_error_def basic_ec_def)

lemma demo_performers_ok: "performs (demo_kernel 11) 3 (\<lambda>_. req) (demo_performers req)"
proof -
  have "request_perform (demo_kernel 11) 3 stream_oriented req op w \<noteq> None" for op w
    by (cases req) (simp_all only: request_perform.simps recv_do_perform_native send_do_perform_native demo_laws
        map_option_is_None demo_attempts not_False_eq_True)
  then show ?thesis
    unfolding performs_def demo_performers_def by (auto split: option.split)
qed

theorem connection_on_socket_safe_witness:
  "\<exists>l. live_run (demo_kernel 11) demo_ctl demo_performers
       [Issue_Transfer False (\<lambda>_. CHR ''x''), Socket_Ready epoll_in (\<lambda>_. CHR ''x''), Issue_Transfer True (\<lambda>_. CHR ''x'')]
       (live_start (fst (do_assign demo_ctl construct 1 3 0)) empty_disk 0) = Some l \<and>
     outstanding (l_impl l) = (if l_waiting l then 1 else 0) \<and> pending (l_conn l) \<noteq> Undefined_Behaviour"
proof -
  obtain impl ec w where "do_assign demo_ctl construct 1 3 0 = (impl, ec, w)"
    by (metis prod.exhaust)
  moreover have "w = 0"
    using calculation by (simp add: do_assign_def construct_def is_open_def register_descriptor_def demo_ctl_def
        split: if_splits)
  ultimately show ?thesis
    using connection_on_socket_safe [OF demo_performers_ok demo_stream_system, of 0 impl ec w
        "[Issue_Transfer False (\<lambda>_. CHR ''x''), Socket_Ready epoll_in (\<lambda>_. CHR ''x''), Issue_Transfer True (\<lambda>_. CHR ''x'')]"
        empty_disk]
    by (auto simp del: live_run.simps)
qed

end
