(* ===== verification/Server_On_Sockets.thy ===== *)
theory Server_On_Sockets
  imports Tcp_Server Asio_Acceptor Connection_On_Socket
begin

text \<open>
  The server (\<open>server.cpp\<close>, \<open>networking/TcpServer.cpp\<close>) together with the acceptor, the socket service and
  the reactor: all connections run on sockets of one process, in any interleaving. The theory shows
  that such a process is always in a state that the server reaches over the events of its sockets,
  so that what is proved of the server holds for it, and that every descriptor of the process
  belongs to exactly one object that is alive.
\<close>

section \<open>The program\<close>

text \<open>
  The endpoint with a family and a port and the address \<open>any\<close>: after the family, the bytes of
  \<open>sockaddr_in\<close> (port, address, padding) or of \<open>sockaddr_in6\<close> (port, flow, address, scope). The port is in
  network order.
\<close>

definition any_endpoint :: "int \<Rightarrow> 16 word \<Rightarrow> endpoint" where
  "any_endpoint family port =
     (let sin_port = [ucast (drop_bit 8 port), ucast port]
      in if family = 2 then \<lparr>ep_protocol = (2, 1, 6), ep_address = (2, sin_port @ replicate 4 0 @ replicate 8 0)\<rparr>
         else \<lparr>ep_protocol = (10, 1, 6), ep_address = (10, sin_port @ replicate 4 0 @ replicate 16 0 @ replicate 4 0)\<rparr>)"

text \<open>
  \<open>h_sockets\<close> has, for every accepted connection, its socket and whether its transfer is in the queue of
  the reactor, or \<open>None\<close> when the connection object has been destroyed: it is when no operation is
  pending, as a pending operation holds the last pointer to it.
\<close>

record 'w host =
  h_server :: TcpServer
  h_disk :: filesystem
  h_acceptor :: socket_impl
  h_sockets :: "(socket_impl \<times> bool) option list"
  h_world :: 'w

text \<open>The constructor of the server.\<close>

definition host_start ::
  "'w kernel \<Rightarrow> 'w epoll_ctl_func \<Rightarrow> int \<Rightarrow> filesystem \<Rightarrow> 'w \<Rightarrow> (error_code + 'w host) \<times> 'w" where
  "host_start K ctl somaxconn fs w =
     (case acceptor_construct K ctl somaxconn (any_endpoint 2 (ucast kServerPort)) True w of
        (Inl ec, w') \<Rightarrow> (Inl ec, w')
      | (Inr impl, w') \<Rightarrow>
          (map_sum id (\<lambda>srv. \<lparr>h_server = srv, h_disk = fs, h_acceptor = impl, h_sockets = [], h_world = w'\<rparr>)
             (make_TcpServer no_error), w'))"

text \<open>
  The completion of the outstanding accept operation: the socket of the connection that it
  captured is assigned, and the handler called.
\<close>

definition host_accepted ::
  "'w kernel \<Rightarrow> 'w epoll_ctl_func \<Rightarrow> error_code \<Rightarrow> socket_type \<Rightarrow> 'w \<Rightarrow> 'w host \<Rightarrow> 'w host" where
  "host_accepted K ctl ec held w h = (case accepts (h_server h) of
      [] \<Rightarrow> h
    | newConnection # rest \<Rightarrow>
        let (peer, result, w') = accept_do_complete K ctl 1 True construct ec held w;
            error = (case result of None \<Rightarrow> ec | Some ec' \<Rightarrow> ec')
        in h\<lparr>h_server := handle_accept newConnection error ((h_server h)\<lparr>accepts := rest\<rparr>),
             h_sockets := (if \<not> failed error then h_sockets h @ [Some (peer, False)] else h_sockets h),
             h_world := w'\<rparr>)"

text \<open>
  Events: the reactor tries to accept; the accept operation completes with an error without an
  attempt (as it does if it could not be started); an event of the socket of connection \<open>i\<close>.
\<close>

datatype host_event = Try_Accept | Accept_Fails error_code | On_Socket nat live_event

definition connection_step ::
  "'w kernel \<Rightarrow> 'w epoll_ctl_func \<Rightarrow> (socket_type \<Rightarrow> io_request \<Rightarrow> 'w perform_func) \<Rightarrow> nat \<Rightarrow> live_event \<Rightarrow>
   socket_impl \<Rightarrow> bool \<Rightarrow> 'w host \<Rightarrow> 'w host option" where
  "connection_step K ctl pfs i ev impl waiting h =
     (case live_step K ctl (pfs (impl_socket impl)) ev
        \<lparr>l_conn = connections (h_server h) ! i, l_disk = h_disk h, l_impl = impl, l_world = h_world h, l_waiting = waiting\<rparr> of
        None \<Rightarrow> None
      | Some l \<Rightarrow>
          let (socket, w') =
                (if pending (l_conn l) = No_Operation
                 then let (_, _, _, w') = destroy_impl K ctl (l_impl l) (l_world l) in (None, w')
                 else (Some (l_impl l, l_waiting l), l_world l))
          in Some (h\<lparr>h_server := (h_server h)\<lparr>connections := (connections (h_server h))[i := l_conn l]\<rparr>,
               h_disk := l_disk l, h_sockets := (h_sockets h)[i := socket], h_world := w'\<rparr>))"

definition host_step ::
  "'w kernel \<Rightarrow> 'w epoll_ctl_func \<Rightarrow> (socket_type \<Rightarrow> io_request \<Rightarrow> 'w perform_func) \<Rightarrow> host_event \<Rightarrow> 'w host \<Rightarrow> 'w host option" where
  "host_step K ctl pfs ev h = (case ev of
      Try_Accept \<Rightarrow>
        (case accept_do_perform K (impl_socket (h_acceptor h)) (impl_state (h_acceptor h)) invalid_socket (new_op 0) (h_world h) of
           None \<Rightarrow> None
         | Some ((status, ec, _, w), held) \<Rightarrow>
             Some (if status = Not_Done then h\<lparr>h_world := w\<rparr> else host_accepted K ctl ec held w h))
    | Accept_Fails ec \<Rightarrow> Some (if failed ec then host_accepted K ctl ec invalid_socket (h_world h) h else h)
    | On_Socket i cev \<Rightarrow>
        if i < length (h_sockets h) then
          (case h_sockets h ! i of None \<Rightarrow> Some h | Some (impl, waiting) \<Rightarrow> connection_step K ctl pfs i cev impl waiting h)
        else Some h)"

fun host_run ::
  "'w kernel \<Rightarrow> 'w epoll_ctl_func \<Rightarrow> (socket_type \<Rightarrow> io_request \<Rightarrow> 'w perform_func) \<Rightarrow> host_event list \<Rightarrow> 'w host \<Rightarrow> 'w host option" where
  "host_run K ctl pfs [] h = Some h"
| "host_run K ctl pfs (ev # evs) h = (case host_step K ctl pfs ev h of
      None \<Rightarrow> None | Some h' \<Rightarrow> host_run K ctl pfs evs h')"

section \<open>Transfers leave the descriptors alone\<close>

text \<open>A predicate on the state of the system that performing operations and the calls of the reactor keep.\<close>

definition io_keeps :: "('w \<Rightarrow> 'x) \<Rightarrow> 'w kernel \<Rightarrow> 'w epoll_ctl_func \<Rightarrow> 'w perform_func \<Rightarrow> bool" where
  "io_keeps obs K ctl pf \<longleftrightarrow> (\<forall>op w st ec n w'. pf op w = (st, ec, n, w') \<longrightarrow> obs w' = obs w) \<and>
     (\<forall>c fd ev w x w'. ctl c fd ev w = (x, w') \<longrightarrow> obs w' = obs w) \<and>
     (\<forall>s c a w x v w'. k_ioctl K s c a w = (x, v, w') \<longrightarrow> obs w' = obs w)"

lemma perform_op_keeps: "io_keeps obs K ctl pf \<Longrightarrow> perform_op pf op w = (st, op', w') \<Longrightarrow> obs w' = obs w"
  unfolding io_keeps_def perform_op_def by (auto split: prod.splits)

lemma perform_ops_keeps:
  "io_keeps obs K ctl pf \<Longrightarrow> perform_ops pf ops sp w = (done, rest, sp', w') \<Longrightarrow> obs w' = obs w"
proof (induction ops arbitrary: sp w "done" rest sp' w')
  case (Cons op ops)
  obtain st op' w1 where one: "perform_op pf op w = (st, op', w1)"
    by (metis prod.exhaust)
  obtain d r s w2 where rec: "perform_ops pf ops sp w1 = (d, r, s, w2)"
    by (metis prod.exhaust)
  show ?case
    using Cons.prems(2) one rec Cons.IH [OF Cons.prems(1) rec] perform_op_keeps [OF Cons.prems(1) one]
    by (cases st) auto
qed simp

lemma perform_io_keeps:
  assumes "io_keeps obs K ctl pf" "perform_io pf events dd w = (dd', completed, calls, w')"
  shows "obs w' = obs w"
proof -
  have type: "obs (snd (snd (perform_io_type pf events t x))) = obs (snd (snd x))" for t and x :: "_ \<times> _ \<times> 'a"
    using perform_ops_keeps [OF assms(1)] by (auto simp: perform_io_type_def Let_def split: prod.splits)
  have "obs (snd (snd (fold (perform_io_type pf events) ts x))) = obs (snd (snd x))" for ts and x :: "_ \<times> _ \<times> 'a"
    by (induction ts arbitrary: x) (simp_all add: type)
  from this [of "[Except_Op, Write_Op, Read_Op]" "(dd, [], w)"] show ?thesis
    using assms(2) unfolding perform_io_def Let_def by (auto simp del: fold_simps split: prod.splits)
qed

lemma start_op_keeps:
  assumes "io_keeps obs K ctl pf" "start_op ctl pf t fd data op cont spec w = (data', posted, calls, w')"
  shows "obs w' = obs w"
proof -
  obtain st op1 w1 where one: "perform_op pf op w = (st, op1, w1)"
    by (metis prod.exhaust)
  have ctl: "obs v' = obs v" if "ctl c s ev v = (x, v')" for c s ev v x v'
    using assms(1) that unfolding io_keeps_def by blast
  show ?thesis
    using assms(2) one perform_op_keeps [OF assms(1) one]
    by (auto simp: start_op_def Let_def dest: ctl split: option.splits if_splits prod.splits)
qed

lemma set_internal_keeps:
  assumes "io_keeps obs K ctl pf" "set_internal_non_blocking K s st v ec w = (ok, ec', st', w')"
  shows "obs w' = obs w"
  using assms unfolding io_keeps_def set_internal_non_blocking_def
  by (auto simp: Let_def split: if_splits prod.splits)

lemma do_start_op_keeps:
  assumes "io_keeps obs K ctl pf" "do_start_op K ctl pf impl t op cont nb noop w = (impl', posted, calls, w')"
  shows "obs w' = obs w \<and> impl_socket impl' = impl_socket impl"
proof -
  obtain ok ec st w1 where set: "set_internal_non_blocking K (impl_socket impl) (impl_state impl) True (op_ec op) w = (ok, ec, st, w1)"
    by (metis prod.exhaust)
  show ?thesis
    using assms(2) set set_internal_keeps [OF assms(1) set] start_op_keeps [OF assms(1)]
    by (auto simp: do_start_op_def reactor_start_def post_op_def Let_def simp del: flag_bits split: if_splits prod.splits)
qed

lemma live_step_keeps:
  assumes "\<And>req. io_keeps obs K ctl (pfs req)" "live_step K ctl pfs ev l = Some l'"
  shows "obs (l_world l') = obs (l_world l) \<and> impl_socket (l_impl l') = impl_socket (l_impl l)"
proof -
  have start: "obs w = obs (l_world l) \<and> impl_socket impl = impl_socket (l_impl l)"
    if "start_transfer K ctl (pfs req) req (l_impl l) cont (l_world l) = (impl, f, c, w)" for req cont impl f c w
    using that do_start_op_keeps [OF assms(1)]
    by (cases req) (auto simp: start_transfer_def posted_list_def async_read_some_def async_write_some_def
        async_receive_def async_send_def simp del: flag_bits split: prod.splits)
  have ready: "obs w = obs (l_world l) \<and> impl_socket impl = impl_socket (l_impl l)"
    if "socket_ready (pfs req) events (l_impl l) (l_world l) = (impl, f, c, w)" for req events impl f c w
    using that perform_io_keeps [OF assms(1)]
    by (auto simp: socket_ready_def do_complete_def split: prod.splits option.splits)
  have finish: "l_world l' = w \<and> l_impl l' = impl"
    if "finish_transfer req data waiting l (impl, f, c, w) = Some l'" for req data waiting impl f c w
    using that by (auto simp: finish_transfer_def Let_def split: list.splits prod.splits)
  obtain req where "l' = l \<or> (\<exists>data waiting impl f c w. finish_transfer req data waiting l (impl, f, c, w) = Some l' \<and>
      obs w = obs (l_world l) \<and> impl_socket impl = impl_socket (l_impl l))"
    using assms(2) start ready
    by (auto simp: live_step_def split: option.splits live_event.splits if_splits) (metis prod.exhaust)+
  then show ?thesis
    using finish by auto
qed

text \<open>The laws of the system for the server: those of descriptors and of streams, and attempts return.\<close>

definition host_laws ::
  "'w kernel \<Rightarrow> 'w epoll_ctl_func \<Rightarrow> (socket_type \<Rightarrow> io_request \<Rightarrow> 'w perform_func) \<Rightarrow> ('w \<Rightarrow> int set) \<Rightarrow> bool" where
  "host_laws K ctl pfs fds \<longleftrightarrow> fd_laws K ctl fds \<and>
     (\<forall>s bufs flags. keeps fds (k_recvmsg K s bufs flags) \<and> keeps fds (k_sendmsg K s bufs flags)) \<and>
     (\<forall>s. stream_system K ctl s) \<and> (\<forall>s req. performs K s (\<lambda>_. req) (pfs s req)) \<and>
     (\<forall>s state ec w. non_blocking_accept K s state ec w \<noteq> None)"

lemma recv_attempt_keeps:
  assumes "\<And>s bufs flags. keeps obs (k_recvmsg K s bufs flags)"
    "non_blocking_recv K s bufs flags is_stream ec k w = Some r"
  shows "obs (snd (snd (snd r))) = obs w"
proof (rule nb_recv_retry.loop_invariant [where I = "\<lambda>x. obs (snd x) = obs w"])
  show "(\<lambda>(ec, w). non_blocking_recv K s bufs flags is_stream ec k w) (ec, w) = Some r"
    using assms(2) by simp
  fix x y r'
  obtain n e w1 where a: "recv K s bufs flags (fst x) (snd x) = (n, e, w1)"
    by (metis prod.exhaust)
  have "obs w1 = obs (snd x)"
    using a assms(1) [of s bufs flags] by (auto simp: recv_def keeps_def split: prod.splits) (metis snd_conv)
  then show "obs (snd x) = obs w \<Longrightarrow> nb_recv_step K s bufs flags is_stream k x = Inr y \<Longrightarrow> obs (snd y) = obs w"
    "obs (snd x) = obs w \<Longrightarrow> nb_recv_step K s bufs flags is_stream k x = Inl r' \<Longrightarrow> obs (snd (snd (snd r'))) = obs w"
    using a by (auto simp: nb_recv_step_def split: if_splits)
qed simp

lemma send_attempt_keeps:
  assumes "\<And>s bufs flags. keeps obs (k_sendmsg K s bufs flags)"
    "non_blocking_send K s bufs flags ec k w = Some r"
  shows "obs (snd (snd (snd r))) = obs w"
proof (rule nb_send_retry.loop_invariant [where I = "\<lambda>x. obs (snd x) = obs w"])
  show "(\<lambda>(ec, w). non_blocking_send K s bufs flags ec k w) (ec, w) = Some r"
    using assms(2) by simp
  fix x y r'
  obtain n e w1 where a: "send K s bufs flags (fst x) (snd x) = (n, e, w1)"
    by (metis prod.exhaust)
  have "obs w1 = obs (snd x)"
    using a assms(1) [of s bufs "flags OR msg_nosignal"] by (auto simp: send_def keeps_def split: prod.splits) (metis snd_conv)
  then show "obs (snd x) = obs w \<Longrightarrow> nb_send_step K s bufs flags k x = Inr y \<Longrightarrow> obs (snd y) = obs w"
    "obs (snd x) = obs w \<Longrightarrow> nb_send_step K s bufs flags k x = Inl r' \<Longrightarrow> obs (snd (snd (snd r'))) = obs w"
    using a by (auto simp: nb_send_step_def split: if_splits)
qed simp

lemma host_io_keeps:
  assumes "host_laws K ctl pfs fds"
  shows "io_keeps fds K ctl (pfs s req)"
proof -
  have laws: "fd_laws K ctl fds" "single_call_law K" "performs K s (\<lambda>_. req) (pfs s req)"
    and keep: "\<And>s bufs flags. keeps fds (k_recvmsg K s bufs flags)" "\<And>s bufs flags. keeps fds (k_sendmsg K s bufs flags)"
    using assms by (auto simp: host_laws_def stream_system_def)
  have "fds w' = fds w" if "pfs s req op w = (st, ec, n, w')" for op w st ec n w'
  proof -
    have run: "request_perform K s stream_oriented req op w = Some (st, ec, n, w')"
      using laws(3) that by (simp add: performs_def)
    show ?thesis
    proof (cases req)
      case (Receive_Request bufs flags)
      with run obtain r where "non_blocking_recv K s (native_buffers bufs) flags True (op_ec op) (op_bytes op) w = Some r"
        "w' = snd (snd (snd r))"
        by (auto simp: recv_do_perform_native [OF laws(2)])
      then show ?thesis
        using recv_attempt_keeps [of fds K, OF keep(1)] by blast
    next
      case (Send_Request bufs flags)
      with run obtain r where "non_blocking_send K s (native_buffers bufs) flags (op_ec op) (op_bytes op) w = Some r"
        "w' = snd (snd (snd r))"
        by (auto simp: send_do_perform_native [OF laws(2)])
      then show ?thesis
        using send_attempt_keeps [of fds K, OF keep(2)] by blast
    qed
  qed
  then show ?thesis
    using fd_keeps(8,9) [OF laws(1)] unfolding io_keeps_def by blast
qed

section \<open>Descriptors and objects\<close>

text \<open>The descriptors of the objects that are alive: the acceptor and the sockets of connections.\<close>

definition socket_fds :: "(socket_impl \<times> bool) option list \<Rightarrow> int list" where
  "socket_fds socks = map (impl_socket \<circ> fst) (concat (map (\<lambda>s. case s of None \<Rightarrow> [] | Some x \<Rightarrow> [x]) socks))"

definition host_fds :: "'w host \<Rightarrow> int list" where
  "host_fds h = impl_socket (h_acceptor h) # socket_fds (h_sockets h)"

lemma socket_fds_simps [simp]:
  "socket_fds [] = []" "socket_fds (None # socks) = socket_fds socks"
  "socket_fds (Some x # socks) = impl_socket (fst x) # socket_fds socks"
  "socket_fds (xs @ ys) = socket_fds xs @ socket_fds ys"
  by (simp_all add: socket_fds_def)

lemma socket_fds_update:
  assumes "i < length socks" "socks ! i = Some (impl, waiting)"
  shows "impl_socket impl' = impl_socket impl \<Longrightarrow> socket_fds (socks[i := Some (impl', waiting')]) = socket_fds socks"
    "distinct (socket_fds socks) \<Longrightarrow> distinct (socket_fds (socks[i := None])) \<and>
     set (socket_fds (socks[i := None])) = set (socket_fds socks) - {impl_socket impl} \<and>
     impl_socket impl \<in> set (socket_fds socks)"
proof -
  have split: "socks = take i socks @ Some (impl, waiting) # drop (Suc i) socks"
    using id_take_nth_drop [OF assms(1)] assms(2) by simp
  have upd: "socks[i := x] = take i socks @ x # drop (Suc i) socks" for x
    using assms(1) by (simp add: upd_conv_take_nth_drop)
  note fds = arg_cong [OF split, of socket_fds]
  show "impl_socket impl' = impl_socket impl \<Longrightarrow> socket_fds (socks[i := Some (impl', waiting')]) = socket_fds socks"
    unfolding upd using fds by simp
  show "distinct (socket_fds socks) \<Longrightarrow> distinct (socket_fds (socks[i := None])) \<and>
     set (socket_fds (socks[i := None])) = set (socket_fds socks) - {impl_socket impl} \<and>
     impl_socket impl \<in> set (socket_fds socks)"
    unfolding upd fds by auto
qed

text \<open>
  The invariant: the state of the server is one that it reaches, a connection has a socket exactly
  while an operation is pending, and the process has the descriptors \<open>base\<close> and one for each object.
\<close>

definition socket_ok :: "(socket_impl \<times> bool) option \<Rightarrow> TcpConnection \<Rightarrow> bool" where
  "socket_ok socket conn \<longleftrightarrow> (case socket of
      None \<Rightarrow> pending conn = No_Operation
    | Some (impl, waiting) \<Rightarrow> is_open impl \<and> data_ok (reactor_data impl) \<and> outstanding impl = (if waiting then 1 else 0) \<and>
        pending conn \<noteq> No_Operation)"

definition host_ok :: "('w \<Rightarrow> int set) \<Rightarrow> filesystem \<Rightarrow> int set \<Rightarrow> 'w host \<Rightarrow> bool" where
  "host_ok fds fs0 base h \<longleftrightarrow> server_reach fs0 (h_server h) (h_disk h) \<and>
     list_all2 socket_ok (h_sockets h) (connections (h_server h)) \<and>
     fds (h_world h) = base \<union> set (host_fds h) \<and> distinct (host_fds h) \<and> base \<inter> set (host_fds h) = {}"

lemma host_start_ok:
  assumes "fd_laws K ctl fds" "host_start K ctl somaxconn fs w = (r, w')"
  shows "case r of Inl ec \<Rightarrow> failed ec \<and> fds w' = fds w | Inr h \<Rightarrow> host_ok fds fs (fds w) h \<and> h_world h = w'"
proof -
  obtain result w1 where c: "acceptor_construct K ctl somaxconn (any_endpoint 2 (ucast kServerPort)) True w = (result, w1)"
    by (metis prod.exhaust)
  show ?thesis
  proof (cases result)
    case (Inl ec)
    then show ?thesis
      using assms(2) c acceptor_constructed [OF assms(1) c] by (auto simp: host_start_def)
  next
    case (Inr impl)
    obtain srv where srv: "make_TcpServer no_error = Inr srv"
      by (simp add: make_TcpServer_def throw_error_def)
    then have "connections srv = []"
      by (auto simp: make_TcpServer_def throw_error_def startAccept_def)
    then show ?thesis
      using assms(2) c srv Inr acceptor_constructed [OF assms(1) c] server_reach.constructed [OF srv]
      by (auto simp: host_start_def host_ok_def host_fds_def)
  qed
qed

section \<open>Steps\<close>

lemma accept_completes:
  assumes "fd_laws K ctl fds"
    and "accept_do_complete K ctl type True construct ec held w = (peer, result, w')"
    and "if held = invalid_socket then failed ec \<and> fds w = F else held \<notin> F \<and> fds w = insert held F"
  shows "\<exists>ec'. result = Some ec' \<and>
    (if failed ec' then fds w' = F
     else is_open peer \<and> data_ok (reactor_data peer) \<and> outstanding peer = 0 \<and>
       impl_socket peer \<notin> F \<and> fds w' = insert (impl_socket peer) F)"
proof -
  have closed: "\<not> is_open construct"
    by (simp add: is_open_def construct_def)
  obtain p2 e2 h2 w2 where assign: "accept_do_assign ctl type construct ec held w = (p2, e2, h2, w2)"
    by (metis prod.exhaust)
  then have r: "peer = p2" "result = Some e2" "w' = snd (holder_reset K h2 w2)"
    using assms(2) by (simp_all add: accept_do_complete_def)
  have new: "data_ok (reactor_data p2) \<and> outstanding p2 = 0"
    using assign by (auto simp: accept_do_assign_def do_assign_def register_descriptor_def construct_def is_open_def
        data_ok_def outstanding_def queued_def new_descriptor_state_def Let_def split: prod.splits if_splits)
  show ?thesis
    using r new accept_do_assign_fds [OF assms(1) assign closed] holder_reset_fds [OF assms(1), of h2 w2] assms(3)
    by (auto simp: is_open_def split: if_splits)
qed

lemma reach_accepted:
  assumes "server_reach fs0 srv fs"
  obtains newConnection rest where "accepts srv = newConnection # rest" "newConnection = createNew"
    "server_reach fs0 (handle_accept newConnection ec (srv\<lparr>accepts := rest\<rparr>)) fs"
proof -
  have "accepts srv = [createNew]"
    using server_reach_inv [OF assms] by (simp add: server_inv_def)
  moreover from this have "server_reach fs0 (handle_accept createNew ec (srv\<lparr>accepts := []\<rparr>)) fs"
    by (intro server_reach.event [OF assms, of "Accepted ec"]) simp_all
  ultimately show ?thesis
    using that by blast
qed

lemma started_pending: "pending (Tcp_Connection.Start createNew) \<noteq> No_Operation"
  by (simp add: Tcp_Connection.Start_def ReadPreRequestHeader_def)

lemma host_accepted_ok:
  assumes "fd_laws K ctl fds" "host_ok fds fs0 base h"
    and "if held = invalid_socket then failed ec \<and> fds w = fds (h_world h)
      else held \<notin> fds (h_world h) \<and> fds w = insert held (fds (h_world h))"
  shows "host_ok fds fs0 base (host_accepted K ctl ec held w h)"
proof -
  obtain peer result w' where c: "accept_do_complete K ctl 1 True construct ec held w = (peer, result, w')"
    by (metis prod.exhaust)
  from accept_completes [OF assms(1) c assms(3)] obtain error where
    error: "result = Some error"
    and outcome: "if failed error then fds w' = fds (h_world h)
      else is_open peer \<and> data_ok (reactor_data peer) \<and> outstanding peer = 0 \<and>
        impl_socket peer \<notin> fds (h_world h) \<and> fds w' = insert (impl_socket peer) (fds (h_world h))"
    by blast
  have "server_reach fs0 (h_server h) (h_disk h)"
    using assms(2) by (simp add: host_ok_def)
  from reach_accepted [OF this, of error] obtain conn rest where
    acc: "accepts (h_server h) = conn # rest" "conn = createNew"
    "server_reach fs0 (handle_accept conn error ((h_server h)\<lparr>accepts := rest\<rparr>)) (h_disk h)" .
  have conns: "connections (handle_accept conn error ((h_server h)\<lparr>accepts := rest\<rparr>)) =
      (if \<not> failed error then connections (h_server h) @ [Tcp_Connection.Start createNew] else connections (h_server h))"
    by (simp add: handle_accept_def startAccept_def acc(2))
  show ?thesis
  proof (cases "failed error")
    case True
    then show ?thesis
      using assms(2) acc(1,3) conns outcome by (simp add: host_accepted_def host_ok_def host_fds_def c error)
  next
    case False
    then have "socket_ok (Some (peer, False)) (Tcp_Connection.Start createNew)"
      using outcome started_pending by (simp add: socket_ok_def)
    then show ?thesis
      using assms(2) acc(1,3) conns outcome False
      by (auto simp: host_accepted_def host_ok_def host_fds_def c error intro: list_all2_appendI)
  qed
qed

lemma server_reach_moves:
  assumes "server_reach fs0 srv fs" "i < length (connections srv)"
    and "(conn, fs') = (connections srv ! i, fs) \<or>
      (\<exists>ev. conn_event_ok ev (connections srv ! i) \<and> conn_step ev (connections srv ! i, fs) = (conn, fs'))"
  shows "server_reach fs0 (srv\<lparr>connections := (connections srv)[i := conn]\<rparr>) fs'"
  using assms(3)
proof (elim disjE exE conjE)
  assume "(conn, fs') = (connections srv ! i, fs)"
  then show ?thesis
    using assms(1) by simp
next
  fix ev
  assume "conn_event_ok ev (connections srv ! i)" "conn_step ev (connections srv ! i, fs) = (conn, fs')"
  then show ?thesis
    using assms(2) by (intro server_reach.event [OF assms(1), of "On_Connection i ev"]) simp_all
qed

lemma connection_step_ok:
  assumes "host_laws K ctl pfs fds" "host_ok fds fs0 base h" "i < length (h_sockets h)" "h_sockets h ! i = Some (impl, waiting)"
  shows "\<exists>h'. connection_step K ctl pfs i ev impl waiting h = Some h' \<and> host_ok fds fs0 base h'"
proof -
  let ?l = "\<lparr>l_conn = connections (h_server h) ! i, l_disk = h_disk h, l_impl = impl, l_world = h_world h, l_waiting = waiting\<rparr>"
  have laws: "fd_laws K ctl fds" "\<And>req. performs K (impl_socket impl) (\<lambda>_. req) (pfs (impl_socket impl) req)"
    "stream_system K ctl (impl_socket impl)"
    using assms(1) by (auto simp: host_laws_def)
  have reach: "server_reach fs0 (h_server h) (h_disk h)"
    and socks: "list_all2 socket_ok (h_sockets h) (connections (h_server h))"
    and fds: "fds (h_world h) = base \<union> set (host_fds h)" "distinct (host_fds h)" "base \<inter> set (host_fds h) = {}"
    using assms(2) by (simp_all add: host_ok_def)
  have i: "i < length (connections (h_server h))"
    using assms(3) list_all2_lengthD [OF socks] by simp
  have sock: "is_open impl" "io_ok ?l"
    using list_all2_nthD [OF socks assms(3)] assms(4) by (auto simp: socket_ok_def io_ok_def)
  obtain l where run: "live_step K ctl (pfs (impl_socket impl)) ev ?l = Some l" "io_ok l" "conn_moves ?l l"
    using live_step_moves [OF laws(2,3) sock(2)] by blast
  have same: "fds (l_world l) = fds (h_world h)" "impl_socket (l_impl l) = impl_socket impl"
    using live_step_keeps [OF host_io_keeps [OF assms(1)] run(1)] by simp_all
  have reach': "server_reach fs0 ((h_server h)\<lparr>connections := (connections (h_server h))[i := l_conn l]\<rparr>) (l_disk l)"
    using server_reach_moves [OF reach i] run(3) by (auto simp: conn_moves_def)
  obtain i' ops calls w' where d: "destroy_impl K ctl (l_impl l) (l_world l) = (i', ops, calls, w')"
    by (metis prod.exhaust)
  have gone: "fds w' = fds (h_world h) - {impl_socket impl}"
    using destroy_impl_fds [OF laws(1) d] same sock(1) by (simp add: owned_def is_open_def)
  show ?thesis
  proof (cases "pending (l_conn l) = No_Operation")
    case True
    then have "list_all2 socket_ok ((h_sockets h)[i := None]) ((connections (h_server h))[i := l_conn l])"
      using socks by (auto intro!: list_all2_update_cong simp: socket_ok_def)
    then show ?thesis
      using True run(1) d reach' gone fds socket_fds_update(2) [OF assms(3,4)]
      by (auto simp: connection_step_def host_ok_def host_fds_def)
  next
    case False
    then have "socket_ok (Some (l_impl l, l_waiting l)) (l_conn l)"
      using run(2) same(2) sock(1) by (simp add: socket_ok_def io_ok_def is_open_def)
    then have "list_all2 socket_ok ((h_sockets h)[i := Some (l_impl l, l_waiting l)]) ((connections (h_server h))[i := l_conn l])"
      using socks by (intro list_all2_update_cong)
    then show ?thesis
      using False run(1) reach' same fds socket_fds_update(1) [OF assms(3,4) same(2)]
      by (simp add: connection_step_def host_ok_def host_fds_def)
  qed
qed

lemma host_step_ok:
  assumes "host_laws K ctl pfs fds" "host_ok fds fs0 base h"
  shows "\<exists>h'. host_step K ctl pfs ev h = Some h' \<and> host_ok fds fs0 base h'"
proof (cases ev)
  case Try_Accept
  have laws: "fd_laws K ctl fds" "\<And>s state ec w. non_blocking_accept K s state ec w \<noteq> None"
    using assms(1) by (auto simp: host_laws_def)
  obtain finished ec held w where run:
    "non_blocking_accept K (impl_socket (h_acceptor h)) (impl_state (h_acceptor h)) no_error (h_world h) = Some (finished, ec, held, w)"
    using laws(2) by (metis not_None_eq prod.exhaust)
  note tried = non_blocking_accept_fds [OF laws(1) run]
  have perform: "accept_do_perform K (impl_socket (h_acceptor h)) (impl_state (h_acceptor h)) invalid_socket (new_op 0) (h_world h) =
      Some ((if finished then Done else Not_Done, ec, 0, w), held)"
    by (simp add: accept_do_perform_def new_op_def run holder_reset_def)
  show ?thesis
  proof (cases finished)
    case True
    have "host_ok fds fs0 base (host_accepted K ctl ec held w h)"
      using tried by (intro host_accepted_ok [OF laws(1) assms(2)]) (auto split: if_splits)
    with True show ?thesis
      by (simp add: host_step_def Try_Accept perform)
  next
    case False
    then show ?thesis
      using assms(2) tried by (auto simp: host_step_def Try_Accept perform host_ok_def host_fds_def split: if_splits)
  qed
next
  case (Accept_Fails ec)
  then show ?thesis
    using assms host_accepted_ok [of K ctl fds fs0 base h invalid_socket ec "h_world h"]
    by (simp add: host_step_def host_laws_def)
next
  case (On_Socket i cev)
  then show ?thesis
    using assms(2) connection_step_ok [OF assms, of i _ _ cev] by (auto simp: host_step_def split: option.split)
qed

lemma host_run_ok:
  assumes "host_laws K ctl pfs fds" "host_ok fds fs0 base h"
  shows "\<exists>h'. host_run K ctl pfs evs h = Some h' \<and> host_ok fds fs0 base h'"
  using assms(2)
proof (induction evs arbitrary: h)
  case (Cons ev evs)
  then show ?case
    using host_step_ok [OF assms(1) Cons.prems, of ev] by auto
qed simp

section \<open>Properties\<close>

text \<open>
  C9. The server on sockets, whatever the system calls report and the network delivers. If the
  constructor throws, the process has the descriptors it had before. Otherwise, after any sequence
  of accepts, readiness events and transfers of any connections: the process goes on, the state of
  the server is one that it reaches over the events of its sockets, so that all that is shown of
  the server holds for it; a connection has its socket exactly while an operation of it is pending; and
  the new descriptors of the process are those of the acceptor and of these sockets, all different, so
  that no descriptor is shared, none leaks and none is closed twice.
\<close>

theorem server_on_sockets:
  assumes "host_laws K ctl pfs fds"
  shows "case host_start K ctl somaxconn fs w of
      (Inl ec, w') \<Rightarrow> failed ec \<and> fds w' = fds w
    | (Inr h, _) \<Rightarrow> \<exists>h'. host_run K ctl pfs evs h = Some h' \<and> server_reach fs (h_server h') (h_disk h') \<and>
        list_all2 (\<lambda>s conn. s = None \<longleftrightarrow> pending conn = No_Operation) (h_sockets h') (connections (h_server h')) \<and>
        fds (h_world h') = fds w \<union> set (host_fds h') \<and> distinct (host_fds h') \<and> fds w \<inter> set (host_fds h') = {}"
proof -
  obtain r w' where start: "host_start K ctl somaxconn fs w = (r, w')"
    by (metis prod.exhaust)
  have "fd_laws K ctl fds"
    using assms by (simp add: host_laws_def)
  note started = host_start_ok [OF this start]
  show ?thesis
  proof (cases r)
    case (Inr h)
    then obtain h' where h': "host_run K ctl pfs evs h = Some h'" "host_ok fds fs (fds w) h'"
      using started host_run_ok [OF assms, of fs "fds w" h evs] by auto
    have "list_all2 (\<lambda>s conn. s = None \<longleftrightarrow> pending conn = No_Operation) (h_sockets h') (connections (h_server h'))"
      by (rule list_all2_mono [where P = socket_ok]) (use h'(2) in \<open>auto simp: host_ok_def socket_ok_def split: option.splits\<close>)
    then show ?thesis
      using h' start Inr by (auto simp: host_ok_def)
  qed (use start started in auto)
qed

text \<open>A system whose state is the list of its descriptors; its peers close their connections.\<close>

definition closing_kernel :: "int list kernel" where
  "closing_kernel = fd_kernel\<lparr>k_sendmsg := (\<lambda>_ _ _ w. ((-1, 32), w)), k_send := (\<lambda>_ _ _ w. ((-1, 32), w))\<rparr>"

definition closing_performers :: "socket_type \<Rightarrow> io_request \<Rightarrow> int list perform_func" where
  "closing_performers s req op w = (case request_perform closing_kernel s stream_oriented req op w of
      Some r \<Rightarrow> r | None \<Rightarrow> (Done, no_error, 0, w))"

lemma closing_calls:
  "k_recvmsg closing_kernel s bufs flags w = ((0, 0), w)" "k_sendmsg closing_kernel s bufs flags w = ((-1, 32), w)"
  "k_recv closing_kernel s b flags w = ((0, 0), w)" "k_send closing_kernel s b flags w = ((-1, 32), w)"
  "k_ioctl closing_kernel s c arg w = ((0, 0), arg, w)" "k_accept closing_kernel s w = ((fresh_fd w, 0), fresh_fd w # w)"
  by (simp_all add: closing_kernel_def fd_kernel_def)

lemma closing_attempts:
  "non_blocking_recv closing_kernel s bufs flags True ec n w \<noteq> None"
  "non_blocking_send closing_kernel s bufs flags ec n w \<noteq> None"
  "non_blocking_accept closing_kernel s state ec w \<noteq> None"
  by (subst non_blocking_recv.simps, simp add: recv_def closing_calls)
    (subst non_blocking_send.simps, simp add: send_def closing_calls get_last_error_def is_blocking_error_def basic_ec_def,
     subst non_blocking_accept.simps, auto simp: accept_def closing_calls get_last_error_def invalid_socket_def fresh_fd_valid Let_def)

lemma closing_laws: "host_laws closing_kernel fd_ctl closing_performers set"
proof -
  have single: "single_call_law closing_kernel"
    by (simp add: single_call_law_def closing_calls)
  have "stream_system closing_kernel fd_ctl s" for s
    by (simp add: stream_system_def single recv_law_def send_law_def closing_calls fd_ctl_def)
  moreover have "fd_laws closing_kernel fd_ctl set"
    using fd_kernel_laws by (simp add: fd_laws_def closing_kernel_def)
  moreover have "request_perform closing_kernel s stream_oriented req op w \<noteq> None" for s req op w
    by (cases req) (simp_all only: request_perform.simps recv_do_perform_native [OF single] send_do_perform_native [OF single]
        map_option_is_None closing_attempts not_False_eq_True)
  then have "performs closing_kernel s (\<lambda>_. req) (closing_performers s req)" for s req
    unfolding performs_def closing_performers_def by (auto split: option.split)
  ultimately show ?thesis
    using closing_attempts(3) by (simp add: host_laws_def keeps_def closing_calls)
qed

theorem server_on_sockets_witness:
  "\<exists>h w' h'. host_start closing_kernel fd_ctl 4096 empty_disk [7] = (Inr h, w') \<and>
     host_run closing_kernel fd_ctl closing_performers
       [Try_Accept, Try_Accept, On_Socket 0 (Issue_Transfer False (\<lambda>_. CHR ''x''))] h = Some h' \<and>
     server_reach empty_disk (h_server h') (h_disk h') \<and> distinct (host_fds h') \<and>
     set (h_world h') = {7} \<union> set (host_fds h')"
proof -
  have "any_endpoint 2 p = demo_endpoint (snd (ep_address (any_endpoint 2 p)))" for p
    by (simp add: any_endpoint_def demo_endpoint_def)
  moreover have "\<not> isl (fst (acceptor_construct closing_kernel fd_ctl 4096 (demo_endpoint addr) True [7]))" for addr
    by code_simp
  ultimately have "\<not> isl (fst (acceptor_construct closing_kernel fd_ctl 4096 (any_endpoint 2 (ucast kServerPort)) True [7]))"
    by metis
  then have "\<not> isl (fst (host_start closing_kernel fd_ctl 4096 empty_disk [7]))"
    by (auto simp: host_start_def make_TcpServer_def throw_error_def split: prod.splits sum.splits)
  then obtain h w' where start: "host_start closing_kernel fd_ctl 4096 empty_disk [7] = (Inr h, w')"
    by (metis prod.exhaust fst_conv isl_def sum.exhaust_sel)
  show ?thesis
    using server_on_sockets [OF closing_laws, where somaxconn = 4096 and fs = empty_disk and w = "[7]"
        and evs = "[Try_Accept, Try_Accept, On_Socket 0 (Issue_Transfer False (\<lambda>_. CHR ''x''))]"] start
    by (auto simp del: host_run.simps)
qed

end
