(* ===== verification/Asio_Read_Until.thy ===== *)
theory Asio_Read_Until
  imports Asio_Transfer "HOL-Library.Sublist"
begin

text \<open>
  Model of \<open>dynamic_string_buffer\<close> (\<open>asio/buffer.hpp\<close>) in both of its roles, and of \<open>read_until\<close> and
  \<open>async_read_until\<close> (\<open>impl/read_until.hpp\<close>), which read from a stream into a dynamic buffer until a
  delimiter has arrived. They search incrementally: after each read only the new bytes, and those of a
  delimiter that may have begun before, are looked at. The theory shows that all variants give what
  a search of all bytes after each read would give.
\<close>

type_synonym bytes = "byte list"

section \<open>Strings\<close>

text \<open>
  A \<open>std::string\<close>: its characters and its capacity. \<open>policy\<close> is the capacity that the library chooses
  when a string has to grow, from the old capacity and the size that is needed.
\<close>

record std_string =
  chars :: bytes
  str_capacity :: nat

definition string_resize :: "(nat \<Rightarrow> nat \<Rightarrow> nat) \<Rightarrow> nat \<Rightarrow> std_string \<Rightarrow> std_string" where
  "string_resize policy n s =
     \<lparr>chars = take n (chars s) @ replicate (n - length (chars s)) (CHR 0x00),
      str_capacity = (if n \<le> str_capacity s then str_capacity s else policy (str_capacity s) n)\<rparr>"

section \<open>Dynamic buffers\<close>

text \<open>\<open>db_fill\<close> is the member \<open>size_\<close>, \<open>None\<close> while it has the largest value.\<close>

record dyn_buffer =
  db_string :: std_string
  db_fill :: "nat option"
  db_max :: nat

datatype length_error = Length_Error

definition dynamic_buffer :: "std_string \<Rightarrow> nat \<Rightarrow> dyn_buffer" where
  "dynamic_buffer s maximum_size = \<lparr>db_string = s, db_fill = None, db_max = maximum_size\<rparr>"

definition db_size :: "dyn_buffer \<Rightarrow> nat" where
  "db_size b = (case db_fill b of Some n \<Rightarrow> n | None \<Rightarrow> min (length (chars (db_string b))) (db_max b))"

definition db_capacity :: "dyn_buffer \<Rightarrow> nat" where
  "db_capacity b = min (str_capacity (db_string b)) (db_max b)"

text \<open>The bytes of \<open>data()\<close> and of \<open>data(pos, n)\<close>.\<close>

definition db_data_v1 :: "dyn_buffer \<Rightarrow> bytes" where
  "db_data_v1 b = (case db_fill b of Some n \<Rightarrow> take n (chars (db_string b)) | None \<Rightarrow> chars (db_string b))"

definition db_data :: "dyn_buffer \<Rightarrow> nat \<Rightarrow> nat \<Rightarrow> bytes" where
  "db_data b pos n = take n (drop pos (take (db_max b) (chars (db_string b))))"

definition db_prepare :: "(nat \<Rightarrow> nat \<Rightarrow> nat) \<Rightarrow> nat \<Rightarrow> dyn_buffer \<Rightarrow> length_error + dyn_buffer" where
  "db_prepare policy n b =
     (if db_size b > db_max b \<or> db_max b - db_size b < n then Inl Length_Error
      else
        let fill = (case db_fill b of Some k \<Rightarrow> k | None \<Rightarrow> length (chars (db_string b)))
        in Inr (b\<lparr>db_fill := Some fill, db_string := string_resize policy (fill + n) (db_string b)\<rparr>))"

text \<open>
  \<open>commit\<close> requires a call of \<open>prepare\<close> before, which sets \<open>size_\<close>; a call without one is outside of its
  contract, and has no effect here.
\<close>

definition db_commit :: "(nat \<Rightarrow> nat \<Rightarrow> nat) \<Rightarrow> nat \<Rightarrow> dyn_buffer \<Rightarrow> dyn_buffer" where
  "db_commit policy n b =
     (case db_fill b of
        Some k \<Rightarrow>
          let fill = k + min n (length (chars (db_string b)) - k)
          in b\<lparr>db_fill := Some fill, db_string := string_resize policy fill (db_string b)\<rparr>
      | None \<Rightarrow> b)"

definition db_grow :: "(nat \<Rightarrow> nat \<Rightarrow> nat) \<Rightarrow> nat \<Rightarrow> dyn_buffer \<Rightarrow> length_error + dyn_buffer" where
  "db_grow policy n b =
     (if db_size b > db_max b \<or> db_max b - db_size b < n then Inl Length_Error
      else Inr (b\<lparr>db_string := string_resize policy (db_size b + n) (db_string b)\<rparr>))"

definition db_shrink :: "(nat \<Rightarrow> nat \<Rightarrow> nat) \<Rightarrow> nat \<Rightarrow> dyn_buffer \<Rightarrow> dyn_buffer" where
  "db_shrink policy n b =
     b\<lparr>db_string := string_resize policy (if n > db_size b then 0 else db_size b - n) (db_string b)\<rparr>"

definition db_consume :: "nat \<Rightarrow> dyn_buffer \<Rightarrow> dyn_buffer" where
  "db_consume n b = (case db_fill b of
      Some k \<Rightarrow>
        let consume_length = min n k
        in b\<lparr>db_string := (db_string b)\<lparr>chars := drop consume_length (chars (db_string b))\<rparr>, db_fill := Some (k - consume_length)\<rparr>
    | None \<Rightarrow> b\<lparr>db_string := (db_string b)\<lparr>chars := drop n (chars (db_string b))\<rparr>\<rparr>)"

text \<open>What a read does to the memory behind a buffer: the bytes replace those from \<open>pos\<close> on.\<close>

definition db_store :: "nat \<Rightarrow> bytes \<Rightarrow> dyn_buffer \<Rightarrow> dyn_buffer" where
  "db_store pos bs b =
     b\<lparr>db_string := (db_string b)\<lparr>chars := take pos (chars (db_string b)) @ bs @ drop (pos + length bs) (chars (db_string b))\<rparr>\<rparr>"

section \<open>Searching\<close>

text \<open>
  The inner loop of \<open>partial_search\<close> at one position; \<open>started\<close> if \<open>test_iter2\<close> is not at \<open>first2\<close>. Positions
  are counted from \<open>first1\<close>.
\<close>

datatype match = Full_Match | Partial_Match | No_Match

fun test_match :: "'a list \<Rightarrow> 'a list \<Rightarrow> bool \<Rightarrow> match" where
  "test_match xs [] started = Full_Match"
| "test_match [] (y # ys) started = (if started then Partial_Match else No_Match)"
| "test_match (x # xs) (y # ys) started = (if x \<noteq> y then No_Match else test_match xs ys True)"

fun partial_search :: "'a list \<Rightarrow> 'a list \<Rightarrow> nat \<times> bool" where
  "partial_search [] delim = (0, False)"
| "partial_search (x # xs) delim = (case test_match (x # xs) delim False of
      Full_Match \<Rightarrow> (0, True)
    | Partial_Match \<Rightarrow> (0, False)
    | No_Match \<Rightarrow> (case partial_search xs delim of (i, full) \<Rightarrow> (Suc i, full)))"

text \<open>\<open>std::find\<close>: the position of the first element that is equal, or the end.\<close>

fun std_find :: "'a \<Rightarrow> 'a list \<Rightarrow> nat" where
  "std_find c [] = 0"
| "std_find c (x # xs) = (if x = c then 0 else Suc (std_find c xs))"

text \<open>
  The search in the data from a position on, as the overloads for a character, a string and a match
  condition have it: \<open>Inl\<close> the result if there is a match, \<open>Inr\<close> the position of the next search. A match
  condition takes the data and the position to start from, and yields a position and whether it
  matched.
\<close>

definition search_delim :: "byte \<Rightarrow> bytes \<Rightarrow> nat \<Rightarrow> nat + nat" where
  "search_delim delim data search_position =
     (let iter = search_position + std_find delim (drop search_position data)
      in if iter \<noteq> length data then Inl (iter + 1) else Inr (length data))"

definition search_string :: "bytes \<Rightarrow> bytes \<Rightarrow> nat \<Rightarrow> nat + nat" where
  "search_string delim data search_position =
     (let (i, full) = partial_search (drop search_position data) delim; first = search_position + i
      in if first \<noteq> length data then if full then Inl (first + length delim) else Inr first
         else Inr (length data))"

definition search_condition :: "(bytes \<Rightarrow> nat \<Rightarrow> nat \<times> bool) \<Rightarrow> bytes \<Rightarrow> nat \<Rightarrow> nat + nat" where
  "search_condition match_condition data search_position =
     (let (first, full) = match_condition data search_position
      in if full then Inl first else if first \<noteq> length data then Inr first else Inr (length data))"

section \<open>Synchronous operations\<close>

text \<open>
  The loops, for any search. The stream is a list of what its \<open>read_some\<close> reports, an error code and
  bytes; a call that needs more than there is blocks, which is \<open>None\<close>.
\<close>

type_synonym read_reply = "error_code \<times> bytes"
type_synonym search = "bytes \<Rightarrow> nat \<Rightarrow> nat + nat"

definition bytes_to_read :: "dyn_buffer \<Rightarrow> nat" where
  "bytes_to_read b = min (max 512 (db_capacity b - db_size b)) (min 65536 (db_max b - db_size b))"

fun read_until_v1 ::
  "(nat \<Rightarrow> nat \<Rightarrow> nat) \<Rightarrow> search \<Rightarrow> nat \<Rightarrow> dyn_buffer \<Rightarrow> read_reply list \<Rightarrow> (length_error + nat \<times> error_code \<times> dyn_buffer) option" where
  "read_until_v1 policy search pos b replies = (case search (db_data_v1 b) pos of
      Inl n \<Rightarrow> Some (Inr (n, no_error, b))
    | Inr pos' \<Rightarrow>
        if db_size b = db_max b then Some (Inr (0, misc_ec not_found, b))
        else (case db_prepare policy (bytes_to_read b) b of
            Inl e \<Rightarrow> Some (Inl e)
          | Inr b1 \<Rightarrow> (case replies of
                [] \<Rightarrow> None
              | (ec, bs) # rest \<Rightarrow>
                  let b2 = db_commit policy (length bs) (db_store (db_size b1) bs b1)
                  in if failed ec then Some (Inr (0, ec, b2)) else read_until_v1 policy search pos' b2 rest)))"

fun read_until_v2 ::
  "(nat \<Rightarrow> nat \<Rightarrow> nat) \<Rightarrow> search \<Rightarrow> nat \<Rightarrow> dyn_buffer \<Rightarrow> read_reply list \<Rightarrow> (length_error + nat \<times> error_code \<times> dyn_buffer) option" where
  "read_until_v2 policy search pos b replies = (case search (db_data b 0 (db_size b)) pos of
      Inl n \<Rightarrow> Some (Inr (n, no_error, b))
    | Inr pos' \<Rightarrow>
        if db_size b = db_max b then Some (Inr (0, misc_ec not_found, b))
        else (let n = bytes_to_read b in case db_grow policy n b of
            Inl e \<Rightarrow> Some (Inl e)
          | Inr b1 \<Rightarrow> (case replies of
                [] \<Rightarrow> None
              | (ec, bs) # rest \<Rightarrow>
                  let b2 = db_shrink policy (n - length bs) (db_store (db_size b) bs b1)
                  in if failed ec then Some (Inr (0, ec, b2)) else read_until_v2 policy search pos' b2 rest)))"

declare read_until_v1.simps [simp del] read_until_v2.simps [simp del]

section \<open>Asynchronous operations\<close>

text \<open>
  The composed operation: \<open>up_position\<close> is \<open>search_position_\<close>, \<open>None\<close> for \<open>not_found\<close>. A call issues a read of some
  bytes or invokes the handler.
\<close>

record until_op =
  up_buffers :: dyn_buffer
  up_position :: "nat option"

datatype 'op until_outcome = Until_Issue nat 'op | Until_Handler error_code nat 'op

definition until_result :: "error_code \<Rightarrow> 'a until_op_scheme \<Rightarrow> 'a until_op_scheme until_outcome" where
  "until_result ec op =
     Until_Handler (if up_position op = None then misc_ec not_found else ec)
       (case up_position op of None \<Rightarrow> 0 | Some n \<Rightarrow> if failed ec then 0 else n) op"

text \<open>From the search to the issue of a read; the number of bytes to read is 0 if it is done.\<close>

definition until_search :: "search \<Rightarrow> until_op \<Rightarrow> nat \<times> until_op" where
  "until_search search op =
     (let b = up_buffers op in case search (db_data_v1 b) (case up_position op of None \<Rightarrow> 0 | Some p \<Rightarrow> p) of
        Inl n \<Rightarrow> (0, op\<lparr>up_position := Some n\<rparr>)
      | Inr pos' \<Rightarrow>
          if db_size b = db_max b then (0, op\<lparr>up_position := None\<rparr>)
          else (bytes_to_read b, op\<lparr>up_position := Some pos'\<rparr>))"

definition until_issue :: "(nat \<Rightarrow> nat \<Rightarrow> nat) \<Rightarrow> nat \<times> until_op \<Rightarrow> length_error + until_op until_outcome" where
  "until_issue policy x = (case x of (n, op) \<Rightarrow>
     map_sum id (\<lambda>b. Until_Issue n (op\<lparr>up_buffers := b\<rparr>)) (db_prepare policy n (up_buffers op)))"

definition until_op_v1_call ::
  "(nat \<Rightarrow> nat \<Rightarrow> nat) \<Rightarrow> search \<Rightarrow> bool \<Rightarrow> bool \<Rightarrow> error_code \<Rightarrow> nat \<Rightarrow> until_op \<Rightarrow> length_error + until_op until_outcome" where
  "until_op_v1_call policy search cancelled start ec bytes_transferred op =
     (if start then until_issue policy (until_search search op)
      else
        let op1 = op\<lparr>up_buffers := db_commit policy bytes_transferred (up_buffers op)\<rparr>
        in if failed ec \<or> bytes_transferred = 0 then Inr (until_result ec op1)
           else if cancelled then Inr (until_result (basic_ec operation_aborted) op1)
           else case until_search search op1 of (n, op2) \<Rightarrow>
             if n = 0 then Inr (until_result ec op2) else until_issue policy (n, op2))"

text \<open>The completions of its reads, one after the other, until the handler is invoked.\<close>

fun until_run ::
  "(nat \<Rightarrow> nat \<Rightarrow> nat) \<Rightarrow> search \<Rightarrow> length_error + until_op until_outcome \<Rightarrow> read_reply list \<Rightarrow> length_error + until_op until_outcome" where
  "until_run policy search (Inr (Until_Issue n op)) ((ec, bs) # rest) =
     until_run policy search
       (until_op_v1_call policy search False False ec (length bs)
          (op\<lparr>up_buffers := db_store (db_size (up_buffers op)) bs (up_buffers op)\<rparr>)) rest"
| "until_run policy search out replies = out"

definition async_read_until ::
  "(nat \<Rightarrow> nat \<Rightarrow> nat) \<Rightarrow> search \<Rightarrow> dyn_buffer \<Rightarrow> read_reply list \<Rightarrow> length_error + until_op until_outcome" where
  "async_read_until policy search b replies =
     until_run policy search
       (until_op_v1_call policy search False True no_error 0 \<lparr>up_buffers = b, up_position = Some 0\<rparr>) replies"

text \<open>
  The operation for dynamic buffers of the second kind remembers how much it has asked for, and grows and
  shrinks the buffer around a read; the number in \<open>Until_Issue\<close> is the position that it reads to.
\<close>

record until_op_v2 = until_op +
  up_bytes :: nat

definition until_search_v2 :: "search \<Rightarrow> until_op_v2 \<Rightarrow> until_op_v2" where
  "until_search_v2 search op =
     (let b = up_buffers op in case search (db_data b 0 (db_size b)) (case up_position op of None \<Rightarrow> 0 | Some p \<Rightarrow> p) of
        Inl n \<Rightarrow> op\<lparr>up_position := Some n, up_bytes := 0\<rparr>
      | Inr pos' \<Rightarrow>
          if db_size b = db_max b then op\<lparr>up_position := None, up_bytes := 0\<rparr>
          else op\<lparr>up_position := Some pos', up_bytes := bytes_to_read b\<rparr>)"

definition until_issue_v2 :: "(nat \<Rightarrow> nat \<Rightarrow> nat) \<Rightarrow> until_op_v2 \<Rightarrow> length_error + until_op_v2 until_outcome" where
  "until_issue_v2 policy op =
     (let pos = db_size (up_buffers op)
      in map_sum id (\<lambda>b. Until_Issue pos (op\<lparr>up_buffers := b\<rparr>)) (db_grow policy (up_bytes op) (up_buffers op)))"

definition until_op_v2_call ::
  "(nat \<Rightarrow> nat \<Rightarrow> nat) \<Rightarrow> search \<Rightarrow> bool \<Rightarrow> bool \<Rightarrow> error_code \<Rightarrow> nat \<Rightarrow> until_op_v2 \<Rightarrow> length_error + until_op_v2 until_outcome" where
  "until_op_v2_call policy search cancelled start ec bytes_transferred op =
     (if start then until_issue_v2 policy (until_search_v2 search op)
      else
        let op1 = op\<lparr>up_buffers := db_shrink policy (up_bytes op - bytes_transferred) (up_buffers op)\<rparr>
        in if failed ec \<or> bytes_transferred = 0 then Inr (until_result ec op1)
           else if cancelled then Inr (until_result (basic_ec operation_aborted) op1)
           else let op2 = until_search_v2 search op1
                in if up_bytes op2 = 0 then Inr (until_result ec op2) else until_issue_v2 policy op2)"

fun until_run_v2 ::
  "(nat \<Rightarrow> nat \<Rightarrow> nat) \<Rightarrow> search \<Rightarrow> length_error + until_op_v2 until_outcome \<Rightarrow> read_reply list \<Rightarrow>
   length_error + until_op_v2 until_outcome" where
  "until_run_v2 policy search (Inr (Until_Issue pos op)) ((ec, bs) # rest) =
     until_run_v2 policy search
       (until_op_v2_call policy search False False ec (length bs)
          (op\<lparr>up_buffers := db_store pos bs (up_buffers op)\<rparr>)) rest"
| "until_run_v2 policy search out replies = out"

definition async_read_until_v2 ::
  "(nat \<Rightarrow> nat \<Rightarrow> nat) \<Rightarrow> search \<Rightarrow> dyn_buffer \<Rightarrow> read_reply list \<Rightarrow> length_error + until_op_v2 until_outcome" where
  "async_read_until_v2 policy search b replies =
     until_run_v2 policy search
       (until_op_v2_call policy search False True no_error 0 \<lparr>up_buffers = b, up_position = Some 0, up_bytes = 0\<rparr>) replies"

section \<open>Reference\<close>

text \<open>
  The end of the first match in the data, and reading with a search of all data after every read: the
  result, the error code and the data.
\<close>

definition first_end :: "bytes \<Rightarrow> bytes \<Rightarrow> nat option" where
  "first_end delim data =
     map_option (\<lambda>i. i + length delim) (find (\<lambda>i. take (length delim) (drop i data) = delim) [0..<length data])"

fun until_spec :: "(bytes \<Rightarrow> nat option) \<Rightarrow> nat \<Rightarrow> bytes \<Rightarrow> read_reply list \<Rightarrow> (nat \<times> error_code \<times> bytes) option" where
  "until_spec match_end max_size data replies = (case match_end data of
      Some n \<Rightarrow> Some (n, no_error, data)
    | None \<Rightarrow>
        if length data = max_size then Some (0, misc_ec not_found, data)
        else (case replies of
            [] \<Rightarrow> None
          | (ec, bs) # rest \<Rightarrow> if failed ec then Some (0, ec, data @ bs) else until_spec match_end max_size (data @ bs) rest))"

declare until_spec.simps [simp del]

section \<open>Matching\<close>

lemma test_match_eq:
  "test_match xs d started = (if prefix d xs then Full_Match else if prefix xs d \<and> (started \<or> xs \<noteq> []) then Partial_Match else No_Match)"
  by (induction xs d started rule: test_match.induct) auto

definition apart :: "'a list \<Rightarrow> 'a list \<Rightarrow> bool" where
  "apart d xs \<longleftrightarrow> \<not> prefix d xs \<and> \<not> prefix xs d"

lemma apart_append: "apart d xs \<Longrightarrow> apart d (xs @ ys)"
  by (auto simp: apart_def prefix_append dest: append_prefixD)

text \<open>Before the position that \<open>partial_search\<close> finds, no match begins, also if the sequence goes on.\<close>

lemma partial_search_eq:
  assumes "partial_search xs d = (i, full)"
  shows "i \<le> length xs" "\<forall>j<i. apart d (drop j xs)" "full \<longrightarrow> i < length xs \<and> prefix d (drop i xs)"
    "\<not> full \<longrightarrow> i < length xs \<longrightarrow> prefix (drop i xs) d \<and> \<not> prefix d (drop i xs)"
proof -
  have "i \<le> length xs \<and> (\<forall>j<i. apart d (drop j xs)) \<and> (full \<longrightarrow> i < length xs \<and> prefix d (drop i xs)) \<and>
    (\<not> full \<longrightarrow> i < length xs \<longrightarrow> prefix (drop i xs) d \<and> \<not> prefix d (drop i xs))"
    using assms
  proof (induction xs arbitrary: i full)
    case (Cons x xs)
    obtain k f where rec: "partial_search xs d = (k, f)"
      by (metis prod.exhaust)
    show ?case
      using Cons.prems Cons.IH [OF rec] rec
      by (auto simp: test_match_eq apart_def less_Suc_eq_0_disj simp del: test_match.simps split: if_splits)
  qed simp
  then show "i \<le> length xs" "\<forall>j<i. apart d (drop j xs)" "full \<longrightarrow> i < length xs \<and> prefix d (drop i xs)"
    "\<not> full \<longrightarrow> i < length xs \<longrightarrow> prefix (drop i xs) d \<and> \<not> prefix d (drop i xs)"
    by blast+
qed

lemma take_eq_prefix: "take (length d) xs = d \<longleftrightarrow> prefix d xs"
  by (metis append_eq_conv_conj prefix_def)

lemma first_endI:
  assumes "i < length data" "prefix d (drop i data)" "\<forall>j<i. \<not> prefix d (drop j data)"
  shows "first_end d data = Some (i + length d)"
proof -
  have "find (\<lambda>i. take (length d) (drop i data) = d) [0..<length data] = Some i"
    unfolding find_Some_iff using assms by (auto simp: take_eq_prefix)
  then show ?thesis
    by (simp add: first_end_def)
qed

lemma first_end_None: "first_end d data = None \<longleftrightarrow> (\<forall>i<length data. \<not> prefix d (drop i data))"
  by (auto simp: first_end_def find_None_iff take_eq_prefix)

lemma std_find_eq: "std_find c xs \<le> length xs \<and> (std_find c xs < length xs \<longrightarrow> xs ! std_find c xs = c) \<and>
    (\<forall>j < std_find c xs. xs ! j \<noteq> c)"
  by (induction xs) (auto simp: less_Suc_eq_0_disj)

section \<open>Incremental search\<close>

text \<open>
  What the operations rely on in a search: a position is safe if no match begins before it, however
  the data goes on.
\<close>

locale incremental_search =
  fixes search :: search and match_end :: "bytes \<Rightarrow> nat option" and safe :: "bytes \<Rightarrow> nat \<Rightarrow> bool"
  assumes safe_start: "safe data 0"
    and search_found: "safe data p \<Longrightarrow> search data p = Inl n \<Longrightarrow> match_end data = Some n"
    and search_more: "safe data p \<Longrightarrow> search data p = Inr p' \<Longrightarrow> match_end data = None \<and> safe (data @ bs) p'"

definition safe_position :: "bytes \<Rightarrow> bytes \<Rightarrow> nat \<Rightarrow> bool" where
  "safe_position d data p \<longleftrightarrow> p \<le> length data \<and> (\<forall>j<p. apart d (drop j data))"

lemma searched_apart:
  assumes "safe_position d data p" "partial_search (drop p data) d = (i, full)" "j < p + i"
  shows "apart d (drop j data)"
proof (cases "j < p")
  case True
  then show ?thesis
    using assms(1) by (auto simp: safe_position_def)
next
  case False
  then have "j - p < i" "drop (j - p) (drop p data) = drop j data"
    using assms(3) by simp_all
  then show ?thesis
    using partial_search_eq(2) [OF assms(2)] by metis
qed

lemma search_string_found:
  assumes "safe_position d data p" "search_string d data p = Inl n"
  shows "first_end d data = Some n"
proof -
  obtain i where s: "partial_search (drop p data) d = (i, True)" "n = p + i + length d" "p + i \<noteq> length data"
    using assms(2) by (auto simp: search_string_def Let_def split: prod.splits if_splits)
  then show ?thesis
    using first_endI [of "p + i" data d] partial_search_eq(3) [OF s(1)] searched_apart [OF assms(1) s(1)]
    by (auto simp: apart_def add.commute)
qed

lemma search_string_more:
  assumes "safe_position d data p" "search_string d data p = Inr p'"
  shows "first_end d data = None \<and> safe_position d (data @ bs) p'"
proof -
  have p: "p \<le> length data"
    using assms(1) by (simp add: safe_position_def)
  obtain i full where s: "partial_search (drop p data) d = (i, full)" "p' = p + i" "full \<longrightarrow> p + i = length data"
    using assms(2) by (auto simp: search_string_def Let_def split: prod.splits if_splits)
  note found = partial_search_eq [OF s(1)] and before = searched_apart [OF assms(1) s(1)]
  have notfull: "\<not> full"
    using found(3) s(3) by auto
  have "\<not> prefix d (drop j data)" if "j < length data" for j
  proof (cases "j < p + i")
    case False
    with that p have "i < length (drop p data)"
      by simp
    with found(4) notfull have "prefix (drop (p + i) data) d" "\<not> prefix d (drop (p + i) data)"
      by (auto simp: add.commute)
    then have "length (drop (p + i) data) < length d"
      by (metis linorder_not_less prefix_length_prefix prefix_order.refl)
    with False show ?thesis
      by (auto dest: prefix_length_le)
  qed (use before in \<open>simp add: apart_def\<close>)
  then have "first_end d data = None"
    by (simp add: first_end_None)
  moreover have "apart d (drop j (data @ bs))" if "j < p + i" for j
    using apart_append [OF before [OF that], of bs] that p found(1) by simp
  ultimately show ?thesis
    using p found(1) s(2) by (simp add: safe_position_def)
qed

interpretation string_search: incremental_search "search_string d" "first_end d" "safe_position d" for d
  by unfold_locales (simp_all add: safe_position_def [of _ _ 0] search_string_found search_string_more)

text \<open>A character is searched for like the string of this character.\<close>

lemma prefix_single: "prefix [c] xs \<longleftrightarrow> xs \<noteq> [] \<and> hd xs = c"
  by (cases xs) auto

lemma search_delim_string:
  assumes "p \<le> length data"
  shows "search_delim c data p = search_string [c] data p"
proof -
  have "partial_search xs [c] = (std_find c xs, std_find c xs < length xs)" for xs
    by (induction xs) simp_all
  then show ?thesis
    using assms std_find_eq [of c "drop p data"] by (auto simp: search_delim_def search_string_def Let_def)
qed

interpretation delim_search: incremental_search "search_delim c" "first_end [c]" "safe_position [c]" for c
proof unfold_locales
  fix data p n
  assume safe: "safe_position [c] data p"
  then have same: "search_delim c data p = search_string [c] data p"
    by (simp add: safe_position_def search_delim_string)
  show "search_delim c data p = Inl n \<Longrightarrow> first_end [c] data = Some n"
    using search_string_found [OF safe] same by simp
  show "search_delim c data p = Inr n \<Longrightarrow> first_end [c] data = None \<and> safe_position [c] (data @ bs) n" for bs
    using search_string_more [OF safe] same by simp
qed (simp add: safe_position_def)

section \<open>Reading into a dynamic buffer\<close>

text \<open>Between reads: all characters of the string are data, and they fit.\<close>

definition content :: "dyn_buffer \<Rightarrow> bytes" where
  "content b = chars (db_string b)"

definition v1_ok :: "dyn_buffer \<Rightarrow> bool" where
  "v1_ok b \<longleftrightarrow> (db_fill b = None \<or> db_fill b = Some (length (content b))) \<and> length (content b) \<le> db_max b"

definition v2_ok :: "dyn_buffer \<Rightarrow> bool" where
  "v2_ok b \<longleftrightarrow> db_fill b = None \<and> length (content b) \<le> db_max b"

lemma v1_ok_view: "v1_ok b \<Longrightarrow> db_data_v1 b = content b \<and> db_size b = length (content b)"
  by (auto simp: v1_ok_def db_data_v1_def db_size_def content_def)

lemma v2_ok_view: "v2_ok b \<Longrightarrow> db_data b 0 (length (content b)) = content b \<and> db_size b = length (content b)"
  by (auto simp: v2_ok_def db_data_def db_size_def content_def)

lemma bytes_to_read_fits: "bytes_to_read b \<le> db_max b - db_size b" "db_size b < db_max b \<Longrightarrow> 0 < bytes_to_read b"
  by (auto simp: bytes_to_read_def)

lemma string_resize_chars:
  "chars (string_resize policy n s) = take n (chars s) @ replicate (n - length (chars s)) (CHR 0x00)"
  by (simp add: string_resize_def)

lemma v1_prepare:
  assumes "v1_ok b" "n \<le> db_max b - db_size b"
  shows "\<exists>b1. db_prepare policy n b = Inr b1 \<and> db_size b1 = db_size b \<and>
    (\<forall>bs. length bs \<le> n \<longrightarrow> v1_ok (db_commit policy (length bs) (db_store (db_size b1) bs b1)) \<and>
       content (db_commit policy (length bs) (db_store (db_size b1) bs b1)) = content b @ bs \<and>
       db_max (db_commit policy (length bs) (db_store (db_size b1) bs b1)) = db_max b)"
proof -
  let ?L = "length (content b)"
  let ?b1 = "b\<lparr>db_fill := Some ?L, db_string := string_resize policy (?L + n) (db_string b)\<rparr>"
  have size: "db_size b = ?L" "?L \<le> db_max b"
    using v1_ok_view [OF assms(1)] assms(1) by (simp_all add: v1_ok_def)
  have prep: "db_prepare policy n b = Inr ?b1"
    using assms size by (auto simp: db_prepare_def v1_ok_def content_def Let_def)
  have b1: "db_size ?b1 = ?L" "content ?b1 = content b @ replicate n (CHR 0x00)"
    by (simp_all add: db_size_def content_def string_resize_chars)
  have step: "v1_ok b2 \<and> content b2 = content b @ bs \<and> db_max b2 = db_max b"
    if "length bs \<le> n" "b2 = db_commit policy (length bs) (db_store ?L bs ?b1)" for bs b2
  proof -
    have "content (db_store ?L bs ?b1) = content b @ bs @ replicate (n - length bs) (CHR 0x00)"
      using b1(2) by (simp add: db_store_def content_def)
    then have "db_fill b2 = Some (?L + length bs)" "content b2 = content b @ bs" "db_max b2 = db_max b"
      using that by (simp_all add: db_commit_def db_store_def content_def string_resize_chars Let_def)
    then show ?thesis
      using that(1) assms(2) size by (simp add: v1_ok_def)
  qed
  show ?thesis
    by (intro exI [of _ ?b1] conjI allI impI, rule prep, simp only: b1(1) size(1); simp only: b1(1); use step [OF _ refl] in blast)
qed

lemma v2_grow:
  assumes "v2_ok b" "n \<le> db_max b - db_size b"
  shows "\<exists>b1. db_grow policy n b = Inr b1 \<and>
    (\<forall>bs. length bs \<le> n \<longrightarrow> v2_ok (db_shrink policy (n - length bs) (db_store (db_size b) bs b1)) \<and>
       content (db_shrink policy (n - length bs) (db_store (db_size b) bs b1)) = content b @ bs \<and>
       db_max (db_shrink policy (n - length bs) (db_store (db_size b) bs b1)) = db_max b)"
proof -
  let ?L = "length (content b)"
  let ?b1 = "b\<lparr>db_string := string_resize policy (?L + n) (db_string b)\<rparr>"
  have size: "db_size b = ?L" "?L \<le> db_max b" "db_fill b = None"
    using v2_ok_view [OF assms(1)] assms(1) by (simp_all add: v2_ok_def)
  have grow: "db_grow policy n b = Inr ?b1"
    using assms(2) size by (simp add: db_grow_def)
  have step: "v2_ok b2 \<and> content b2 = content b @ bs \<and> db_max b2 = db_max b"
    if "length bs \<le> n" "b2 = db_shrink policy (n - length bs) (db_store ?L bs ?b1)" for bs b2
  proof -
    let ?b = "db_store ?L bs ?b1"
    have b: "content ?b = content b @ bs @ replicate (n - length bs) (CHR 0x00)" "db_fill ?b = None" "db_max ?b = db_max b"
      using size(3) by (simp_all add: db_store_def content_def string_resize_chars)
    then have "db_size ?b = ?L + n"
      using size that(1) assms(2) by (simp add: db_size_def content_def min_def)
    then have "content b2 = content b @ bs" "db_fill b2 = None" "db_max b2 = db_max b"
      using b that by (simp_all add: db_shrink_def content_def string_resize_chars)
    then show ?thesis
      using that(1) assms(2) size by (simp add: v2_ok_def)
  qed
  show ?thesis
    by (intro exI [of _ ?b1] conjI allI impI, rule grow; simp only: size(1); use step [OF _ refl] in blast)
qed

text \<open>
  The contract of the stream: a read brings no more than there is room for, and, unless it fails, some
  bytes and the error code of success. \<open>receive\<close> is what a read does to the buffer.
\<close>

definition receive_v1 :: "(nat \<Rightarrow> nat \<Rightarrow> nat) \<Rightarrow> bytes \<Rightarrow> dyn_buffer \<Rightarrow> dyn_buffer" where
  "receive_v1 policy bs b = (case db_prepare policy (bytes_to_read b) b of
      Inl _ \<Rightarrow> b | Inr b1 \<Rightarrow> db_commit policy (length bs) (db_store (db_size b1) bs b1))"

definition receive_v2 :: "(nat \<Rightarrow> nat \<Rightarrow> nat) \<Rightarrow> bytes \<Rightarrow> dyn_buffer \<Rightarrow> dyn_buffer" where
  "receive_v2 policy bs b = (case db_grow policy (bytes_to_read b) b of
      Inl _ \<Rightarrow> b | Inr b1 \<Rightarrow> db_shrink policy (bytes_to_read b - length bs) (db_store (db_size b) bs b1))"

fun replies_fit :: "(bytes \<Rightarrow> dyn_buffer \<Rightarrow> dyn_buffer) \<Rightarrow> dyn_buffer \<Rightarrow> read_reply list \<Rightarrow> bool" where
  "replies_fit receive b [] \<longleftrightarrow> True"
| "replies_fit receive b ((ec, bs) # rest) \<longleftrightarrow>
     (db_size b = db_max b \<or>
      length bs \<le> bytes_to_read b \<and> (\<not> failed ec \<longrightarrow> ec = no_error \<and> bs \<noteq> []) \<and> replies_fit receive (receive bs b) rest)"

definition until_view :: "length_error + nat \<times> error_code \<times> dyn_buffer \<Rightarrow> length_error + nat \<times> error_code \<times> bytes" where
  "until_view = map_sum id (\<lambda>(n, ec, b). (n, ec, content b))"

text \<open>What the handler of the asynchronous operation is told, and the data then; \<open>None\<close> while it waits.\<close>

definition until_done :: "length_error + until_op until_outcome \<Rightarrow> length_error + (nat \<times> error_code \<times> bytes) option" where
  "until_done = map_sum id (\<lambda>out. case out of
      Until_Issue _ _ \<Rightarrow> None | Until_Handler ec n op \<Rightarrow> Some (n, ec, db_data_v1 (up_buffers op)))"

definition until_done_v2 :: "length_error + until_op_v2 until_outcome \<Rightarrow> length_error + (nat \<times> error_code \<times> bytes) option" where
  "until_done_v2 = map_sum id (\<lambda>out. case out of
      Until_Issue _ _ \<Rightarrow> None | Until_Handler ec n op \<Rightarrow> Some (n, ec, db_data (up_buffers op) 0 (db_size (up_buffers op))))"

context incremental_search
begin

lemma read_until_v1_spec:
  "safe (content b) p \<Longrightarrow> v1_ok b \<Longrightarrow> replies_fit (receive_v1 policy) b replies \<Longrightarrow>
   map_option until_view (read_until_v1 policy search p b replies) =
     map_option Inr (until_spec match_end (db_max b) (content b) replies)"
proof (induction replies arbitrary: b p)
  case Nil
  then show ?case
    using v1_ok_view [OF Nil.prems(2)] v1_prepare [OF Nil.prems(2) bytes_to_read_fits(1), of policy]
    by (subst read_until_v1.simps, subst until_spec.simps)
      (auto simp: until_view_def dest: search_found search_more split: sum.splits)
next
  case (Cons reply replies)
  obtain ec bs where reply: "reply = (ec, bs)"
    by (metis prod.exhaust)
  have view: "db_data_v1 b = content b" "db_size b = length (content b)"
    using v1_ok_view [OF Cons.prems(2)] by simp_all
  show ?case
  proof (cases "search (content b) p")
    case (Inl n)
    then show ?thesis
      using search_found [OF Cons.prems(1) Inl] view
      by (subst read_until_v1.simps, subst until_spec.simps) (simp add: until_view_def)
  next
    case (Inr p')
    then have next': "match_end (content b) = None" "safe (content b @ bs) p'"
      using search_more [OF Cons.prems(1) Inr] by simp_all
    show ?thesis
    proof (cases "length (content b) = db_max b")
      case True
      then show ?thesis
        using next' view Inr by (subst read_until_v1.simps, subst until_spec.simps) (simp add: until_view_def)
    next
      case False
      then have fit: "length bs \<le> bytes_to_read b" "replies_fit (receive_v1 policy) (receive_v1 policy bs b) replies"
        using Cons.prems(3) view by (simp_all add: reply)
      obtain b1 where b1: "db_prepare policy (bytes_to_read b) b = Inr b1"
        "v1_ok (receive_v1 policy bs b)" "content (receive_v1 policy bs b) = content b @ bs"
        "db_max (receive_v1 policy bs b) = db_max b"
        using v1_prepare [OF Cons.prems(2) bytes_to_read_fits(1), of policy] fit(1) by (auto simp: receive_v1_def)
      have recv: "db_commit policy (length bs) (db_store (db_size b1) bs b1) = receive_v1 policy bs b"
        by (simp add: receive_v1_def b1(1))
      show ?thesis
        using False next' view Inr b1 Cons.IH [of "receive_v1 policy bs b" p'] fit(2)
        by (subst read_until_v1.simps, subst until_spec.simps) (simp add: reply recv until_view_def)
    qed
  qed
qed

lemma read_until_v2_spec:
  "safe (content b) p \<Longrightarrow> v2_ok b \<Longrightarrow> replies_fit (receive_v2 policy) b replies \<Longrightarrow>
   map_option until_view (read_until_v2 policy search p b replies) =
     map_option Inr (until_spec match_end (db_max b) (content b) replies)"
proof (induction replies arbitrary: b p)
  case Nil
  then show ?case
    using v2_ok_view [OF Nil.prems(2)] v2_grow [OF Nil.prems(2) bytes_to_read_fits(1), of policy]
    by (subst read_until_v2.simps, subst until_spec.simps)
      (auto simp: until_view_def Let_def dest: search_found search_more split: sum.splits)
next
  case (Cons reply replies)
  obtain ec bs where reply: "reply = (ec, bs)"
    by (metis prod.exhaust)
  have view: "db_data b 0 (length (content b)) = content b" "db_size b = length (content b)"
    using v2_ok_view [OF Cons.prems(2)] by simp_all
  show ?case
  proof (cases "search (content b) p")
    case (Inl n)
    then show ?thesis
      using search_found [OF Cons.prems(1) Inl] view
      by (subst read_until_v2.simps, subst until_spec.simps) (simp add: until_view_def)
  next
    case (Inr p')
    then have next': "match_end (content b) = None" "safe (content b @ bs) p'"
      using search_more [OF Cons.prems(1) Inr] by simp_all
    show ?thesis
    proof (cases "length (content b) = db_max b")
      case True
      then show ?thesis
        using next' view Inr by (subst read_until_v2.simps, subst until_spec.simps) (simp add: until_view_def)
    next
      case False
      then have fit: "length bs \<le> bytes_to_read b" "replies_fit (receive_v2 policy) (receive_v2 policy bs b) replies"
        using Cons.prems(3) view by (simp_all add: reply)
      obtain b1 where b1: "db_grow policy (bytes_to_read b) b = Inr b1"
        "v2_ok (receive_v2 policy bs b)" "content (receive_v2 policy bs b) = content b @ bs"
        "db_max (receive_v2 policy bs b) = db_max b"
        using v2_grow [OF Cons.prems(2) bytes_to_read_fits(1), of policy] fit(1) by (auto simp: receive_v2_def)
      have recv: "db_shrink policy (bytes_to_read b - length bs) (db_store (db_size b) bs b1) = receive_v2 policy bs b"
        by (simp add: receive_v2_def b1(1))
      show ?thesis
        using False next' view Inr b1 Cons.IH [of "receive_v2 policy bs b" p'] fit(2) recv
        by (subst read_until_v2.simps, subst until_spec.simps) (simp add: reply until_view_def Let_def)
    qed
  qed
qed

lemma until_search_cases:
  assumes "safe (content b) p" "v1_ok b"
  shows "until_search search \<lparr>up_buffers = b, up_position = Some p\<rparr> = (case match_end (content b) of
      Some n \<Rightarrow> (0, \<lparr>up_buffers = b, up_position = Some n\<rparr>)
    | None \<Rightarrow>
        if length (content b) = db_max b then (0, \<lparr>up_buffers = b, up_position = None\<rparr>)
        else (bytes_to_read b, \<lparr>up_buffers = b, up_position = Some (projr (search (content b) p))\<rparr>))"
  using v1_ok_view [OF assms(2)] search_found [OF assms(1)] search_more [OF assms(1)]
  by (cases "search (content b) p") (auto simp: until_search_def Let_def)

lemma until_resumed:
  assumes "safe (content b) p" "v1_ok b" "replies_fit (receive_v1 policy) b replies"
  shows "until_done (until_run policy search
      (case until_search search \<lparr>up_buffers = b, up_position = Some p\<rparr> of
         (n, op) \<Rightarrow> if n = 0 then Inr (until_result no_error op) else until_issue policy (n, op)) replies) =
    Inr (until_spec match_end (db_max b) (content b) replies)"
  using assms
proof (induction replies arbitrary: b p)
  case Nil
  have "length (content b) = db_max b \<or> 0 < bytes_to_read b"
    using bytes_to_read_fits(2) [of b] v1_ok_view [OF Nil.prems(2)] Nil.prems(2)
    by (cases "length (content b) = db_max b") (simp_all add: v1_ok_def)
  with Nil show ?case
    using v1_ok_view [OF Nil.prems(2)] v1_prepare [OF Nil.prems(2) bytes_to_read_fits(1), of policy]
    unfolding until_search_cases [OF Nil.prems(1,2)]
    by (subst until_spec.simps) (auto simp: until_done_def until_result_def until_issue_def split: option.splits)
next
  case (Cons reply replies)
  obtain ec bs where reply: "reply = (ec, bs)"
    by (metis prod.exhaust)
  have view: "db_data_v1 b = content b" "db_size b = length (content b)" "length (content b) \<le> db_max b"
    using v1_ok_view [OF Cons.prems(2)] Cons.prems(2) by (simp_all add: v1_ok_def)
  show ?case
  proof (cases "match_end (content b) \<noteq> None \<or> length (content b) = db_max b")
    case True
    then show ?thesis
      unfolding until_search_cases [OF Cons.prems(1,2)] using view
      by (subst until_spec.simps) (auto simp: until_done_def until_result_def split: option.splits)
  next
    case False
    then obtain p' where p': "search (content b) p = Inr p'" "safe (content b @ bs) p'"
      using search_found [OF Cons.prems(1)] search_more [OF Cons.prems(1)] by (cases "search (content b) p") auto
    have fit: "length bs \<le> bytes_to_read b" "\<not> failed ec \<longrightarrow> ec = no_error \<and> bs \<noteq> []"
      "replies_fit (receive_v1 policy) (receive_v1 policy bs b) replies"
      using Cons.prems(3) view False by (simp_all add: reply)
    obtain b1 where b1: "db_prepare policy (bytes_to_read b) b = Inr b1"
      "v1_ok (receive_v1 policy bs b)" "content (receive_v1 policy bs b) = content b @ bs"
      "db_max (receive_v1 policy bs b) = db_max b"
      using v1_prepare [OF Cons.prems(2) bytes_to_read_fits(1), of policy] fit(1) by (auto simp: receive_v1_def)
    have recv: "db_commit policy (length bs) (db_store (db_size b1) bs b1) = receive_v1 policy bs b"
      by (simp add: receive_v1_def b1(1))
    have pos: "0 < bytes_to_read b"
      using bytes_to_read_fits(2) [of b] view False by simp
    have data: "db_data_v1 (receive_v1 policy bs b) = content b @ bs"
      using v1_ok_view [OF b1(2)] b1(3) by simp
    show ?thesis
      unfolding until_search_cases [OF Cons.prems(1,2)]
      using False p' pos b1 fit(2) data Cons.IH [of "receive_v1 policy bs b" p'] fit(3)
      by (subst until_spec.simps)
        (auto simp: reply until_issue_def until_op_v1_call_def recv until_done_def until_result_def)
  qed
qed

lemma async_read_until_spec:
  assumes "v1_ok b" "replies_fit (receive_v1 policy) b replies"
  shows "until_done (async_read_until policy search b
      (if match_end (content b) \<noteq> None \<or> length (content b) = db_max b then (no_error, []) # replies else replies)) =
    Inr (until_spec match_end (db_max b) (content b) replies)"
proof (cases "match_end (content b) \<noteq> None \<or> length (content b) = db_max b")
  case True
  obtain b1 where b1: "db_prepare policy 0 b = Inr b1"
    "v1_ok (db_commit policy 0 (db_store (db_size b1) [] b1))" "content (db_commit policy 0 (db_store (db_size b1) [] b1)) = content b"
    using v1_prepare [OF assms(1), of 0 policy] by (auto dest: spec [of _ "[]"])
  have "db_data_v1 (db_commit policy 0 (db_store (db_size b1) [] b1)) = content b"
    using v1_ok_view [OF b1(2)] b1(3) by simp
  then show ?thesis
    using True b1(1) until_search_cases [OF safe_start assms(1)]
    by (subst until_spec.simps)
      (auto simp: async_read_until_def until_op_v1_call_def until_issue_def until_done_def until_result_def split: option.splits)
next
  case False
  then have "0 < bytes_to_read b"
    using bytes_to_read_fits(2) [of b] v1_ok_view [OF assms(1)] assms(1) by (simp add: v1_ok_def)
  then show ?thesis
    using until_resumed [OF safe_start assms] False until_search_cases [OF safe_start assms(1)]
    by (simp add: async_read_until_def until_op_v1_call_def)
qed

lemma until_search_v2_cases:
  assumes "safe (content b) p" "v2_ok b"
  shows "until_search_v2 search \<lparr>up_buffers = b, up_position = Some p, up_bytes = k\<rparr> = (case match_end (content b) of
      Some n \<Rightarrow> \<lparr>up_buffers = b, up_position = Some n, up_bytes = 0\<rparr>
    | None \<Rightarrow>
        if length (content b) = db_max b then \<lparr>up_buffers = b, up_position = None, up_bytes = 0\<rparr>
        else \<lparr>up_buffers = b, up_position = Some (projr (search (content b) p)), up_bytes = bytes_to_read b\<rparr>)"
  using v2_ok_view [OF assms(2)] search_found [OF assms(1)] search_more [OF assms(1)]
  by (cases "search (content b) p") (auto simp: until_search_v2_def Let_def)

lemma until_resumed_v2:
  assumes "safe (content b) p" "v2_ok b" "replies_fit (receive_v2 policy) b replies"
  shows "until_done_v2 (until_run_v2 policy search
      (let op = until_search_v2 search \<lparr>up_buffers = b, up_position = Some p, up_bytes = k\<rparr>
       in if up_bytes op = 0 then Inr (until_result no_error op) else until_issue_v2 policy op) replies) =
    Inr (until_spec match_end (db_max b) (content b) replies)"
  using assms
proof (induction replies arbitrary: b p k)
  case Nil
  have "length (content b) = db_max b \<or> 0 < bytes_to_read b"
    using bytes_to_read_fits(2) [of b] v2_ok_view [OF Nil.prems(2)] Nil.prems(2)
    by (cases "length (content b) = db_max b") (simp_all add: v2_ok_def)
  with Nil show ?case
    using v2_ok_view [OF Nil.prems(2)] v2_grow [OF Nil.prems(2) bytes_to_read_fits(1), of policy]
    unfolding until_search_v2_cases [OF Nil.prems(1,2)]
    by (subst until_spec.simps) (auto simp: until_done_v2_def until_result_def until_issue_v2_def Let_def split: option.splits)
next
  case (Cons reply replies)
  obtain ec bs where reply: "reply = (ec, bs)"
    by (metis prod.exhaust)
  have view: "db_data b 0 (length (content b)) = content b" "db_size b = length (content b)" "length (content b) \<le> db_max b"
    using v2_ok_view [OF Cons.prems(2)] Cons.prems(2) by (simp_all add: v2_ok_def)
  show ?case
  proof (cases "match_end (content b) \<noteq> None \<or> length (content b) = db_max b")
    case True
    then show ?thesis
      unfolding until_search_v2_cases [OF Cons.prems(1,2)] using view
      by (subst until_spec.simps) (auto simp: until_done_v2_def until_result_def Let_def split: option.splits)
  next
    case False
    then obtain p' where p': "search (content b) p = Inr p'" "safe (content b @ bs) p'"
      using search_found [OF Cons.prems(1)] search_more [OF Cons.prems(1)] by (cases "search (content b) p") auto
    have fit: "length bs \<le> bytes_to_read b" "\<not> failed ec \<longrightarrow> ec = no_error \<and> bs \<noteq> []"
      "replies_fit (receive_v2 policy) (receive_v2 policy bs b) replies"
      using Cons.prems(3) view False by (simp_all add: reply)
    obtain b1 where b1: "db_grow policy (bytes_to_read b) b = Inr b1"
      "v2_ok (receive_v2 policy bs b)" "content (receive_v2 policy bs b) = content b @ bs"
      "db_max (receive_v2 policy bs b) = db_max b"
      using v2_grow [OF Cons.prems(2) bytes_to_read_fits(1), of policy] fit(1) by (auto simp: receive_v2_def)
    have recv: "db_shrink policy (bytes_to_read b - length bs) (db_store (length (content b)) bs b1) = receive_v2 policy bs b"
      by (simp add: receive_v2_def b1(1) view(2))
    have pos: "0 < bytes_to_read b"
      using bytes_to_read_fits(2) [of b] view False by simp
    have data: "db_data (receive_v2 policy bs b) 0 (db_size (receive_v2 policy bs b)) = content b @ bs"
      using v2_ok_view [OF b1(2)] b1(3) by simp
    show ?thesis
      unfolding until_search_v2_cases [OF Cons.prems(1,2)]
      using False p' pos b1 fit(2) data Cons.IH [of "receive_v2 policy bs b" p' "bytes_to_read b"] fit(3) view(2)
      by (subst until_spec.simps)
        (auto simp: reply until_issue_v2_def until_op_v2_call_def recv until_done_v2_def until_result_def Let_def)
  qed
qed

lemma async_read_until_v2_spec:
  assumes "v2_ok b" "replies_fit (receive_v2 policy) b replies"
  shows "until_done_v2 (async_read_until_v2 policy search b
      (if match_end (content b) \<noteq> None \<or> length (content b) = db_max b then (no_error, []) # replies else replies)) =
    Inr (until_spec match_end (db_max b) (content b) replies)"
proof (cases "match_end (content b) \<noteq> None \<or> length (content b) = db_max b")
  case True
  obtain b1 where b1: "db_grow policy 0 b = Inr b1"
    "v2_ok (db_shrink policy 0 (db_store (db_size b) [] b1))" "content (db_shrink policy 0 (db_store (db_size b) [] b1)) = content b"
    using v2_grow [OF assms(1), of 0 policy] by (auto dest: spec [of _ "[]"])
  have "db_data (db_shrink policy 0 (db_store (db_size b) [] b1)) 0 (db_size (db_shrink policy 0 (db_store (db_size b) [] b1))) = content b"
    using v2_ok_view [OF b1(2)] b1(3) by simp
  then show ?thesis
    using True b1(1) until_search_v2_cases [OF safe_start assms(1)]
    by (subst until_spec.simps)
      (auto simp: async_read_until_v2_def until_op_v2_call_def until_issue_v2_def until_done_v2_def until_result_def Let_def
        split: option.splits)
next
  case False
  then have "0 < bytes_to_read b"
    using bytes_to_read_fits(2) [of b] v2_ok_view [OF assms(1)] assms(1) by (simp add: v2_ok_def)
  then show ?thesis
    using until_resumed_v2 [OF safe_start assms, of 0] False until_search_v2_cases [OF safe_start assms(1), of 0]
    by (simp add: async_read_until_v2_def until_op_v2_call_def Let_def)
qed

end

section \<open>Properties\<close>

lemma new_buffer_ok:
  assumes "length (chars s) \<le> m"
  shows "v1_ok (dynamic_buffer s m)" "v2_ok (dynamic_buffer s m)" "content (dynamic_buffer s m) = chars s"
    "db_max (dynamic_buffer s m) = m"
  using assms by (simp_all add: dynamic_buffer_def v1_ok_def v2_ok_def content_def)

text \<open>The capacity is never less than the size, so that their difference does not wrap around.\<close>

lemma capacity_covers:
  assumes "length (chars s) \<le> str_capacity s" "\<And>c k. k \<le> policy c k"
  shows "length (chars (string_resize policy n s)) \<le> str_capacity (string_resize policy n s)"
  using assms by (simp add: string_resize_def min_def)

text \<open>What the reference finds: the end of the first occurrence.\<close>

lemma first_end_first:
  assumes "d \<noteq> []" "first_end d data = Some n"
  shows "\<exists>before. take n data = before @ d \<and> (\<forall>k<n. \<forall>ys. take k data \<noteq> ys @ d)"
proof -
  obtain i where i: "i < length data" "prefix d (drop i data)" "\<forall>j<i. \<not> prefix d (drop j data)" "n = i + length d"
    using assms(2) by (auto simp: first_end_def find_Some_iff take_eq_prefix)
  have "take n data = take i data @ take (length d) (drop i data)"
    by (simp add: i(4) take_add)
  then have "take n data = take i data @ d"
    using i(2) take_eq_prefix [of d] by simp
  moreover have "take k data \<noteq> ys @ d" if "k < n" for k ys
  proof
    assume eq: "take k data = ys @ d"
    then have len: "length ys + length d \<le> k"
      by (metis length_append length_take min.cobounded2)
    have "data = ys @ d @ drop k data"
      by (metis append.assoc append_take_drop_id eq)
    then have "prefix d (drop (length ys) data)"
      by (metis append_eq_conv_conj prefixI)
    then have "\<not> length ys < i"
      using i(3) by blast
    with len that i(4) show False
      by simp
  qed
  ultimately show ?thesis
    by blast
qed

text \<open>A single character instead of a string.\<close>

lemma read_until_delim_equals_full_search:
  assumes "length (chars s) \<le> m"
  shows "replies_fit (receive_v1 policy) (dynamic_buffer s m) replies \<Longrightarrow>
      map_option until_view (read_until_v1 policy (search_delim c) 0 (dynamic_buffer s m) replies) =
        map_option Inr (until_spec (first_end [c]) m (chars s) replies)"
    "replies_fit (receive_v2 policy) (dynamic_buffer s m) replies \<Longrightarrow>
      map_option until_view (read_until_v2 policy (search_delim c) 0 (dynamic_buffer s m) replies) =
        map_option Inr (until_spec (first_end [c]) m (chars s) replies)"
    "replies_fit (receive_v1 policy) (dynamic_buffer s m) replies \<Longrightarrow>
      until_done (async_read_until policy (search_delim c) (dynamic_buffer s m)
          (if first_end [c] (chars s) \<noteq> None \<or> length (chars s) = m then (no_error, []) # replies else replies)) =
        Inr (until_spec (first_end [c]) m (chars s) replies)"
  using delim_search.read_until_v1_spec [OF delim_search.safe_start new_buffer_ok(1) [OF assms], of policy replies c]
    delim_search.read_until_v2_spec [OF delim_search.safe_start new_buffer_ok(2) [OF assms], of policy replies c]
    delim_search.async_read_until_spec [OF new_buffer_ok(1) [OF assms], of policy replies c]
  by (simp_all add: new_buffer_ok [OF assms])

text \<open>
  C21. Reading until a delimiter has arrived, for every delimiter, every string to read into, every maximum
  size that is not less than the size of this string, and every way the stream cuts the input: \<open>read_until\<close> and
  \<open>async_read_until\<close>, each with a dynamic buffer of either kind, give what a search of all data after every read
  gives, although they search only once what cannot be part of a later match. They return the number of
  bytes up to and including the first occurrence, or \<open>not_found\<close> when the buffer is full, or the error of the
  stream; no exception is thrown, and all that was received is in the string. The asynchronous operations
  do the same, after an empty read if there is nothing to read.
\<close>

theorem read_until_equals_full_search:
  assumes "length (chars s) \<le> m" "replies_fit (receive_v1 policy) (dynamic_buffer s m) replies"
    and "replies_fit (receive_v2 policy) (dynamic_buffer s m) replies"
  shows "map_option until_view (read_until_v1 policy (search_string d) 0 (dynamic_buffer s m) replies) =
      map_option Inr (until_spec (first_end d) m (chars s) replies) \<and>
    map_option until_view (read_until_v2 policy (search_string d) 0 (dynamic_buffer s m) replies) =
      map_option Inr (until_spec (first_end d) m (chars s) replies) \<and>
    (let replies' = (if first_end d (chars s) \<noteq> None \<or> length (chars s) = m then (no_error, []) # replies else replies)
     in until_done (async_read_until policy (search_string d) (dynamic_buffer s m) replies') =
          Inr (until_spec (first_end d) m (chars s) replies) \<and>
        until_done_v2 (async_read_until_v2 policy (search_string d) (dynamic_buffer s m) replies') =
          Inr (until_spec (first_end d) m (chars s) replies))"
  using string_search.read_until_v1_spec [OF string_search.safe_start new_buffer_ok(1) [OF assms(1)], of policy replies d]
    string_search.read_until_v2_spec [OF string_search.safe_start new_buffer_ok(2) [OF assms(1)], of policy replies d]
    string_search.async_read_until_spec [OF new_buffer_ok(1) [OF assms(1)], of policy replies d]
    string_search.async_read_until_v2_spec [OF new_buffer_ok(2) [OF assms(1)], of policy replies d] assms(2,3)
  by (simp add: new_buffer_ok [OF assms(1)] Let_def)

theorem read_until_equals_full_search_witness:
  "map_option until_view (read_until_v1 (\<lambda>_ n. n) (search_string ''ab'') 0
       (dynamic_buffer \<lparr>chars = ''xa'', str_capacity = 2\<rparr> 9) [(no_error, ''a''), (no_error, ''bc'')]) =
     Some (Inr (4, no_error, ''xaabc''))"
proof -
  have "replies_fit (receive_v1 (\<lambda>_ n. n)) (dynamic_buffer \<lparr>chars = ''xa'', str_capacity = 2\<rparr> 9) [(no_error, ''a''), (no_error, ''bc'')]"
    "replies_fit (receive_v2 (\<lambda>_ n. n)) (dynamic_buffer \<lparr>chars = ''xa'', str_capacity = 2\<rparr> 9) [(no_error, ''a''), (no_error, ''bc'')]"
    by (simp_all add: dynamic_buffer_def receive_v1_def receive_v2_def bytes_to_read_def db_size_def db_capacity_def
        db_prepare_def db_grow_def db_commit_def db_shrink_def db_store_def string_resize_def)
  moreover have "until_spec (first_end ''ab'') 9 ''xa'' [(no_error, ''a''), (no_error, ''bc'')] = Some (4, no_error, ''xaabc'')"
    by code_simp
  ultimately show ?thesis
    using read_until_equals_full_search [of "\<lparr>chars = ''xa'', str_capacity = 2\<rparr>" 9 "\<lambda>_ n. n"
        "[(no_error, ''a''), (no_error, ''bc'')]" "''ab''"] by simp
qed

end
