(* ===== verification/Asio_Async_Connect.thy ===== *)
theory Asio_Async_Connect
  imports Connection_On_Socket
begin

text \<open>
  Model of the asynchronous \<open>connect\<close> over a sequence of endpoints (\<open>range_connect_op\<close> in \<open>impl/connect.hpp\<close>),
  of \<open>basic_socket::async_connect\<close>, and of an attempt on top of the service and the reactor. The theory
  compares it with the synchronous \<open>connect\<close>: both agree as long as every attempt gets a socket; if a
  socket cannot be opened, the synchronous one goes on to the next endpoint and the asynchronous one
  gives up.
\<close>

section \<open>The composed operation\<close>

text \<open>
  \<open>call_connect_condition\<close> as the number of endpoints that are passed over. A call of the operation,
  with the index of its endpoint, starts an attempt, posts itself with an error code, or calls the
  handler with an error code and the endpoint, if any.
\<close>

fun call_connect_condition :: "(error_code \<Rightarrow> endpoint \<Rightarrow> bool) \<Rightarrow> error_code \<Rightarrow> endpoint list \<Rightarrow> nat" where
  "call_connect_condition condition ec [] = 0"
| "call_connect_condition condition ec (ep # eps) =
     (if condition ec ep then 0 else Suc (call_connect_condition condition ec eps))"

datatype connect_outcome =
    Connect_Attempt endpoint nat
  | Connect_Posted error_code nat
  | Connect_Handler error_code "endpoint option"

definition connect_search ::
  "(error_code \<Rightarrow> endpoint \<Rightarrow> bool) \<Rightarrow> endpoint list \<Rightarrow> bool \<Rightarrow> error_code \<Rightarrow> nat \<Rightarrow> connect_outcome" where
  "connect_search condition eps start ec index =
     (let iter = index + call_connect_condition condition ec (drop index eps)
      in if iter \<noteq> length eps then Connect_Attempt (eps ! iter) iter
         else if start then Connect_Posted (misc_ec not_found) iter
         else Connect_Handler ec None)"

definition range_connect_call ::
  "(error_code \<Rightarrow> endpoint \<Rightarrow> bool) \<Rightarrow> endpoint list \<Rightarrow> bool \<Rightarrow> bool \<Rightarrow> bool \<Rightarrow> error_code \<Rightarrow> nat \<Rightarrow> connect_outcome" where
  "range_connect_call condition eps cancelled socket_open start ec index =
     (if start then connect_search condition eps True ec index
      else if index = length eps then Connect_Handler ec None
      else if \<not> socket_open then Connect_Handler (basic_ec operation_aborted) None
      else if \<not> failed ec then Connect_Handler ec (Some (eps ! index))
      else if cancelled then Connect_Handler (basic_ec operation_aborted) None
      else connect_search condition eps False ec (Suc index))"

text \<open>
  The run of the operation over any attempts: \<open>attempt\<close> closes the socket, tries the endpoint and yields the
  error code with which the operation is called again (\<open>None\<close> if it never is). Every step takes a
  unit of fuel.
\<close>

fun connect_run ::
  "(endpoint \<Rightarrow> 's \<Rightarrow> (error_code \<times> 's) option) \<Rightarrow> ('s \<Rightarrow> bool) \<Rightarrow> (error_code \<Rightarrow> endpoint \<Rightarrow> bool) \<Rightarrow> endpoint list \<Rightarrow>
   nat \<Rightarrow> connect_outcome \<Rightarrow> 's \<Rightarrow> (error_code \<times> endpoint option \<times> 's) option" where
  "connect_run attempt opened condition eps fuel (Connect_Handler ec result) s = Some (ec, result, s)"
| "connect_run attempt opened condition eps 0 out s = None"
| "connect_run attempt opened condition eps (Suc fuel) (Connect_Posted ec index) s =
     connect_run attempt opened condition eps fuel (range_connect_call condition eps False (opened s) False ec index) s"
| "connect_run attempt opened condition eps (Suc fuel) (Connect_Attempt ep index) s = (case attempt ep s of
      None \<Rightarrow> None
    | Some (ec, s') \<Rightarrow>
        connect_run attempt opened condition eps fuel (range_connect_call condition eps False (opened s') False ec index) s')"

definition connect_async_over ::
  "(endpoint \<Rightarrow> 's \<Rightarrow> (error_code \<times> 's) option) \<Rightarrow> ('s \<Rightarrow> bool) \<Rightarrow> (error_code \<Rightarrow> endpoint \<Rightarrow> bool) \<Rightarrow> endpoint list \<Rightarrow> 's \<Rightarrow>
   (error_code \<times> endpoint option \<times> 's) option" where
  "connect_async_over attempt opened condition eps s =
     connect_run attempt opened condition eps (length eps + 1)
       (range_connect_call condition eps False (opened s) True no_error 0) s"

section \<open>An attempt\<close>

text \<open>\<open>basic_socket::async_connect\<close>: an error of opening the socket is posted.\<close>

definition socket_async_connect ::
  "'w kernel \<Rightarrow> 'w epoll_ctl_func \<Rightarrow> socket_impl \<Rightarrow> endpoint \<Rightarrow> nat \<Rightarrow> bool \<Rightarrow> 'w \<Rightarrow> 'w started_op" where
  "socket_async_connect K ctl impl ep n is_continuation w =
     (let (impl1, open_ec, w1) = (if \<not> is_open impl
            then case ep_protocol ep of (af, type, protocol) \<Rightarrow> do_open K ctl impl af type protocol no_error w
            else (impl, no_error, w))
      in if failed open_ec then post_op impl1 (set_ec open_ec (new_op n)) is_continuation w1
         else do_start_connect_op K ctl (connect_do_perform K (impl_socket impl1)) impl1 (new_op n) is_continuation (ep_address ep) w1)"

text \<open>The operation in the queue of the reactor, until one of the readiness events completes it.\<close>

fun await_connect ::
  "'w kernel \<Rightarrow> 32 word list \<Rightarrow> socket_impl \<Rightarrow> 'w \<Rightarrow> (error_code \<times> socket_impl \<times> 'w \<times> 32 word list) option" where
  "await_connect K [] impl w = None"
| "await_connect K (ev # evs) impl w =
     (case socket_ready (connect_do_perform K (impl_socket impl)) ev impl w of (impl', finished, _, w') \<Rightarrow>
        case finished of
          [] \<Rightarrow> await_connect K evs impl' w'
        | (_, op) # _ \<Rightarrow> Some (op_ec op, impl', w', evs))"

definition async_attempt ::
  "'w kernel \<Rightarrow> 'w epoll_ctl_func \<Rightarrow> endpoint \<Rightarrow> socket_impl \<times> 'w \<times> 32 word list \<Rightarrow>
   (error_code \<times> socket_impl \<times> 'w \<times> 32 word list) option" where
  "async_attempt K ctl ep s = (case s of (impl, w, evs) \<Rightarrow>
     let (impl1, _, _, _, w1) = close_impl K ctl impl no_error w;
         (impl2, posted, _, w2) = socket_async_connect K ctl impl1 ep 0 True w1
     in case posted of
          Some op \<Rightarrow> Some (op_ec op, impl2, w2, evs)
        | None \<Rightarrow> await_connect K evs impl2 w2)"

definition async_range_connect ::
  "'w kernel \<Rightarrow> 'w epoll_ctl_func \<Rightarrow> (error_code \<Rightarrow> endpoint \<Rightarrow> bool) \<Rightarrow> endpoint list \<Rightarrow> socket_impl \<times> 'w \<times> 32 word list \<Rightarrow>
   (error_code \<times> endpoint option \<times> socket_impl \<times> 'w \<times> 32 word list) option" where
  "async_range_connect K ctl condition eps s =
     connect_async_over (async_attempt K ctl) (\<lambda>(impl, _). is_open impl) condition eps s"

section \<open>The synchronous connect over any attempts\<close>

fun connect_sync_over ::
  "(endpoint \<Rightarrow> 's \<Rightarrow> (error_code \<times> 's) option) \<Rightarrow> (error_code \<Rightarrow> endpoint \<Rightarrow> bool) \<Rightarrow> endpoint list \<Rightarrow> error_code \<Rightarrow> 's \<Rightarrow>
   (error_code \<times> endpoint option \<times> 's) option" where
  "connect_sync_over attempt condition [] ec s = Some (if failed ec then ec else misc_ec not_found, None, s)"
| "connect_sync_over attempt condition (ep # eps) ec s =
     (if condition ec ep then (case attempt ep s of
          None \<Rightarrow> None
        | Some (ec', s') \<Rightarrow>
            if \<not> failed ec' then Some (ec', Some ep, s') else connect_sync_over attempt condition eps ec' s')
      else connect_sync_over attempt condition eps ec s)"

text \<open>\<open>range_connect\<close> is this for the attempts of the synchronous loop.\<close>

lemma range_connect_over:
  "connect_sync_over (\<lambda>ep s. Some (fst (attempt_endpoint K ctl ep s), attempt_endpoint K ctl ep s)) condition eps no_error
     (no_error, impl, w) =
   (case range_connect K ctl condition eps impl w of (result, ec, impl', w') \<Rightarrow>
      Some (ec, result, (fst (snd (connect_loop K ctl condition eps no_error impl w)), impl', w')))"
proof -
  have "connect_sync_over (\<lambda>ep s. Some (fst (attempt_endpoint K ctl ep s), attempt_endpoint K ctl ep s)) condition eps ec (ec, impl, w) =
    (case connect_loop K ctl condition eps ec impl w of (result, ec', impl', w') \<Rightarrow>
       Some (if result = None \<and> \<not> failed ec' then misc_ec not_found else ec', result, (ec', impl', w')))" for ec impl w
  proof (induction eps arbitrary: ec impl w)
    case (Cons ep eps)
    obtain impl1 e1 ops calls w1 where c: "close_impl K ctl impl ec w = (impl1, e1, ops, calls, w1)"
      by (metis prod.exhaust)
    obtain impl2 e2 w2 where s: "socket_connect K ctl impl1 ep e1 w1 = (impl2, e2, w2)"
      by (metis prod.exhaust)
    show ?case
      using Cons.IH [of e2 impl2 w2] Cons.IH [of ec impl w] by (simp add: attempt_endpoint_def c s)
  qed simp
  then show ?thesis
    by (auto simp: range_connect_def split: prod.splits option.splits)
qed

section \<open>Agreement\<close>

lemma connect_run_search:
  assumes "\<And>ep s ec s'. attempt ep s = Some (ec, s') \<Longrightarrow> opened s'"
    and "drop index eps = rest" "index \<le> length eps" "length rest < fuel" "start \<longleftrightarrow> \<not> failed ec"
  shows "connect_run attempt opened condition eps fuel (connect_search condition eps start ec index) s =
    connect_sync_over attempt condition rest ec s"
  using assms(2-)
proof (induction rest arbitrary: index fuel start ec s)
  case Nil
  then obtain k where "fuel = Suc k" "index = length eps"
    by (cases fuel) auto
  with Nil show ?case
    by (auto simp: connect_search_def range_connect_call_def)
next
  case (Cons ep rest)
  have index: "index < length eps" "eps ! index = ep" "drop (Suc index) eps = rest"
    using Cons.prems(1) by (metis drop_eq_Nil leI list.distinct(1), metis hd_drop_conv_nth drop_eq_Nil leI list.distinct(1) list.sel(1),
        metis drop_Suc list.sel(3) tl_drop)
  obtain k where k: "fuel = Suc k" "length rest < k"
    using Cons.prems(3) by (cases fuel) auto
  show ?case
  proof (cases "condition ec ep")
    case True
    then have search: "connect_search condition eps start ec index = Connect_Attempt ep index"
      using Cons.prems(1) index by (simp add: connect_search_def)
    show ?thesis
    proof (cases "attempt ep s")
      case (Some r)
      obtain ec' s' where r: "r = (ec', s')"
        by (metis prod.exhaust)
      have "opened s'"
        using assms(1) Some r by blast
      then show ?thesis
        using True search Some r k index Cons.IH [of "Suc index" k False ec' s']
        by (simp add: range_connect_call_def)
    qed (use True search k in simp)
  next
    case False
    then have "connect_search condition eps start ec index = connect_search condition eps start ec (Suc index)"
      using Cons.prems(1) index by (simp add: connect_search_def)
    then show ?thesis
      using False Cons.IH [of "Suc index" fuel start ec s] Cons.prems index by simp
  qed
qed

text \<open>
  C32. The asynchronous \<open>connect\<close> does what the synchronous one does over the same attempts, for every list of
  endpoints and every condition on them, if no attempt leaves the socket closed: it tries the endpoints
  that the condition accepts in order until one succeeds, and reports this endpoint, or the last
  error, or \<open>not_found\<close>; and it ends after at most one step for each endpoint and one more. Over the
  attempts that close the socket, open it and connect it, the synchronous one is \<open>range_connect\<close>.
\<close>

theorem async_connect_agrees:
  assumes "\<And>ep s ec s'. attempt ep s = Some (ec, s') \<Longrightarrow> opened s'"
  shows "connect_async_over attempt opened condition eps s = connect_sync_over attempt condition eps no_error s \<and>
    map_option (\<lambda>(ec, result, _, impl', w'). (result, ec, impl', w'))
      (connect_sync_over (\<lambda>ep s. Some (fst (attempt_endpoint K ctl ep s), attempt_endpoint K ctl ep s)) condition eps no_error
         (no_error, impl, w)) =
      Some (range_connect K ctl condition eps impl w)"
  using connect_run_search [of attempt opened 0 eps eps "length eps + 1" True no_error condition s] assms
  by (simp add: connect_async_over_def range_connect_call_def range_connect_over split: prod.splits)

theorem async_connect_agrees_witness:
  "connect_async_over (\<lambda>ep n. Some (if fst (ep_address ep) = 2 then no_error else basic_ec connection_refused, n + 1)) (\<lambda>_. True)
     default_connect_condition [\<lparr>ep_protocol = (10, 1, 6), ep_address = (10, [1])\<rparr>, \<lparr>ep_protocol = (2, 1, 6), ep_address = (2, [1])\<rparr>] (0 :: nat) =
   Some (no_error, Some \<lparr>ep_protocol = (2, 1, 6), ep_address = (2, [1])\<rparr>, 2)"
  by (subst conjunct1 [OF async_connect_agrees]) (simp_all add: default_connect_condition_def basic_ec_def failed_def no_error_def)

text \<open>
  C40. If the socket for the first endpoint cannot be opened, the asynchronous \<open>connect\<close> ends at once with
  \<open>operation_aborted\<close> and tries no other endpoint, while the synchronous one goes on with the next.
\<close>

theorem async_connect_gives_up:
  assumes "\<not> is_open impl" "ep_protocol ep = (af, type, protocol)"
    and "k_socket K af type protocol w = ((-1, errno), w1)" "errno \<noteq> 0"
  shows "async_range_connect K ctl default_connect_condition (ep # eps) (impl, w, evs) =
      Some (basic_ec operation_aborted, None, construct, w1, evs) \<and>
    connect_loop K ctl default_connect_condition (ep # eps) no_error impl w =
      connect_loop K ctl default_connect_condition eps \<lparr>ec_value = errno, ec_category = System_Category\<rparr> construct w1"
proof -
  have closed: "\<not> is_open construct"
    by (simp add: is_open_def construct_def)
  have "close_impl K ctl impl ec w = (construct, no_error, [], [], w)" for ec
    using assms(1) by (simp add: close_impl_def)
  moreover have "do_open K ctl construct af type protocol no_error w =
      (construct, \<lparr>ec_value = errno, ec_category = System_Category\<rparr>, w1)"
    using closed assms(3) by (simp add: do_open_def open_socket_def get_last_error_def invalid_socket_def)
  moreover have "failed \<lparr>ec_value = errno, ec_category = System_Category\<rparr>"
    using assms(4) by (simp add: failed_def)
  ultimately show ?thesis
    using closed assms(2)
    by (simp add: async_range_connect_def connect_async_over_def range_connect_call_def connect_search_def
        default_connect_condition_def async_attempt_def socket_async_connect_def socket_connect_def post_op_def set_ec_def)
qed

text \<open>A system without the protocol of the first endpoint.\<close>

theorem async_connect_gives_up_witness:
  "\<exists>s. async_range_connect (demo_kernel 11 \<lparr>k_socket := \<lambda>af type protocol w. (if af = 10 then (-1, 97) else (3, 0), w)\<rparr>) demo_ctl
       default_connect_condition [\<lparr>ep_protocol = (10, 1, 6), ep_address = (10, [1])\<rparr>, \<lparr>ep_protocol = (2, 1, 6), ep_address = (2, [1])\<rparr>]
       (construct, 0, []) = Some (basic_ec operation_aborted, None, s)"
proof -
  have "\<not> is_open construct"
    by (simp add: is_open_def construct_def)
  from async_connect_gives_up [OF this, of "\<lparr>ep_protocol = (10, 1, 6), ep_address = (10, [1])\<rparr>" 10 1 6
      "demo_kernel 11 \<lparr>k_socket := \<lambda>af type protocol w. (if af = 10 then (-1, 97) else (3, 0), w)\<rparr>" 0 97 0]
  show ?thesis
    by auto
qed

end
