(* ===== verification/Asio_Resolver.thy ===== *)
theory Asio_Resolver
  imports Asio_Socket_Service
begin

text \<open>
  Model of the synchronous name resolution by which the client finds the server: the query
  (\<open>ip/basic_resolver_query.hpp\<close>), the call of \<open>getaddrinfo\<close> and the translation of its errors
  (\<open>detail/impl/socket_ops.ipp\<close>), the results (\<open>ip/basic_resolver_results.hpp\<close>) and the resolver
  (\<open>detail/resolver_service.hpp\<close>, \<open>ip/basic_resolver.hpp\<close>). The function \<open>getaddrinfo\<close> of the C library is
  a parameter: it takes the host, the service and the hints, and yields its error, what it leaves
  in \<open>errno\<close>, and the list of addresses.
\<close>

section \<open>Queries\<close>

record addrinfo_hints =
  hint_flags :: int
  hint_family :: int
  hint_socktype :: int
  hint_protocol :: int

record addrinfo =
  ai_family :: int
  ai_addr :: sockaddr
  ai_addrlen :: nat

type_synonym 'w getaddrinfo_func =
  "string option \<Rightarrow> string option \<Rightarrow> addrinfo_hints \<Rightarrow> 'w \<Rightarrow> (int \<times> int \<times> addrinfo list) \<times> 'w"

record resolver_query =
  query_hints :: addrinfo_hints
  host_name :: string
  service_name :: string

text \<open>\<open>PF_UNSPEC\<close> is 0, and TCP has the type \<open>SOCK_STREAM\<close>, 1, and the number \<open>IPPROTO_TCP\<close>, 6.\<close>

definition make_query :: "string \<Rightarrow> string \<Rightarrow> int \<Rightarrow> resolver_query" where
  "make_query host service resolve_flags =
     \<lparr>query_hints = \<lparr>hint_flags = resolve_flags, hint_family = 0, hint_socktype = 1, hint_protocol = 6\<rparr>,
      host_name = host, service_name = service\<rparr>"

section \<open>Errors of \<open>getaddrinfo\<close>\<close>

text \<open>The values of the \<open>EAI_\<close> constants on Linux.\<close>

definition translate_addrinfo_error :: "int \<Rightarrow> int \<Rightarrow> error_code" where
  "translate_addrinfo_error error errno =
     (if error = 0 then no_error
      else if error = -3 then netdb_ec host_not_found_try_again
      else if error = -1 then basic_ec invalid_argument
      else if error = -4 then netdb_ec no_recovery
      else if error = -6 then basic_ec address_family_not_supported
      else if error = -10 then basic_ec no_memory
      else if error = -2 \<or> error = -9 \<or> error = -5 then netdb_ec host_not_found
      else if error = -8 then addrinfo_ec service_not_found
      else if error = -7 then addrinfo_ec socket_type_not_supported
      else \<lparr>ec_value = errno, ec_category = System_Category\<rparr>)"

text \<open>An empty string is passed as a null pointer.\<close>

definition getaddrinfo ::
  "'w getaddrinfo_func \<Rightarrow> string \<Rightarrow> string \<Rightarrow> addrinfo_hints \<Rightarrow> 'w \<Rightarrow> addrinfo list \<times> error_code \<times> 'w" where
  "getaddrinfo gai host service hints w =
     (let ((error, errno, infos), w') = gai (if host \<noteq> '''' then Some host else None)
            (if service \<noteq> '''' then Some service else None) hints w
      in (infos, translate_addrinfo_error error errno, w'))"

section \<open>Results\<close>

text \<open>
  An endpoint takes its protocol from the family of its address: \<open>AF_INET\<close> is 2, \<open>AF_INET6\<close> is 10.
  \<open>resize\<close> throws for an address larger than \<open>sockaddr_storage\<close>, which has 128 bytes.
\<close>

definition endpoint_of :: "sockaddr \<Rightarrow> endpoint" where
  "endpoint_of addr = \<lparr>ep_protocol = (if fst addr = 2 then 2 else 10, 1, 6), ep_address = addr\<rparr>"

definition endpoint_resize :: "nat \<Rightarrow> error_code" where
  "endpoint_resize new_size = (if new_size > 128 then basic_ec invalid_argument else no_error)"

fun results_create :: "addrinfo list \<Rightarrow> error_code + endpoint list" where
  "results_create [] = Inr []"
| "results_create (info # infos) =
     (if ai_family info = 2 \<or> ai_family info = 10 then
        if failed (endpoint_resize (ai_addrlen info)) then Inl (endpoint_resize (ai_addrlen info))
        else map_sum id (\<lambda>eps. endpoint_of (ai_addr info) # eps) (results_create infos)
      else results_create infos)"

text \<open>\<open>Inl\<close> is an error that is thrown; the error code is the out parameter.\<close>

definition service_resolve ::
  "'w getaddrinfo_func \<Rightarrow> resolver_query \<Rightarrow> 'w \<Rightarrow> (error_code + endpoint list) \<times> error_code \<times> 'w" where
  "service_resolve gai qry w =
     (let (infos, ec, w') = getaddrinfo gai (host_name qry) (service_name qry) (query_hints qry) w
      in (if failed ec then Inr [] else results_create infos, ec, w'))"

definition resolve_or_throw ::
  "'w getaddrinfo_func \<Rightarrow> string \<Rightarrow> string \<Rightarrow> 'w \<Rightarrow> (error_code + endpoint list) \<times> 'w" where
  "resolve_or_throw gai host service w =
     (let (r, ec, w') = service_resolve gai (make_query host service 0) w
      in (case r of Inl e \<Rightarrow> Inl e | Inr eps \<Rightarrow> throw_error ec eps, w'))"

section \<open>What a resolution gives\<close>

definition resolved :: "addrinfo list \<Rightarrow> endpoint list" where
  "resolved infos = map (endpoint_of \<circ> ai_addr) (filter (\<lambda>i. ai_family i = 2 \<or> ai_family i = 10) infos)"

lemma results_create_eq:
  "results_create infos =
     (if \<exists>i \<in> set infos. (ai_family i = 2 \<or> ai_family i = 10) \<and> ai_addrlen i > 128 then Inl (basic_ec invalid_argument)
      else Inr (resolved infos))"
  by (induction infos) (auto simp: resolved_def endpoint_resize_def)

lemma translate_failed:
  "failed (translate_addrinfo_error error errno) \<longleftrightarrow> error \<noteq> 0 \<and> (error \<notin> {-1, -2, -3, -4, -5, -6, -7, -8, -9, -10} \<longrightarrow> errno \<noteq> 0)"
  by (simp add: translate_addrinfo_error_def) (simp add: failed_def)

end
