(* ===== verification/Client_On_Socket.thy ===== *)
theory Client_On_Socket
  imports Client Asio_Resolver Asio_Acceptor Connection_On_Socket
begin

text \<open>
  The client on the socket service: \<open>main\<close> of \<open>client.cpp\<close> with the name resolution, \<open>connect\<close>, the
  \<open>read_some\<close> and \<open>write_some\<close> of its socket, and the destruction of the socket at the end, over the
  system calls. The theory shows that every such run that returns is a run of the client over the script of its
  transfers, for which theory \<open>Client\<close> shows what is sent, and leaves no descriptor behind; that a
  run that does not return is blocked in a transfer; and that it returns when the system lets its
  transfers through.
\<close>

section \<open>Runs of the client follow a script\<close>

definition stream_bind :: "('a \<times> 's) option \<Rightarrow> ('a \<Rightarrow> 's \<Rightarrow> ('b \<times> 's) option) \<Rightarrow> ('b \<times> 's) option" where
  "stream_bind m k = (case m of None \<Rightarrow> None | Some (a, s) \<Rightarrow> k a s)"

text \<open>
  The results of calls on a stream, one after the other: from the state \<open>w\<close> to the state \<open>w'\<close> they are those
  of the script.
\<close>

inductive transfers :: "'w stream \<Rightarrow> 'w \<Rightarrow> socket_result list \<Rightarrow> 'w \<Rightarrow> bool" for S where
  no_call: "transfers S w [] w"
| write_call: "sock_write S bs w = Some ((ec, n), w1) \<Longrightarrow> transfers S w1 scr w' \<Longrightarrow> transfers S w (Wrote ec n # scr) w'"
| read_call: "sock_read S cap w = Some ((ec, bytes), w1) \<Longrightarrow> transfers S w1 scr w' \<Longrightarrow> transfers S w (Got ec bytes # scr) w'"

lemma transfers_append: "transfers S w scr w1 \<Longrightarrow> transfers S w1 scr' w' \<Longrightarrow> transfers S w (scr @ scr') w'"
  by (induction rule: transfers.induct) (auto intro: transfers.intros)

text \<open>A state in which a call does not return.\<close>

definition blocked :: "'w stream \<Rightarrow> 'w \<Rightarrow> bool" where
  "blocked S w \<longleftrightarrow> (\<exists>bs. sock_write S bs w = None) \<or> (\<exists>cap. sock_read S cap w = None)"

text \<open>
  A computation on the scripted socket yields \<open>a\<close> and sends \<open>d\<close> over the script, or needs more than the
  script.
\<close>

definition follows_script :: "socket_result list \<Rightarrow> byte list \<Rightarrow> (socket \<Rightarrow> ('a \<times> socket) option) \<Rightarrow> 'a \<Rightarrow> bool" where
  "follows_script scr d g a \<longleftrightarrow> (\<forall>rest before.
     g \<lparr>script = scr @ rest, sent = before\<rparr> = Some (a, \<lparr>script = rest, sent = before @ d\<rparr>))"

definition blocks_after :: "socket_result list \<Rightarrow> (socket \<Rightarrow> ('a \<times> socket) option) \<Rightarrow> bool" where
  "blocks_after scr g \<longleftrightarrow> (\<forall>before. g \<lparr>script = scr, sent = before\<rparr> = None)"

lemma follows_write: "n \<le> length bs \<Longrightarrow> follows_script [Wrote ec n] (take n bs) (write_some bs) (ec, n)"
  by (simp add: follows_script_def write_some_def)

lemma follows_read: "length bytes \<le> cap \<Longrightarrow> follows_script [Got ec bytes] [] (read_some cap) (ec, bytes)"
  by (simp add: follows_script_def read_some_def)

lemma follows_bind:
  assumes "follows_script scr d g a"
  shows "follows_script scr' d' (k a) b \<Longrightarrow> follows_script (scr @ scr') (d @ d') (\<lambda>s. stream_bind (g s) k) b"
    "blocks_after scr' (k a) \<Longrightarrow> blocks_after (scr @ scr') (\<lambda>s. stream_bind (g s) k)"
  using assms by (simp_all add: follows_script_def blocks_after_def stream_bind_def)

text \<open>
  Every run of \<open>f\<close> on the stream that returns is a run of \<open>g\<close> over the script of its transfers, and leaves
  \<open>frame\<close> as it was; \<open>out\<close> is what has been sent. A run that does not return is blocked in a call, and \<open>g\<close> is over the
  script of the transfers before.
\<close>

definition simulated ::
  "'w stream \<Rightarrow> ('w \<Rightarrow> byte list) \<Rightarrow> ('w \<Rightarrow> 'x) \<Rightarrow> ('w \<Rightarrow> ('a \<times> 'w) option) \<Rightarrow> (socket \<Rightarrow> ('a \<times> socket) option) \<Rightarrow> bool" where
  "simulated S out frame f g \<longleftrightarrow> (\<forall>w. case f w of
      Some (a, w') \<Rightarrow> frame w' = frame w \<and>
        (\<exists>scr d. transfers S w scr w' \<and> out w' = out w @ d \<and> follows_script scr d g a)
    | None \<Rightarrow> \<exists>scr w'. transfers S w scr w' \<and> blocked S w' \<and> blocks_after scr g)"

lemma simulatedD:
  assumes "simulated S out frame f g"
  shows "f w = Some (a, w') \<Longrightarrow> frame w' = frame w \<and>
      (\<exists>scr d. transfers S w scr w' \<and> out w' = out w @ d \<and> follows_script scr d g a)"
    "f w = None \<Longrightarrow> \<exists>scr w'. transfers S w scr w' \<and> blocked S w' \<and> blocks_after scr g"
  using assms [unfolded simulated_def, rule_format, of w] by simp_all

lemma simulated_return [intro!]: "simulated S out frame (\<lambda>w. Some (a, w)) (\<lambda>s. Some (a, s))"
  by (auto simp: simulated_def follows_script_def intro!: exI [of _ "[]"] transfers.no_call)

lemma simulated_bind [intro!]:
  assumes "simulated S out frame f g" "\<And>a. simulated S out frame (F a) (G a)"
  shows "simulated S out frame (\<lambda>w. stream_bind (f w) F) (\<lambda>s. stream_bind (g s) G)"
  unfolding simulated_def
proof
  fix w
  show "case stream_bind (f w) F of
      Some (b, w') \<Rightarrow> frame w' = frame w \<and>
        (\<exists>scr d. transfers S w scr w' \<and> out w' = out w @ d \<and> follows_script scr d (\<lambda>s. stream_bind (g s) G) b)
    | None \<Rightarrow> \<exists>scr w'. transfers S w scr w' \<and> blocked S w' \<and> blocks_after scr (\<lambda>s. stream_bind (g s) G)"
  proof (cases "f w")
    case None
    then obtain scr w' where "transfers S w scr w'" "blocked S w'" "blocks_after scr g"
      using simulatedD(2) [OF assms(1) None] by blast
    then have "transfers S w scr w' \<and> blocked S w' \<and> blocks_after scr (\<lambda>s. stream_bind (g s) G)"
      by (simp add: stream_bind_def blocks_after_def)
    then show ?thesis
      using None by (auto simp: stream_bind_def)
  next
    case (Some r)
    obtain a w1 where r: "r = (a, w1)"
      by (metis prod.exhaust)
    obtain scr d where first: "frame w1 = frame w" "transfers S w scr w1" "out w1 = out w @ d" "follows_script scr d g a"
      using simulatedD(1) [OF assms(1), of w a w1] Some r by auto
    show ?thesis
    proof (cases "F a w1")
      case None
      then obtain scr' w' where "transfers S w1 scr' w'" "blocked S w'" "blocks_after scr' (G a)"
        using simulatedD(2) [OF assms(2) None] by auto
      then have "transfers S w (scr @ scr') w' \<and> blocked S w' \<and> blocks_after (scr @ scr') (\<lambda>s. stream_bind (g s) G)"
        using transfers_append [OF first(2)] follows_bind(2) [OF first(4)] by blast
      moreover have "stream_bind (f w) F = None"
        using None Some r by (simp add: stream_bind_def)
      ultimately show ?thesis
        by auto
    next
      case (Some r')
      obtain b w' where r': "r' = (b, w')"
        by (metis prod.exhaust)
      obtain scr' d' where "frame w' = frame w1" "transfers S w1 scr' w'" "out w' = out w1 @ d'" "follows_script scr' d' (G a) b"
        using simulatedD(1) [OF assms(2), of a w1 b w'] Some r' by auto
      then show ?thesis
        using Some r' \<open>f w = Some r\<close> r first transfers_append [OF first(2)] follows_bind(1) [OF first(4)]
        by (auto simp: stream_bind_def intro!: exI [of _ "scr @ scr'"] exI [of _ "d @ d'"])
    qed
  qed
qed

lemma simulated_if [intro!]:
  "simulated S out frame f g \<Longrightarrow> simulated S out frame f' g' \<Longrightarrow> simulated S out frame (if b then f else f') (if b then g else g')"
  by simp

text \<open>A computation that always returns.\<close>

definition returns :: "('w \<Rightarrow> ('a \<times> 'w) option) \<Rightarrow> bool" where
  "returns f \<longleftrightarrow> (\<forall>w. f w \<noteq> None)"

lemma returns_simps [intro!]:
  "returns (\<lambda>w. Some (a, w))" "returns f \<Longrightarrow> returns g \<Longrightarrow> returns (if b then f else g)"
  "returns f \<Longrightarrow> (\<And>a. returns (F a)) \<Longrightarrow> returns (\<lambda>w. stream_bind (f w) F)"
  by (auto simp: returns_def stream_bind_def split: option.splits prod.splits)

section \<open>The contract of a stream\<close>

text \<open>
  What the client relies on: a write sends a prefix of the buffer of the length it reports, and a
  read yields no more bytes than there is room for and sends nothing; both leave the rest alone.
\<close>

locale byte_stream =
  fixes S :: "'w stream" and out :: "'w \<Rightarrow> byte list" and frame :: "'w \<Rightarrow> 'x"
  assumes write_law: "sock_write S bs w = Some ((ec, n), w') \<Longrightarrow>
      n \<le> length bs \<and> out w' = out w @ take n bs \<and> frame w' = frame w"
    and read_law: "sock_read S cap w = Some ((ec, bytes), w') \<Longrightarrow>
      length bytes \<le> cap \<and> out w' = out w \<and> frame w' = frame w"
begin

lemma simulated_write: "simulated S out frame (sock_write S bs) (sock_write script_stream bs)"
  unfolding simulated_def
proof
  fix w
  show "case sock_write S bs w of
      Some (a, w') \<Rightarrow> frame w' = frame w \<and>
        (\<exists>scr d. transfers S w scr w' \<and> out w' = out w @ d \<and> follows_script scr d (sock_write script_stream bs) a)
    | None \<Rightarrow> \<exists>scr w'. transfers S w scr w' \<and> blocked S w' \<and> blocks_after scr (sock_write script_stream bs)"
  proof (cases "sock_write S bs w")
    case None
    then have "transfers S w [] w \<and> blocked S w \<and> blocks_after [] (sock_write script_stream bs)"
      by (auto simp: blocked_def blocks_after_def write_some_def intro: transfers.no_call)
    then show ?thesis
      using None by auto
  next
    case (Some r)
    obtain ec n w' where r: "r = ((ec, n), w')"
      by (metis prod.exhaust)
    then show ?thesis
      using Some write_law [of bs w ec n w'] follows_write [of n bs ec] transfers.write_call [OF Some [unfolded r] transfers.no_call]
      by auto
  qed
qed

lemma simulated_read: "simulated S out frame (sock_read S cap) (sock_read script_stream cap)"
  unfolding simulated_def
proof
  fix w
  show "case sock_read S cap w of
      Some (a, w') \<Rightarrow> frame w' = frame w \<and>
        (\<exists>scr d. transfers S w scr w' \<and> out w' = out w @ d \<and> follows_script scr d (sock_read script_stream cap) a)
    | None \<Rightarrow> \<exists>scr w'. transfers S w scr w' \<and> blocked S w' \<and> blocks_after scr (sock_read script_stream cap)"
  proof (cases "sock_read S cap w")
    case None
    then have "transfers S w [] w \<and> blocked S w \<and> blocks_after [] (sock_read script_stream cap)"
      by (auto simp: blocked_def blocks_after_def read_some_def intro: transfers.no_call)
    then show ?thesis
      using None by auto
  next
    case (Some r)
    obtain ec bytes w' where r: "r = ((ec, bytes), w')"
      by (metis prod.exhaust)
    then show ?thesis
      using Some read_law [of cap w ec bytes w'] follows_read [of bytes cap ec] transfers.read_call [OF Some [unfolded r] transfers.no_call]
      by auto
  qed
qed

end

lemma readResponse_bind:
  "readResponse S = (\<lambda>s. stream_bind (sock_read S 128 s) (\<lambda>(error, response).
     if failed error then (\<lambda>s. Some (Inl error, s)) else (\<lambda>s. Some (Inr (response = ''SUCCESS''), s))))"
  by (auto simp: fun_eq_iff readResponse_def stream_bind_def split: option.splits)

lemma sendHorcruxRequest_bind:
  "sendHorcruxRequest S pad r = (\<lambda>s. stream_bind (sock_write S (serializeHeader (req_rep pad) (mHeader r)) s) (\<lambda>(ec, _).
     if failed ec then (\<lambda>s. Some (Inr False, s))
     else (\<lambda>s. stream_bind (sock_write S (mReqContent r) s) (\<lambda>(ec, _).
       if failed ec then (\<lambda>s. Some (Inr False, s)) else readResponse S))))"
  by (auto simp: fun_eq_iff sendHorcruxRequest_def stream_bind_def split: option.splits sum.splits)

lemma send_all_bind:
  "send_all S pad [] = (\<lambda>s. Some (Inr (), s))"
  "send_all S pad (r # rs) = (\<lambda>s. stream_bind (sendHorcruxRequest S pad r s) (\<lambda>answer.
     case answer of Inl e \<Rightarrow> (\<lambda>s. Some (Inl e, s)) | Inr _ \<Rightarrow> send_all S pad rs))"
  by (auto simp: fun_eq_iff stream_bind_def split: option.splits sum.splits)

lemma client_session_bind:
  "client_session S pad rd options fs =
     (case getHorcruxes fs (mInputPath options) (make_BasicFileSplitter (mHorcruxCount options)) of
        Inl e \<Rightarrow> (\<lambda>s. Some (Undefined e, s))
      | Inr horcruxes \<Rightarrow>
          if horcruxes = [] then (\<lambda>s. Some (Exit (-1), s))
          else
            let pre = PreRequestHeader_fromHorcruxes (generateRandomUint64 rd) horcruxes
            in (\<lambda>s. stream_bind (sock_write S (serializeHeader pre_rep pre) s) (\<lambda>(ec, _).
                 if failed ec then (\<lambda>s. Some (Exit 0, s))
                 else (\<lambda>s. stream_bind (readResponse S s) (\<lambda>answer. case answer of
                     Inl e \<Rightarrow> (\<lambda>s. Some (Exit 0, s))
                   | Inr ok \<Rightarrow> if \<not> ok then (\<lambda>s. Some (Exit 0, s))
                       else (\<lambda>s. stream_bind (send_all S pad (Request_fromHorcruxes (mUuid pre) horcruxes) s)
                              (\<lambda>_ s. Some (Exit 0, s))))))))"
  by (auto simp: fun_eq_iff client_session_def stream_bind_def Let_def map_option_case split: option.splits sum.splits)

context byte_stream
begin

lemma simulated_response: "simulated S out frame (readResponse S) (readResponse script_stream)"
  unfolding readResponse_bind by (auto intro!: simulated_read simp del: script_stream_simps split: prod.splits)

lemma simulated_request: "simulated S out frame (sendHorcruxRequest S pad r) (sendHorcruxRequest script_stream pad r)"
  unfolding sendHorcruxRequest_bind
  by (auto intro!: simulated_write simulated_response simp del: script_stream_simps split: prod.splits)

lemma simulated_requests: "simulated S out frame (send_all S pad rs) (send_all script_stream pad rs)"
proof (induction rs)
  case (Cons r rs)
  then show ?case
    unfolding send_all_bind by (auto intro!: simulated_request simp del: send_all.simps split: sum.splits)
qed (unfold send_all_bind, blast)

lemma simulated_session:
  "simulated S out frame (client_session S pad rd options fs) (client_session script_stream pad rd options fs)"
  unfolding client_session_bind Let_def
  by (auto intro!: simulated_write simulated_response simulated_requests simp del: script_stream_simps
      split: sum.splits prod.splits)

end

interpretation script: byte_stream script_stream sent "\<lambda>_. ()"
  by unfold_locales (auto simp: write_some_def read_some_def split: list.splits socket_result.splits if_splits)

lemma session_returns:
  assumes "\<And>bs. returns (sock_write S bs)" "\<And>cap. returns (sock_read S cap)"
  shows "returns (client_session S pad rd options fs)"
proof -
  have response: "returns (readResponse S)"
    unfolding readResponse_bind by (auto intro!: assms)
  have request: "returns (sendHorcruxRequest S pad r)" for r
    unfolding sendHorcruxRequest_bind by (auto intro!: assms response)
  have "returns (send_all S pad rs)" for rs
    by (induction rs) (unfold send_all_bind, auto intro!: request simp del: send_all.simps split: sum.splits)
  then show ?thesis
    unfolding client_session_bind Let_def by (auto intro!: assms response split: sum.splits)
qed

section \<open>The program over the system calls\<close>

text \<open>
  The buffer that a call uses, in the memory of the process: \<open>m_put\<close> stores bytes in it and \<open>m_get\<close>
  reads the first bytes of it; \<open>wire\<close> is what the process has sent to its peer.
\<close>

record 'w io_memory =
  m_put :: "byte list \<Rightarrow> 'w \<Rightarrow> 'w"
  m_get :: "nat \<Rightarrow> 'w \<Rightarrow> byte list"
  wire :: "'w \<Rightarrow> byte list"

definition call_buffer :: "nat \<Rightarrow> user_buffers" where
  "call_buffer n = One_Buffer \<lparr>buf_data = 0, buf_size = n\<rparr>"

text \<open>The socket of the client; the array for the response is filled with zeros before the call.\<close>

definition socket_stream :: "'w kernel \<Rightarrow> 'w io_memory \<Rightarrow> socket_impl \<Rightarrow> 'w stream" where
  "socket_stream K M impl =
     \<lparr>sock_write = (\<lambda>bytes w. map_option (\<lambda>(n, ec, w'). ((ec, n), w'))
        (stream_write_some K impl (call_buffer (length bytes)) no_error (m_put M bytes w))),
      sock_read = (\<lambda>capacity w. map_option (\<lambda>(n, ec, w'). ((ec, m_get M n w'), w'))
        (stream_read_some K impl (call_buffer capacity) no_error (m_put M (replicate capacity CHR 0x00) w)))\<rparr>"

text \<open>
  \<open>main\<close>: the errors of \<open>resolve\<close> and \<open>connect\<close> are caught, and the socket is destroyed whichever way
  the block is left, except by undefined behaviour. \<open>client_connected\<close> says how the resolution and
  the connection ended, as \<open>client_main\<close> takes it, and which socket there is then.
\<close>

definition client_connected ::
  "'w kernel \<Rightarrow> 'w epoll_ctl_func \<Rightarrow> 'w getaddrinfo_func \<Rightarrow> 'w \<Rightarrow> error_code \<times> socket_impl \<times> 'w" where
  "client_connected K ctl gai w = (case resolve_or_throw gai kIp kPort w of
      (Inl ec, w1) \<Rightarrow> (ec, construct, w1)
    | (Inr endpoints, w1) \<Rightarrow> (case connect_or_throw K ctl endpoints construct w1 of
          (Inl ec, impl, w2) \<Rightarrow> (ec, impl, w2)
        | (Inr _, impl, w2) \<Rightarrow> (no_error, impl, w2)))"

definition client_program ::
  "'w kernel \<Rightarrow> 'w epoll_ctl_func \<Rightarrow> 'w getaddrinfo_func \<Rightarrow> 'w io_memory \<Rightarrow> string list \<Rightarrow> padding \<Rightarrow> u32 \<Rightarrow> filesystem \<Rightarrow>
   'w \<Rightarrow> (client_end \<times> 'w) option" where
  "client_program K ctl gai M argv pad rd fs w = (case parseHorcruxCommand argv of
      Inl e \<Rightarrow> Some (Uncaught e, w)
    | Inr None \<Rightarrow> Some (Exit (-1), w)
    | Inr (Some options) \<Rightarrow>
        let (connect_result, impl, w1) = client_connected K ctl gai w
        in case client_main (socket_stream K M impl) argv connect_result pad rd fs w1 of
             None \<Rightarrow> None
           | Some (Undefined err, w2) \<Rightarrow> Some (Undefined err, w2)
           | Some (e, w2) \<Rightarrow> let (_, _, _, w3) = destroy_impl K ctl impl w2 in Some (e, w3))"

section \<open>Calls that send nothing\<close>

text \<open>
  What the calls of setting up and closing a socket leave alone, \<open>obs\<close>. In contrast to the laws of
  the descriptors this concerns every call in the same way.
\<close>

definition sets_up_only :: "('w \<Rightarrow> 'x) \<Rightarrow> 'w kernel \<Rightarrow> 'w epoll_ctl_func \<Rightarrow> bool" where
  "sets_up_only obs K ctl \<longleftrightarrow>
     (\<forall>af type protocol. keeps obs (k_socket K af type protocol)) \<and> (\<forall>s. keeps obs (k_close K s)) \<and>
     (\<forall>s addr. keeps obs (k_connect K s addr)) \<and> (\<forall>s ev t. keeps obs (k_poll K s ev t)) \<and>
     (\<forall>s opt v. keeps obs (k_setsockopt K s opt v)) \<and>
     (\<forall>s opt v n w. obs (snd (snd (snd (k_getsockopt K s opt v n w)))) = obs w) \<and>
     (\<forall>s c a w. obs (snd (snd (k_ioctl K s c a w))) = obs w) \<and> (\<forall>c fd ev. keeps obs (ctl c fd ev))"

lemma sets_up:
  assumes "sets_up_only obs K ctl"
  shows "k_socket K af type protocol w = (x, w') \<Longrightarrow> obs w' = obs w" "k_close K s w = (x, w') \<Longrightarrow> obs w' = obs w"
    "k_connect K s addr w = (x, w') \<Longrightarrow> obs w' = obs w" "k_poll K s ev t w = (x, w') \<Longrightarrow> obs w' = obs w"
    "k_setsockopt K s opt v w = (x, w') \<Longrightarrow> obs w' = obs w"
    "k_getsockopt K s opt v' n' w = (x, a, b, w') \<Longrightarrow> obs w' = obs w"
    "k_ioctl K s c a' w = (x, a, w') \<Longrightarrow> obs w' = obs w"
    "ctl cc fd evs w = (x, w') \<Longrightarrow> obs w' = obs w"
  using assms unfolding sets_up_only_def keeps_def by (metis snd_conv)+

lemma close_socket_quiet:
  assumes "sets_up_only obs K ctl" "close_socket K s state d ec w = (r, ec', state', w')"
  shows "obs w' = obs w"
proof -
  have "obs w1 = obs w0" if "setsockopt K s st Linger v e w0 = (r1, e1, st1, w1)" for st v e w0 r1 e1 st1 w1
    using that by (auto simp: setsockopt_def Let_def sets_up(5) [OF assms(1)] split: if_splits prod.splits)
  then show ?thesis
    using assms(2)
    by (auto simp: close_socket_def Let_def sets_up [OF assms(1)] simp del: flag_bits split: if_splits prod.splits)
qed

lemma holder_reset_quiet:
  assumes "sets_up_only obs K ctl"
  shows "obs (snd (holder_reset K s w)) = obs w"
  using close_socket_quiet [OF assms] by (auto simp: holder_reset_def split: prod.splits)

lemma deregister_quiet:
  assumes "sets_up_only obs K ctl" "deregister_descriptor ctl fd closing data w = (data', ops, calls, w')"
  shows "obs w' = obs w"
  using assms(2) sets_up(8) [OF assms(1) surjective_pairing]
  by (auto simp: deregister_descriptor_def drain_queues_eq Let_def split: option.splits if_splits prod.splits)

lemma close_impl_quiet:
  assumes "sets_up_only obs K ctl" "close_impl K ctl impl ec w = (impl', ec', ops, calls, w')"
  shows "obs w' = obs w"
  using assms(2) deregister_quiet [OF assms(1)] close_socket_quiet [OF assms(1)]
  by (auto simp: close_impl_def simp del: flag_bits split: if_splits prod.splits)

lemma destroy_impl_quiet:
  assumes "sets_up_only obs K ctl" "destroy_impl K ctl impl w = (impl', ops, calls, w')"
  shows "obs w' = obs w"
  using assms(2) deregister_quiet [OF assms(1)] close_socket_quiet [OF assms(1)]
  by (auto simp: destroy_impl_def simp del: flag_bits split: if_splits prod.splits)

lemma do_open_quiet:
  assumes "sets_up_only obs K ctl" "do_open K ctl impl af type protocol ec w = (impl', ec', w')"
  shows "obs w' = obs w"
proof -
  have "obs v' = obs v" if "register_descriptor ctl fd v = (err, dd, v')" for fd v err dd v'
    using that by (auto simp: register_descriptor_def Let_def sets_up(8) [OF assms(1)] split: if_splits prod.splits)
  then show ?thesis
    using assms(2)
    by (auto simp: do_open_def open_socket_def Let_def sets_up(1) [OF assms(1)] holder_reset_quiet [OF assms(1)]
        split: if_splits prod.splits)
qed

lemma sync_connect_quiet:
  assumes "sets_up_only obs K ctl" "sync_connect K s addr ec w = (ec', w')"
  shows "obs w' = obs w"
proof -
  have "obs v' = obs v" if "connect K s addr e v = (r, e', v')" for e v r e' v'
    using that by (auto simp: connect_def Let_def sets_up(3) [OF assms(1)] split: if_splits prod.splits)
  moreover have "obs v' = obs v" if "poll_connect K s t e v = (r, e', v')" for t e v r e' v'
    using that by (auto simp: poll_connect_def Let_def sets_up(4) [OF assms(1)] split: if_splits prod.splits)
  moreover have "obs v' = obs v" if "getsockopt K s st opt x n e v = (r, x', n', e', v')" for st opt x n e v r x' n' e' v'
    using that by (auto simp: getsockopt_def Let_def sets_up(6) [OF assms(1)] split: if_splits prod.splits)
  ultimately show ?thesis
    using assms(2) by (auto simp: sync_connect_def split: if_splits prod.splits)
qed

lemma socket_connect_quiet:
  assumes "sets_up_only obs K ctl" "socket_connect K ctl impl ep ec w = (impl', ec', w')"
  shows "obs w' = obs w"
  using assms(2)
  by (auto simp: socket_connect_def service_connect_def split: if_splits prod.splits
      dest!: do_open_quiet [OF assms(1)] sync_connect_quiet [OF assms(1)])

lemma connect_loop_quiet:
  assumes "sets_up_only obs K ctl"
  shows "connect_loop K ctl condition eps ec impl w = (result, ec', impl', w') \<Longrightarrow> obs w' = obs w"
proof (induction eps arbitrary: ec impl w)
  case (Cons ep eps)
  then show ?case
    using close_impl_quiet [OF assms] socket_connect_quiet [OF assms] by (auto split: if_splits prod.splits)
qed simp

lemma connect_or_throw_quiet:
  assumes "sets_up_only obs K ctl" "connect_or_throw K ctl eps impl w = (result, impl', w')"
  shows "obs w' = obs w"
  using assms(2) connect_loop_quiet [OF assms(1)]
  by (auto simp: connect_or_throw_def range_connect_def split: prod.splits option.splits)

section \<open>The socket is a stream\<close>

text \<open>
  What \<open>sendmsg\<close>, \<open>recvmsg\<close> and \<open>poll\<close> do to the memory and the wire: a call that sends \<open>r\<close> bytes sends the
  first \<open>r\<close> of the buffer, a call that fails sends nothing, and neither changes what is to be sent.
\<close>

definition io_laws :: "'w kernel \<Rightarrow> 'w io_memory \<Rightarrow> bool" where
  "io_laws K M \<longleftrightarrow>
     (\<forall>bs w. wire M (m_put M bs w) = wire M w \<and> m_get M (length bs) (m_put M bs w) = bs) \<and>
     (\<forall>n w. length (m_get M n w) = n) \<and>
     (\<forall>s bufs flags w r errno w'. k_sendmsg K s bufs flags w = ((r, errno), w') \<longrightarrow>
        wire M w' = wire M w @ take (nat r) (m_get M (buffer_size bufs) w) \<and> (\<forall>n. m_get M n w' = m_get M n w)) \<and>
     (\<forall>s bufs flags. keeps (wire M) (k_recvmsg K s bufs flags)) \<and>
     (\<forall>s ev t n. keeps (wire M) (k_poll K s ev t) \<and> keeps (m_get M n) (k_poll K s ev t))"

definition transfers_keep :: "('w \<Rightarrow> 'x) \<Rightarrow> 'w kernel \<Rightarrow> 'w io_memory \<Rightarrow> bool" where
  "transfers_keep obs K M \<longleftrightarrow> (\<forall>bs w. obs (m_put M bs w) = obs w) \<and>
     (\<forall>s bufs flags. keeps obs (k_sendmsg K s bufs flags) \<and> keeps obs (k_recvmsg K s bufs flags)) \<and>
     (\<forall>s ev t. keeps obs (k_poll K s ev t))"

lemma io_facts:
  assumes "io_laws K M"
  shows "wire M (m_put M bs w) = wire M w" "m_get M (length bs) (m_put M bs w) = bs" "length (m_get M n w) = n"
    "k_sendmsg K s bufs flags w = ((r, errno), w') \<Longrightarrow> wire M w' = wire M w @ take (nat r) (m_get M (buffer_size bufs) w)"
    "k_sendmsg K s bufs flags w = ((r, errno), w') \<Longrightarrow> m_get M n w' = m_get M n w"
    "k_recvmsg K s bufs flags w = (x, w') \<Longrightarrow> wire M w' = wire M w"
    "k_poll K s ev t w = (x, w') \<Longrightarrow> wire M w' = wire M w" "k_poll K s ev t w = (x, w') \<Longrightarrow> m_get M n w' = m_get M n w"
  using assms unfolding io_laws_def keeps_def by (metis snd_conv)+

lemma transfer_facts:
  assumes "transfers_keep obs K M"
  shows "obs (m_put M bs w) = obs w" "k_sendmsg K s bufs flags w = (x, w') \<Longrightarrow> obs w' = obs w"
    "k_recvmsg K s bufs flags w = (x, w') \<Longrightarrow> obs w' = obs w" "k_poll K s ev t w = (x, w') \<Longrightarrow> obs w' = obs w"
  using assms unfolding transfers_keep_def keeps_def by (metis snd_conv)+

lemma sync_send_wire:
  fixes K :: "'w kernel"
  assumes "io_laws K M" "transfers_keep obs K M" "\<forall>s bufs. send_law K s bufs"
    "sync_send K s state bufs flags all_empty ec w = Some (n, ec', w')"
  shows "n \<le> buffer_size bufs \<and> wire M w' = wire M w @ take n (m_get M (buffer_size bufs) w) \<and> obs w' = obs w"
proof -
  let ?I = "\<lambda>(_ :: error_code, w1). wire M w1 = wire M w \<and> m_get M (buffer_size bufs) w1 = m_get M (buffer_size bufs) w \<and> obs w1 = obs w"
  let ?P = "\<lambda>(n, _ :: error_code, w'). n \<le> buffer_size bufs \<and> wire M w' = wire M w @ take n (m_get M (buffer_size bufs) w) \<and> obs w' = obs w"
  have loop: "?P (n, ec', w')" if "(\<lambda>(ec, w). sync_send_loop K s state bufs flags ec w) (ec, w) = Some (n, ec', w')"
  proof (rule send_retry.loop_invariant [OF that, where I = ?I])
    fix x y :: "error_code \<times> 'w" and r
    obtain b errno w1 where call: "k_sendmsg K s bufs (flags OR msg_nosignal) (snd x) = ((b, errno), w1)"
      by (metis prod.exhaust)
    obtain ready errno' w2 where poll: "k_poll K s POLLOUT (-1) w1 = ((ready, errno'), w2)"
      by (metis prod.exhaust)
    have "b \<le> int (buffer_size bufs)"
      using assms(3) call unfolding send_law_def by blast
    moreover note io_facts(4,5) [OF assms(1) call] io_facts(7,8) [OF assms(1) poll]
      transfer_facts(2) [OF assms(2) call] transfer_facts(4) [OF assms(2) poll]
    ultimately show "?I x \<Longrightarrow> send_step K s state bufs flags x = Inr y \<Longrightarrow> ?I y"
      "?I x \<Longrightarrow> send_step K s state bufs flags x = Inl r \<Longrightarrow> ?P r"
      using call poll
      by (auto simp: send_step_def send_def poll_write_def split: prod.splits if_splits)
  qed simp
  show ?thesis
    using assms(4) loop by (auto simp: sync_send_def split: if_splits)
qed

lemma sync_recv_wire:
  fixes K :: "'w kernel"
  assumes "io_laws K M" "transfers_keep obs K M" "\<forall>s bufs. recv_law K s bufs"
    "sync_recv K s state bufs flags all_empty ec w = Some (n, ec', w')"
  shows "n \<le> buffer_size bufs \<and> wire M w' = wire M w \<and> obs w' = obs w"
proof -
  let ?I = "\<lambda>(_ :: error_code, w1). wire M w1 = wire M w \<and> obs w1 = obs w"
  let ?P = "\<lambda>(n, _ :: error_code, w'). n \<le> buffer_size bufs \<and> wire M w' = wire M w \<and> obs w' = obs w"
  have loop: "?P (n, ec', w')" if "(\<lambda>(ec, w). sync_recv_loop K s state bufs flags ec w) (ec, w) = Some (n, ec', w')"
  proof (rule recv_retry.loop_invariant [OF that, where I = ?I])
    fix x y :: "error_code \<times> 'w" and r
    obtain b errno w1 where call: "k_recvmsg K s bufs flags (snd x) = ((b, errno), w1)"
      by (metis prod.exhaust)
    obtain ready errno' w2 where poll: "k_poll K s POLLIN (-1) w1 = ((ready, errno'), w2)"
      by (metis prod.exhaust)
    have "b \<le> int (buffer_size bufs)"
      using assms(3) call unfolding recv_law_def by blast
    moreover note io_facts(6) [OF assms(1) call] io_facts(7) [OF assms(1) poll]
      transfer_facts(3) [OF assms(2) call] transfer_facts(4) [OF assms(2) poll]
    ultimately show "?I x \<Longrightarrow> recv_step K s state bufs flags x = Inr y \<Longrightarrow> ?I y"
      "?I x \<Longrightarrow> recv_step K s state bufs flags x = Inl r \<Longrightarrow> ?P r"
      using call poll
      by (auto simp: recv_step_def recv_def poll_read_def split: prod.splits if_splits)
  qed simp
  show ?thesis
    using assms(4) loop by (auto simp: sync_recv_def split: if_splits)
qed

lemma call_buffer_size: "buffer_size [\<lparr>buf_data = p, buf_size = n\<rparr>] = n"
  by (simp add: buffer_size_def)

lemma socket_byte_stream:
  assumes "io_laws K M" "transfers_keep obs K M" "single_call_law K"
    "\<forall>s bufs. send_law K s bufs" "\<forall>s bufs. recv_law K s bufs"
  shows "byte_stream (socket_stream K M impl) (wire M) obs"
proof
  fix bs w ec n w'
  assume "sock_write (socket_stream K M impl) bs w = Some ((ec, n), w')"
  then have "sync_send K (impl_socket impl) (impl_state impl) [\<lparr>buf_data = 0, buf_size = length bs\<rparr>] 0
      (length bs = 0) no_error (m_put M bs w) = Some (n, ec, w')"
    by (auto simp: socket_stream_def stream_write_some_def service_send_def call_buffer_def sync_single [OF assms(3)]
        call_buffer_size simp del: buffer_size_extents)
  from sync_send_wire [OF assms(1,2,4) this]
  show "n \<le> length bs \<and> wire M w' = wire M w @ take n bs \<and> obs w' = obs w"
    by (simp only: call_buffer_size io_facts(1,2) [OF assms(1)] transfer_facts(1) [OF assms(2)])
next
  fix cap w ec bytes w'
  assume "sock_read (socket_stream K M impl) cap w = Some ((ec, bytes), w')"
  then obtain n where "sync_recv K (impl_socket impl) (impl_state impl) [\<lparr>buf_data = 0, buf_size = cap\<rparr>] 0
      (cap = 0) no_error (m_put M (replicate cap CHR 0x00) w) = Some (n, ec, w')" and "bytes = m_get M n w'"
    by (auto simp: socket_stream_def stream_read_some_def service_receive_def call_buffer_def sync_single [OF assms(3)]
        call_buffer_size simp del: buffer_size_extents)
  with sync_recv_wire [OF assms(1,2,5) this(1)]
  show "length bytes \<le> cap \<and> wire M w' = wire M w \<and> obs w' = obs w"
    by (simp only: call_buffer_size io_facts(1,3) [OF assms(1)] transfer_facts(1) [OF assms(2)])
qed

text \<open>The system lets every transfer through in the end.\<close>

definition lets_through :: "'w kernel \<Rightarrow> bool" where
  "lets_through K \<longleftrightarrow> (\<forall>s bufs flags w.
     (\<exists>n. becomes_ready (k_sendmsg K s bufs flags) (k_poll K s POLLOUT (-1)) n w) \<and>
     (\<exists>n. becomes_ready (k_recvmsg K s bufs flags) (k_poll K s POLLIN (-1)) n w))"

lemma sync_transfers_return:
  assumes "lets_through K"
  shows "sync_send K s state bufs flags all_empty ec w \<noteq> None" "sync_recv K s state bufs flags all_empty ec w \<noteq> None"
proof -
  obtain n m where "becomes_ready (k_sendmsg K s bufs (flags OR msg_nosignal)) (k_poll K s POLLOUT (-1)) n w"
    "becomes_ready (k_recvmsg K s bufs flags) (k_poll K s POLLIN (-1)) m w"
    using assms unfolding lets_through_def by blast
  note ready = this
  have "\<exists>r. sync_send_loop K s state bufs flags ec w = Some r" if "s \<noteq> invalid_socket"
    using send_retry.loop_result [OF send_settles [OF ready(1) that, of state ec], of "\<lambda>_. True"] by simp
  then show "sync_send K s state bufs flags all_empty ec w \<noteq> None"
    by (auto simp: sync_send_def)
  have "\<exists>r. sync_recv_loop K s state bufs flags ec w = Some r" if "s \<noteq> invalid_socket"
    using recv_retry.loop_result [OF recv_settles [OF ready(2) that, of state ec], of "\<lambda>_. True"] by simp
  then show "sync_recv K s state bufs flags all_empty ec w \<noteq> None"
    by (auto simp: sync_recv_def)
qed

lemma socket_returns:
  assumes "lets_through K" "single_call_law K"
  shows "returns (sock_write (socket_stream K M impl) bs)" "returns (sock_read (socket_stream K M impl) cap)"
  using sync_transfers_return [OF assms(1)]
  by (simp_all add: returns_def socket_stream_def stream_write_some_def stream_read_some_def service_send_def
      service_receive_def call_buffer_def sync_single [OF assms(2)])

section \<open>The socket of the client\<close>

lemma resolved_streams:
  assumes "resolve_or_throw gai host service w = (Inr eps, w')" "ep \<in> set eps"
  shows "fst (snd (ep_protocol ep)) = 1"
  using assms
  by (auto simp: resolve_or_throw_def service_resolve_def getaddrinfo_def results_create_eq resolved_def endpoint_of_def
      throw_error_def split: prod.splits if_splits sum.splits)

lemma socket_connect_state:
  assumes "socket_connect K ctl impl ep ec w = (impl', ec', w')" "\<not> is_open impl" "\<not> failed ec'" "fst (snd (ep_protocol ep)) = 1"
  shows "is_open impl' \<and> impl_state impl' = stream_oriented"
proof -
  obtain af protocol where ep: "ep_protocol ep = (af, 1, protocol)"
    using assms(4) by (metis prod.collapse)
  obtain impl1 e1 w1 where o: "do_open K ctl impl af 1 protocol ec w = (impl1, e1, w1)"
    by (metis prod.exhaust)
  obtain e2 w2 where c: "sync_connect K (impl_socket impl1) (ep_address ep) e1 w1 = (e2, w2)"
    by (metis prod.exhaust)
  have r: "\<not> failed e1" "impl' = impl1" "e2 = ec'"
    using assms(1-3) ep o c by (auto simp: socket_connect_def service_connect_def split: if_splits)
  have "is_open impl1"
    using c r(3) assms(3) by (auto simp: sync_connect_def connect_def is_open_def split: if_splits)
  moreover have "impl_state impl1 = type_state 1" if "is_open impl1"
    using o that assms(2) by (auto simp: do_open_def is_open_def Let_def split: prod.splits if_splits)
  ultimately show ?thesis
    using r(2) by (simp add: type_state_def)
qed

lemma connect_loop_state:
  assumes "\<And>ep. ep \<in> set eps \<Longrightarrow> fst (snd (ep_protocol ep)) = 1" "connect_loop K ctl cond eps ec impl w = (Some ep, ec', impl', w')"
  shows "is_open impl' \<and> impl_state impl' = stream_oriented"
  using assms
proof (induction eps arbitrary: ec impl w)
  case (Cons e eps)
  obtain impl1 e1 ops calls w1 where c: "close_impl K ctl impl ec w = (impl1, e1, ops, calls, w1)"
    by (metis prod.exhaust)
  obtain impl2 e2 w2 where s: "socket_connect K ctl impl1 e e1 w1 = (impl2, e2, w2)"
    by (metis prod.exhaust)
  have "\<not> is_open impl1"
    using c by (auto simp: close_impl_def is_open_def construct_def split: if_splits prod.splits)
  then show ?case
    using Cons.prems Cons.IH [of ec impl w] Cons.IH [of e2 impl2 w2] c s socket_connect_state [OF s]
    by (auto split: if_splits)
qed simp

text \<open>
  C33. Whatever the resolver and the system calls report: when resolving and connecting succeed, the
  socket of the client is open, and it is a stream socket in blocking mode, which is what makes
  its transfers wait and report the end of the stream as an error.
\<close>

theorem connected_socket_type:
  assumes "client_connected K ctl gai w = (ec, impl, w')" "\<not> failed ec"
  shows "is_open impl \<and> has_flag (impl_state impl) stream_oriented \<and>
    \<not> has_flag (impl_state impl) user_set_non_blocking \<and> \<not> has_flag (impl_state impl) internal_non_blocking"
proof -
  obtain eps w1 where resolve: "resolve_or_throw gai kIp kPort w = (Inr eps, w1)"
    using assms by (auto simp: client_connected_def resolve_or_throw_def throw_error_def service_resolve_def
        results_create_eq split: sum.splits prod.splits if_splits)
  obtain r where connect: "connect_or_throw K ctl eps construct w1 = (Inr r, impl, w')"
    using assms resolve by (auto simp: client_connected_def connect_or_throw_def throw_error_def split: sum.splits prod.splits if_splits)
  obtain ep e where "connect_loop K ctl default_connect_condition eps no_error construct w1 = (Some ep, e, impl, w')"
    using connect by (auto simp: connect_or_throw_def range_connect_def throw_error_def split: prod.splits option.splits if_splits)
  from connect_loop_state [OF resolved_streams [OF resolve] this] show ?thesis
    by (simp add: has_flag_def stream_oriented_def user_set_non_blocking_def internal_non_blocking_def del: flag_bits)
qed

section \<open>The program\<close>

definition gai_keeps :: "('w \<Rightarrow> 'x) \<Rightarrow> 'w getaddrinfo_func \<Rightarrow> bool" where
  "gai_keeps obs gai \<longleftrightarrow> (\<forall>host service hints w. obs (snd (gai host service hints w)) = obs w)"

text \<open>The laws of the system for the program.\<close>

definition system_laws ::
  "'w kernel \<Rightarrow> 'w epoll_ctl_func \<Rightarrow> 'w getaddrinfo_func \<Rightarrow> 'w io_memory \<Rightarrow> ('w \<Rightarrow> int set) \<Rightarrow> bool" where
  "system_laws K ctl gai M fds \<longleftrightarrow>
     io_laws K M \<and> transfers_keep fds K M \<and> single_call_law K \<and> (\<forall>s bufs. send_law K s bufs) \<and>
     (\<forall>s bufs. recv_law K s bufs) \<and> fd_laws K ctl fds \<and> sets_up_only (wire M) K ctl \<and>
     gai_keeps fds gai \<and> gai_keeps (wire M) gai"

lemma resolve_keeps:
  "gai_keeps obs gai \<Longrightarrow> resolve_or_throw gai host service w = (r, w') \<Longrightarrow> obs w' = obs w"
  unfolding gai_keeps_def
  by (auto simp: resolve_or_throw_def service_resolve_def getaddrinfo_def split: prod.splits) (metis snd_conv)+

lemma construct_owned: "owned construct = {}"
  by (simp add: owned_def is_open_def construct_def)

lemma client_connected_effect:
  assumes "system_laws K ctl gai M fds" "client_connected K ctl gai w = (ec, impl, w')"
  shows "wire M w' = wire M w" "moves_ownership fds construct w impl w'"
proof -
  have laws: "fd_laws K ctl fds" "sets_up_only (wire M) K ctl" "gai_keeps fds gai" "gai_keeps (wire M) gai"
    using assms(1) by (simp_all add: system_laws_def)
  obtain r w1 where resolve: "resolve_or_throw gai kIp kPort w = (r, w1)"
    by (metis prod.exhaust)
  note kept = resolve_keeps [OF laws(3) resolve] resolve_keeps [OF laws(4) resolve]
  have start: "moves_ownership fds construct w construct w1"
    using kept(1) by (simp add: moves_ownership_def construct_owned)
  show "wire M w' = wire M w"
    using assms(2) resolve kept(2)
    by (auto simp: client_connected_def split: sum.splits prod.splits dest!: connect_or_throw_quiet [OF laws(2)])
  show "moves_ownership fds construct w impl w'"
    using assms(2) resolve start moves_trans [OF start] connect_or_throw_moves [OF laws(1)] construct_owned
    by (auto simp: client_connected_def split: sum.splits prod.splits)
qed

lemma client_main_stream:
  assumes "byte_stream S out frame"
  shows "case client_main S argv cr pad rd fs w of
      Some (e, w') \<Rightarrow> frame w' = frame w \<and> (\<exists>scr d. transfers S w scr w' \<and> out w' = out w @ d \<and>
        client_main script_stream argv cr pad rd fs \<lparr>script = scr, sent = ''''\<rparr> = Some (e, \<lparr>script = [], sent = d\<rparr>))
    | None \<Rightarrow> \<exists>scr w'. transfers S w scr w' \<and> blocked S w' \<and>
        client_main script_stream argv cr pad rd fs \<lparr>script = scr, sent = ''''\<rparr> = None"
proof (cases "\<exists>options. parseHorcruxCommand argv = Inr (Some options) \<and> \<not> failed cr")
  case True
  then obtain options where parse: "parseHorcruxCommand argv = Inr (Some options)" "\<not> failed cr"
    by blast
  note session = simulatedD [OF byte_stream.simulated_session [OF assms, of pad rd options fs], of w]
  show ?thesis
  proof (cases "client_session S pad rd options fs w")
    case None
    then show ?thesis
      using session(2) parse by (auto simp: client_main_def blocks_after_def)
  next
    case (Some r)
    obtain e w' where r: "r = (e, w')"
      by (metis prod.exhaust)
    obtain scr d where d: "frame w' = frame w" "transfers S w scr w'" "out w' = out w @ d"
      "follows_script scr d (client_session script_stream pad rd options fs) e"
      using session(1) Some r by auto
    from d(4) have "client_session script_stream pad rd options fs \<lparr>script = scr, sent = ''''\<rparr> = Some (e, \<lparr>script = [], sent = d\<rparr>)"
      unfolding follows_script_def by (metis append_Nil append_Nil2)
    with d Some r parse show ?thesis
      by (auto simp: client_main_def)
  qed
next
  case False
  then show ?thesis
    by (cases "parseHorcruxCommand argv")
      (auto simp: client_main_def split: option.splits intro!: exI [of _ "[]"] transfers.no_call)
qed

text \<open>
  C10. The client on the socket service, for every command line and file system and whatever the system calls
  report within their laws. Either the program returns: then it ends in the same way, and has sent the
  same bytes, as the client over the script of the results of its transfers (from the state after
  connecting to the one in which the connected part of \<open>main\<close> is left), and, unless splitting the file has undefined
  behaviour, the process then has the descriptors it had before. Or the program does not return: then it is
  blocked in a transfer that the system never lets through, and the client over the script of the
  transfers before needs another one.
\<close>

theorem client_on_socket:
  assumes "system_laws K ctl gai M fds"
  shows "case client_connected K ctl gai w of (cr, impl, w1) \<Rightarrow> \<exists>scr w2. transfers (socket_stream K M impl) w1 scr w2 \<and>
    (case client_program K ctl gai M argv pad rd fs w of
       Some (e, w') \<Rightarrow> client_main (socket_stream K M impl) argv cr pad rd fs w1 = Some (e, w2) \<and>
         (\<exists>d. wire M w' = wire M w @ d \<and>
            client_main script_stream argv cr pad rd fs \<lparr>script = scr, sent = ''''\<rparr> = Some (e, \<lparr>script = [], sent = d\<rparr>)) \<and>
         ((\<forall>err. e \<noteq> Undefined err) \<longrightarrow> fds w' = fds w)
     | None \<Rightarrow> blocked (socket_stream K M impl) w2 \<and>
         client_main script_stream argv cr pad rd fs \<lparr>script = scr, sent = ''''\<rparr> = None)"
proof -
  obtain cr impl w1 where connected: "client_connected K ctl gai w = (cr, impl, w1)"
    by (metis prod.exhaust)
  note start = client_connected_effect [OF assms connected]
  let ?S = "socket_stream K M impl"
  have laws: "byte_stream ?S (wire M) fds" "fd_laws K ctl fds" "sets_up_only (wire M) K ctl"
    using assms by (simp_all add: system_laws_def socket_byte_stream)
  note run = client_main_stream [OF laws(1), where argv = argv and cr = cr and pad = pad and rd = rd and fs = fs and w = w1]
  have final: "wire M w3 = wire M w @ d" "fds w3 = fds w"
    if "destroy_impl K ctl impl w2 = (i, ops, calls, w3)" "fds w2 = fds w1" "wire M w2 = wire M w1 @ d" for i ops calls w2 w3 d
    using destroy_impl_fds [OF laws(2) that(1)] destroy_impl_quiet [OF laws(3) that(1)] that(2,3) start
    by (auto simp: moves_ownership_def construct_owned)
  show ?thesis
  proof (cases "\<exists>options. parseHorcruxCommand argv = Inr (Some options)")
    case True
    show ?thesis
    proof (cases "client_main ?S argv cr pad rd fs w1")
      case None
      then have "client_program K ctl gai M argv pad rd fs w = None"
        using True connected by (auto simp: client_program_def)
      then show ?thesis
        using run None connected by auto
    next
      case (Some r)
      obtain e w2 where r: "r = (e, w2)"
        by (metis prod.exhaust)
      obtain scr d where d: "fds w2 = fds w1" "transfers ?S w1 scr w2" "wire M w2 = wire M w1 @ d"
        "client_main script_stream argv cr pad rd fs \<lparr>script = scr, sent = ''''\<rparr> = Some (e, \<lparr>script = [], sent = d\<rparr>)"
        using run Some r by auto
      obtain i ops calls w3 where destroy: "destroy_impl K ctl impl w2 = (i, ops, calls, w3)"
        by (metis prod.exhaust)
      have "client_program K ctl gai M argv pad rd fs w = Some (e, case e of Undefined _ \<Rightarrow> w2 | _ \<Rightarrow> w3)"
        using True connected Some r destroy by (cases e) (auto simp: client_program_def)
      moreover have "wire M (case e of Undefined _ \<Rightarrow> w2 | _ \<Rightarrow> w3) = wire M w @ d"
        "(\<forall>err. e \<noteq> Undefined err) \<longrightarrow> fds (case e of Undefined _ \<Rightarrow> w2 | _ \<Rightarrow> w3) = fds w"
        using final [OF destroy d(1,3)] d(3) start(1) by (cases e; simp)+
      ultimately show ?thesis
        using connected Some r d(2,4) by auto
    qed
  next
    case False
    then have "client_program K ctl gai M argv pad rd fs w = Some (e, w) \<longleftrightarrow> client_main ?S argv cr pad rd fs w1 = Some (e, w1)"
      "client_main script_stream argv cr pad rd fs s = Some (e, s') \<longleftrightarrow> client_main ?S argv cr pad rd fs w1 = Some (e, w1) \<and> s' = s"
      "\<exists>e. client_main ?S argv cr pad rd fs w1 = Some (e, w1)" for e s s'
      by (cases "parseHorcruxCommand argv"; auto simp: client_program_def client_main_def split: option.splits)+
    then obtain e where "client_program K ctl gai M argv pad rd fs w = Some (e, w)"
      "client_main ?S argv cr pad rd fs w1 = Some (e, w1)"
      "client_main script_stream argv cr pad rd fs \<lparr>script = [], sent = ''''\<rparr> = Some (e, \<lparr>script = [], sent = ''''\<rparr>)"
      by blast
    then show ?thesis
      using connected by (auto intro!: exI [of _ "[]"] transfers.no_call)
  qed
qed

text \<open>If the system lets every transfer through, the program returns.\<close>

lemma client_program_returns:
  assumes "lets_through K" "single_call_law K"
  shows "client_program K ctl gai M argv pad rd fs w \<noteq> None"
proof -
  have "client_main (socket_stream K M impl) argv cr pad rd fs w1 \<noteq> None" for impl cr w1
    using session_returns [OF socket_returns [OF assms], unfolded returns_def]
    by (auto simp: client_main_def split: sum.splits option.splits)
  moreover obtain cr impl w1 where connected: "client_connected K ctl gai w = (cr, impl, w1)"
    by (metis prod.exhaust)
  ultimately obtain e w2 where "client_main (socket_stream K M impl) argv cr pad rd fs w1 = Some (e, w2)"
    by (metis option.exhaust prod.exhaust)
  then show ?thesis
    using connected by (cases e) (auto simp: client_program_def Let_def split: sum.splits option.splits prod.splits)
qed

section \<open>A system\<close>

text \<open>
  A system with a server that answers \<open>SUCCESS\<close> to whatever has been sent: its state is the list of the
  open descriptors, the bytes in the buffer and the bytes sent.
\<close>

type_synonym demo_world = "int list \<times> byte list \<times> byte list"

definition demo_memory :: "demo_world io_memory" where
  "demo_memory = \<lparr>m_put = (\<lambda>bs (fds, _, out). (fds, bs, out)),
     m_get = (\<lambda>n (_, mem, _). take n (mem @ replicate n CHR 0x00)), wire = (\<lambda>(_, _, out). out)\<rparr>"

definition on_fds :: "int list call \<Rightarrow> demo_world call" where
  "on_fds call w = (case w of (fds, rest) \<Rightarrow> case call fds of (x, fds') \<Rightarrow> (x, fds', rest))"

definition demo_send :: "buffer list \<Rightarrow> demo_world call" where
  "demo_send bufs w = (case w of (fds, mem, out) \<Rightarrow>
     ((int (buffer_size bufs), 0), fds, mem, out @ m_get demo_memory (buffer_size bufs) w))"

definition demo_receive :: "buffer list \<Rightarrow> demo_world call" where
  "demo_receive bufs w = (case w of (fds, mem, out) \<Rightarrow> ((int (min 7 (buffer_size bufs)), 0), fds, ''SUCCESS'', out))"

definition answering_kernel :: "demo_world kernel" where
  "answering_kernel = \<lparr>k_socket = (\<lambda>af t p. on_fds (k_socket fd_kernel af t p)), k_bind = (\<lambda>s a. on_fds (k_bind fd_kernel s a)),
     k_listen = (\<lambda>s n. on_fds (k_listen fd_kernel s n)), k_accept = (\<lambda>s. on_fds (k_accept fd_kernel s)),
     k_connect = (\<lambda>s a. on_fds (k_connect fd_kernel s a)), k_shutdown = (\<lambda>s h. on_fds (k_shutdown fd_kernel s h)),
     k_close = (\<lambda>s. on_fds (k_close fd_kernel s)), k_ioctl = (\<lambda>_ _ arg w. ((0, 0), arg, w)),
     k_poll = (\<lambda>_ _ _ w. ((1, 0), w)), k_setsockopt = (\<lambda>_ _ _ w. ((0, 0), w)),
     k_getsockopt = (\<lambda>_ _ _ len w. ((0, 0), 0, len, w)),
     k_recvmsg = (\<lambda>_ bufs _. demo_receive bufs), k_recv = (\<lambda>_ b _. demo_receive [b]),
     k_sendmsg = (\<lambda>_ bufs _. demo_send bufs), k_send = (\<lambda>_ b _. demo_send [b])\<rparr>"

definition answering_ctl :: "demo_world epoll_ctl_func" where
  "answering_ctl c fd ev w = ((0, 0), w)"

definition answering_gai :: "demo_world getaddrinfo_func" where
  "answering_gai host service hints w =
     ((0, 0, [\<lparr>ai_family = 2, ai_addr = (2, [127, 0, 0, 1]), ai_addrlen = 16\<rparr>]), w)"

lemma answering_fd_laws: "fd_laws answering_kernel answering_ctl (set \<circ> fst)"
  using fresh_fd_new(1) fresh_fd_valid
  by (auto simp: fd_laws_def opens_def keeps_def answering_kernel_def answering_ctl_def on_fds_def fd_kernel_def
      split: if_splits)

lemma answering_io_laws: "io_laws answering_kernel demo_memory"
  by (auto simp: io_laws_def keeps_def answering_kernel_def demo_memory_def demo_send_def demo_receive_def min_def)

lemma answering_laws [simp]: "system_laws answering_kernel answering_ctl answering_gai demo_memory (set \<circ> fst)"
  unfolding system_laws_def
proof (intro conjI answering_io_laws answering_fd_laws)
  show "transfers_keep (set \<circ> fst) answering_kernel demo_memory" "single_call_law answering_kernel"
    "\<forall>s bufs. send_law answering_kernel s bufs" "\<forall>s bufs. recv_law answering_kernel s bufs"
    "sets_up_only (wire demo_memory) answering_kernel answering_ctl"
    "gai_keeps (set \<circ> fst) answering_gai" "gai_keeps (wire demo_memory) answering_gai"
    by (auto simp: transfers_keep_def single_call_law_def send_law_def recv_law_def sets_up_only_def gai_keeps_def
        keeps_def answering_kernel_def demo_memory_def demo_send_def demo_receive_def on_fds_def answering_ctl_def
        answering_gai_def fd_kernel_def)
qed

lemma answering_lets_through: "lets_through answering_kernel" "single_call_law answering_kernel"
  unfolding lets_through_def
  by (intro allI conjI exI [of _ 0]; subst becomes_ready.simps)
     (auto simp: answering_kernel_def demo_send_def demo_receive_def single_call_law_def split: prod.splits)

lemma client_session_exit:
  assumes "loadFile fs (mInputPath options) = Some d" "splittable (mHorcruxCount options) d"
    "client_session S pad rd options fs s = Some (e, s')"
  shows "e = Exit 0"
  using assms(3) getHorcruxes_file [OF assms(1,2)]
  by (auto simp: client_session_def Let_def map_option_case split: if_splits sum.splits option.splits prod.splits)

theorem client_on_socket_witness:
  "\<exists>w' scr d. client_program answering_kernel answering_ctl answering_gai demo_memory
       [''./horcrux'', ''save'', ''-n'', dec_string 2, ''pic.png''] (CHR 0x00, CHR 0x00, CHR 0x00, CHR 0x00) 5 demo_disk
       ([7], '''', '''') = Some (Exit 0, w') \<and> wire demo_memory w' = d \<and> set (fst w') = {7} \<and>
     client_main script_stream [''./horcrux'', ''save'', ''-n'', dec_string 2, ''pic.png''] no_error
       (CHR 0x00, CHR 0x00, CHR 0x00, CHR 0x00) 5 demo_disk \<lparr>script = scr, sent = ''''\<rparr> =
     Some (Exit 0, \<lparr>script = [], sent = d\<rparr>)"
proof -
  let ?argv = "[''./horcrux'', ''save'', ''-n'', dec_string 2, ''pic.png'']" and ?pad = "(CHR 0x00, CHR 0x00, CHR 0x00, CHR 0x00)"
  let ?options = "\<lparr>mHorcruxCount = word_of_nat 2, mInputPath = ''pic.png''\<rparr>"
  let ?w = "([7], '''', '''') :: demo_world"
  obtain cr impl w1 where connected: "client_connected answering_kernel answering_ctl answering_gai ?w = (cr, impl, w1)"
    by (metis prod.exhaust)
  have "fst (client_connected answering_kernel answering_ctl answering_gai ?w) = no_error"
    by code_simp
  then have cr: "cr = no_error"
    by (simp only: connected fst_conv)
  have exits: "e = Exit 0" if "client_main script_stream ?argv no_error ?pad 5 demo_disk s = Some (e, s')" for e s s'
    using that client_session_exit [of demo_disk ?options "''AAB''" script_stream ?pad 5 s e s']
    by (simp add: client_main_def parse_save loadFile_eq demo_disk_def empty_disk_def splittable_def)
  obtain e w' where program: "client_program answering_kernel answering_ctl answering_gai demo_memory ?argv ?pad 5 demo_disk ?w = Some (e, w')"
    using client_program_returns [OF answering_lets_through] by (metis option.exhaust prod.exhaust)
  obtain scr d where d: "wire demo_memory w' = wire demo_memory ?w @ d"
    "client_main script_stream ?argv no_error ?pad 5 demo_disk \<lparr>script = scr, sent = ''''\<rparr> = Some (e, \<lparr>script = [], sent = d\<rparr>)"
    "(\<forall>err. e \<noteq> Undefined err) \<longrightarrow> (set \<circ> fst) w' = (set \<circ> fst) ?w"
    using client_on_socket [OF answering_laws, where w = ?w and argv = ?argv and pad = ?pad and rd = 5 and fs = demo_disk,
      unfolded connected program cr prod.case option.case]
    by blast
  moreover from d(2) have "e = Exit 0"
    by (rule exits)
  ultimately show ?thesis
    using program by (intro exI [of _ w'] exI [of _ scr] exI [of _ d]) (simp add: demo_memory_def)
qed

theorem connected_socket_type_witness:
  "\<exists>impl w'. client_connected answering_kernel answering_ctl answering_gai ([7], '''', '''') = (no_error, impl, w') \<and>
     is_open impl \<and> has_flag (impl_state impl) stream_oriented"
proof -
  obtain ec impl w' where run: "client_connected answering_kernel answering_ctl answering_gai ([7], '''', '''') = (ec, impl, w')"
    by (metis prod.exhaust)
  have "fst (client_connected answering_kernel answering_ctl answering_gai ([7], '''', '''')) = no_error"
    by code_simp
  then have ec: "ec = no_error"
    by (simp only: run fst_conv)
  then have "\<not> failed ec"
    by simp
  from connected_socket_type [OF run this] show ?thesis
    unfolding run ec by blast
qed

end
