(* ===== verification/Asio_Clock.thy ===== *)
theory Asio_Clock
  imports Asio_Error "HOL-Library.Monad_Syntax"
begin

text \<open>
  Model of the clock arithmetic of \<open>asio/detail/chrono_time_traits.hpp\<close> for \<open>std::chrono::steady_clock\<close>: times
  and durations are counts of nanoseconds in a signed integer of 64 bit. The theory shows that
  sums and differences saturate and that no intermediate result overflows.
\<close>

section \<open>The clock\<close>

text \<open>Signed arithmetic in 64 bit; a result that does not fit would be undefined behaviour.\<close>

definition int64_min :: int where "int64_min = - (2 ^ 63)"
definition int64_max :: int where "int64_max = 2 ^ 63 - 1"

definition wrap64 :: "int \<Rightarrow> int" where
  "wrap64 x = (x + 2 ^ 63) mod 2 ^ 64 - 2 ^ 63"

definition time_less_than :: "int \<Rightarrow> int \<Rightarrow> bool" where
  "time_less_than t1 t2 \<longleftrightarrow> t1 < t2"

definition add_time :: "int \<Rightarrow> int \<Rightarrow> int" where
  "add_time t d =
     (if t \<ge> 0 then if wrap64 (int64_max - t) < d then int64_max else wrap64 (t + d)
      else if wrap64 (- wrap64 (t - int64_min)) > d then int64_min else wrap64 (t + d))"

definition subtract_time :: "int \<Rightarrow> int \<Rightarrow> int" where
  "subtract_time t1 t2 =
     (if t1 \<ge> 0 then
        if t2 \<ge> 0 then wrap64 (t1 - t2)
        else if t2 = int64_min then int64_max
        else if wrap64 (int64_max - t1) < wrap64 (0 - t2) then int64_max
        else wrap64 (t1 - t2)
      else
        if t2 < 0 then wrap64 (t1 - t2)
        else if t1 = int64_min then int64_min
        else if wrap64 (int64_max - t2) < wrap64 (0 - t1) then int64_min
        else wrap64 (- wrap64 (t2 - t1)))"

text \<open>
  The same functions with the overflow of signed integers as what it is in C++: an intermediate result
  that does not fit is undefined behaviour, which is \<open>None\<close>.
\<close>

definition in_int64 :: "int \<Rightarrow> bool" where
  "in_int64 x \<longleftrightarrow> int64_min \<le> x \<and> x \<le> int64_max"

definition int64_result :: "int \<Rightarrow> int option" where
  "int64_result x = (if in_int64 x then Some x else None)"

definition add_time_defined :: "int \<Rightarrow> int \<Rightarrow> int option" where
  "add_time_defined t d =
     (if t \<ge> 0 then do {
        room \<leftarrow> int64_result (int64_max - t);
        if room < d then Some int64_max else int64_result (t + d) }
      else do {
        above \<leftarrow> int64_result (t - int64_min);
        below \<leftarrow> int64_result (- above);
        if below > d then Some int64_min else int64_result (t + d) })"

definition subtract_time_defined :: "int \<Rightarrow> int \<Rightarrow> int option" where
  "subtract_time_defined t1 t2 =
     (if t1 \<ge> 0 then
        if t2 \<ge> 0 then int64_result (t1 - t2)
        else if t2 = int64_min then Some int64_max
        else do {
          room \<leftarrow> int64_result (int64_max - t1);
          distance \<leftarrow> int64_result (0 - t2);
          if room < distance then Some int64_max else int64_result (t1 - t2) }
      else
        if t2 < 0 then int64_result (t1 - t2)
        else if t1 = int64_min then Some int64_min
        else do {
          room \<leftarrow> int64_result (int64_max - t2);
          distance \<leftarrow> int64_result (0 - t1);
          if room < distance then Some int64_min
          else do { difference \<leftarrow> int64_result (t2 - t1); int64_result (- difference) } })"

text \<open>
  The durations for waiting: \<open>wait_traits\<close> leaves a duration as it is, and the casts divide by the
  number of nanoseconds in a unit. C++ division truncates; a duration that is divided is positive.
\<close>

definition total_seconds :: "int \<Rightarrow> int" where
  "total_seconds ticks = (if ticks < 0 then - (- ticks div 1000000000) else ticks div 1000000000)"

definition total_milliseconds :: "int \<Rightarrow> int" where
  "total_milliseconds ticks = (if ticks < 0 then - (- ticks div 1000000) else ticks div 1000000)"

definition total_microseconds :: "int \<Rightarrow> int" where
  "total_microseconds ticks = (if ticks < 0 then - (- ticks div 1000) else ticks div 1000)"

section \<open>Saturation\<close>

definition saturate64 :: "int \<Rightarrow> int" where
  "saturate64 x = max int64_min (min int64_max x)"

lemma int64_limits: "int64_min = - int64_max - 1" "0 < int64_max"
  by (simp_all add: int64_min_def int64_max_def)

lemma wrap64_id: "int64_min \<le> x \<Longrightarrow> x \<le> int64_max \<Longrightarrow> wrap64 x = x"
  by (simp add: wrap64_def int64_min_def int64_max_def)

lemma subtract_saturates:
  assumes "in_int64 t1" "in_int64 t2"
  shows "subtract_time t1 t2 = saturate64 (t1 - t2)"
proof -
  have range: "- int64_max - 1 \<le> t1" "t1 \<le> int64_max" "- int64_max - 1 \<le> t2" "t2 \<le> int64_max"
    using assms by (simp_all add: in_int64_def int64_limits)
  consider "t1 \<ge> 0" "t2 \<ge> 0" | "t1 < 0" "t2 < 0" | "t1 \<ge> 0" "t2 < 0" | "t1 < 0" "t2 \<ge> 0"
    by linarith
  then show ?thesis
  proof cases
    case 3
    then have "wrap64 (int64_max - t1) = int64_max - t1" "t2 \<noteq> int64_min \<Longrightarrow> wrap64 (0 - t2) = 0 - t2"
      "t1 - t2 \<le> int64_max \<Longrightarrow> wrap64 (t1 - t2) = t1 - t2"
      using range int64_limits by (intro wrap64_id; linarith)+
    then show ?thesis
      using 3 range int64_limits by (auto simp: subtract_time_def saturate64_def)
  next
    case 4
    then have "wrap64 (int64_max - t2) = int64_max - t2" "t1 \<noteq> int64_min \<Longrightarrow> wrap64 (0 - t1) = 0 - t1"
      "t2 - t1 \<le> int64_max \<Longrightarrow> wrap64 (t2 - t1) = t2 - t1" "t2 - t1 \<le> int64_max \<Longrightarrow> wrap64 (- (t2 - t1)) = - (t2 - t1)"
      using range int64_limits by (intro wrap64_id; linarith)+
    then show ?thesis
      using 4 range int64_limits by (auto simp: subtract_time_def saturate64_def)
  qed (use range int64_limits wrap64_id [of "t1 - t2"] in \<open>auto simp: subtract_time_def saturate64_def\<close>)
qed

lemma add_saturates:
  assumes "in_int64 t" "in_int64 d"
  shows "add_time t d = saturate64 (t + d)"
proof -
  have range: "- int64_max - 1 \<le> t" "t \<le> int64_max" "- int64_max - 1 \<le> d" "d \<le> int64_max"
    using assms by (simp_all add: in_int64_def int64_limits)
  have sum: "int64_min \<le> t + d \<Longrightarrow> t + d \<le> int64_max \<Longrightarrow> wrap64 (t + d) = t + d"
    by (rule wrap64_id)
  show ?thesis
  proof (cases "t \<ge> 0")
    case True
    then have "wrap64 (int64_max - t) = int64_max - t"
      using range int64_limits by (intro wrap64_id) linarith+
    then show ?thesis
      using True range int64_limits sum by (auto simp: add_time_def saturate64_def)
  next
    case False
    then have "wrap64 (t - int64_min) = t - int64_min" "wrap64 (- (t - int64_min)) = - (t - int64_min)"
      using range int64_limits by (intro wrap64_id; linarith)+
    then show ?thesis
      using False range int64_limits sum by (auto simp: add_time_def saturate64_def)
  qed
qed

lemma subtract_defined:
  assumes "in_int64 t1" "in_int64 t2"
  shows "subtract_time_defined t1 t2 = Some (saturate64 (t1 - t2))"
  using assms int64_limits
  by (auto simp: subtract_time_defined_def int64_result_def in_int64_def saturate64_def)

lemma add_defined:
  assumes "in_int64 t" "in_int64 d"
  shows "add_time_defined t d = Some (saturate64 (t + d))"
  using assms int64_limits
  by (auto simp: add_time_defined_def int64_result_def in_int64_def saturate64_def)

text \<open>
  C30. The sums and differences of the clock, on every branch: for all times and durations of 64 bit
  the result is the exact one if it fits, and otherwise the nearest value that does. No
  intermediate result overflows, although every operation is one of 64 bit: the functions in which an
  overflow is undefined behaviour are defined, with the same results.
\<close>

theorem clock_saturates:
  assumes "in_int64 t" "in_int64 t'" "in_int64 d"
  shows "subtract_time_defined t t' = Some (saturate64 (t - t')) \<and> add_time_defined t d = Some (saturate64 (t + d)) \<and>
    subtract_time t t' = saturate64 (t - t') \<and> add_time t d = saturate64 (t + d)"
  using assms subtract_saturates add_saturates subtract_defined add_defined by blast

theorem clock_saturates_witness:
  "subtract_time 5 (- (2 ^ 63)) = 2 ^ 63 - 1 \<and> subtract_time (-3) (2 ^ 63 - 1) = - (2 ^ 63) \<and>
   add_time 7 (2 ^ 63 - 1) = 2 ^ 63 - 1"
  using clock_saturates [of 5 "- (2 ^ 63)" 0] clock_saturates [of "-3" "2 ^ 63 - 1" 0] clock_saturates [of 7 0 "2 ^ 63 - 1"]
  by (simp add: in_int64_def saturate64_def int64_min_def int64_max_def)

end
