(* ===== verification/Asio_Timer_Queue.thy ===== *)
theory Asio_Timer_Queue
  imports Asio_Clock "HOL-Library.Multiset"
begin

text \<open>
  Model of \<open>asio/detail/timer_queue.hpp\<close>: the active timers of a service, which are in a doubly linked
  list and, by their expiry, in a binary heap whose entries and timers refer to each other. Timers
  are addresses of \<open>per_timer_data\<close> objects in a store; times are those of \<open>Asio_Clock\<close>. The queues of
  waiting operations are lists (see \<open>Asio_Op_Queue\<close>). The theory shows that the parts of the operations
  keep the heap, its indices and the list consistent; \<open>Asio_Timers\<close> has the operations as a whole.
\<close>

section \<open>State\<close>

record wait_op =
  wait_id :: nat
  wait_ec :: error_code
  wait_key :: nat

record per_timer_data =
  td_queue :: "wait_op list"
  heap_index :: nat
  td_next :: "nat option"
  td_prev :: "nat option"

definition size_max :: nat where
  "size_max = 2 ^ 64 - 1"

definition new_timer_data :: per_timer_data where
  "new_timer_data = \<lparr>td_queue = [], heap_index = size_max, td_next = None, td_prev = None\<rparr>"

record heap_entry =
  he_time :: int
  he_timer :: nat

record timer_queue =
  tq_timers :: "nat option"
  tq_heap :: "heap_entry list"
  tq_data :: "nat \<Rightarrow> per_timer_data"

definition new_timer_queue :: timer_queue where
  "new_timer_queue = \<lparr>tq_timers = None, tq_heap = [], tq_data = (\<lambda>_. new_timer_data)\<rparr>"

text \<open>An assignment to members of the object at an address.\<close>

definition set_data :: "nat \<Rightarrow> (per_timer_data \<Rightarrow> per_timer_data) \<Rightarrow> timer_queue \<Rightarrow> timer_queue" where
  "set_data t f q = q\<lparr>tq_data := (tq_data q)(t := f (tq_data q t))\<rparr>"

fun set_at :: "nat option \<Rightarrow> (per_timer_data \<Rightarrow> per_timer_data) \<Rightarrow> timer_queue \<Rightarrow> timer_queue" where
  "set_at None f q = q"
| "set_at (Some t) f q = set_data t f q"

section \<open>Durations\<close>

definition to_msec :: "int \<Rightarrow> int \<Rightarrow> int" where
  "to_msec d max_duration =
     (if d \<le> 0 then 0
      else let msec = total_milliseconds d
           in if msec = 0 then 1 else if msec > max_duration then max_duration else msec)"

definition to_usec :: "int \<Rightarrow> int \<Rightarrow> int" where
  "to_usec d max_duration =
     (if d \<le> 0 then 0
      else let usec = total_microseconds d
           in if usec = 0 then 1 else if usec > max_duration then max_duration else usec)"

definition is_positive_infinity :: "int \<Rightarrow> bool" where
  "is_positive_infinity time = False"

section \<open>The heap\<close>

definition time_at :: "timer_queue \<Rightarrow> nat \<Rightarrow> int" where
  "time_at q i = he_time (tq_heap q ! i)"

definition swap_heap :: "nat \<Rightarrow> nat \<Rightarrow> timer_queue \<Rightarrow> timer_queue" where
  "swap_heap index1 index2 q =
     (let heap = tq_heap q; heap' = heap[index1 := heap ! index2, index2 := heap ! index1]
      in set_data (he_timer (heap' ! index2)) (heap_index_update (\<lambda>_. index2))
           (set_data (he_timer (heap' ! index1)) (heap_index_update (\<lambda>_. index1)) (q\<lparr>tq_heap := heap'\<rparr>)))"

fun up_heap :: "nat \<Rightarrow> timer_queue \<Rightarrow> timer_queue" where
  "up_heap index q =
     (if index > 0 then
        let parent = (index - 1) div 2
        in if \<not> time_less_than (time_at q index) (time_at q parent) then q
           else up_heap parent (swap_heap index parent q)
      else q)"

lemma swap_heap_length [simp]: "length (tq_heap (swap_heap i j q)) = length (tq_heap q)"
  by (simp add: swap_heap_def set_data_def Let_def)

function down_heap :: "nat \<Rightarrow> timer_queue \<Rightarrow> timer_queue" where
  "down_heap index q =
     (let child = index * 2 + 1
      in if child < length (tq_heap q) then
           let min_child = (if child + 1 = length (tq_heap q) \<or> time_less_than (time_at q child) (time_at q (child + 1))
                            then child else child + 1)
           in if time_less_than (time_at q index) (time_at q min_child) then q
              else down_heap min_child (swap_heap index min_child q)
         else q)"
  by pat_completeness auto

termination
  by (relation "measure (\<lambda>(index, q). length (tq_heap q) - index)") (auto split: if_splits)

declare up_heap.simps [simp del] down_heap.simps [simp del]

definition pop_heap_back :: "nat \<Rightarrow> timer_queue \<Rightarrow> timer_queue" where
  "pop_heap_back t q =
     (let q1 = set_data t (heap_index_update (\<lambda>_. size_max)) q in q1\<lparr>tq_heap := butlast (tq_heap q1)\<rparr>)"

text \<open>The two parts of \<open>remove_timer\<close>: the heap and the linked list.\<close>

definition remove_from_heap :: "nat \<Rightarrow> timer_queue \<Rightarrow> timer_queue" where
  "remove_from_heap t q =
     (let index = heap_index (tq_data q t)
      in if tq_heap q \<noteq> [] \<and> index < length (tq_heap q) then
           if index = length (tq_heap q) - 1 then pop_heap_back t q
           else
             let q1 = pop_heap_back t (swap_heap index (length (tq_heap q) - 1) q)
             in if index > 0 \<and> time_less_than (time_at q1 index) (time_at q1 ((index - 1) div 2)) then up_heap index q1
                else down_heap index q1
         else q)"

definition unlink_timer :: "nat \<Rightarrow> timer_queue \<Rightarrow> timer_queue" where
  "unlink_timer t q =
     (let q1 = (if tq_timers q = Some t then q\<lparr>tq_timers := td_next (tq_data q t)\<rparr> else q);
          q2 = set_at (td_prev (tq_data q1 t)) (td_next_update (\<lambda>_. td_next (tq_data q1 t))) q1;
          q3 = set_at (td_next (tq_data q2 t)) (td_prev_update (\<lambda>_. td_prev (tq_data q2 t))) q2
      in set_data t (\<lambda>d. d\<lparr>td_next := None, td_prev := None\<rparr>) q3)"

definition remove_timer :: "nat \<Rightarrow> timer_queue \<Rightarrow> timer_queue" where
  "remove_timer t q = unlink_timer t (remove_from_heap t q)"

section \<open>Operations\<close>

text \<open>The condition by which the code tells that a timer is in the list.\<close>

definition is_active :: "nat \<Rightarrow> timer_queue \<Rightarrow> bool" where
  "is_active t q \<longleftrightarrow> td_prev (tq_data q t) \<noteq> None \<or> tq_timers q = Some t"

definition link_timer :: "nat \<Rightarrow> timer_queue \<Rightarrow> timer_queue" where
  "link_timer t q =
     (let q1 = set_data t (\<lambda>d. d\<lparr>td_next := tq_timers q, td_prev := None\<rparr>) q
      in (set_at (tq_timers q1) (td_prev_update (\<lambda>_. Some t)) q1)\<lparr>tq_timers := Some t\<rparr>)"

definition insert_in_heap :: "int \<Rightarrow> nat \<Rightarrow> timer_queue \<Rightarrow> timer_queue" where
  "insert_in_heap time t q =
     (if is_positive_infinity time then set_data t (heap_index_update (\<lambda>_. size_max)) q
      else
        let q1 = set_data t (heap_index_update (\<lambda>_. length (tq_heap q))) q;
            q2 = q1\<lparr>tq_heap := tq_heap q1 @ [\<lparr>he_time = time, he_timer = t\<rparr>]\<rparr>
        in up_heap (length (tq_heap q2) - 1) q2)"

definition enqueue_timer :: "int \<Rightarrow> nat \<Rightarrow> wait_op \<Rightarrow> timer_queue \<Rightarrow> bool \<times> timer_queue" where
  "enqueue_timer time t op q =
     (let q1 = (if \<not> is_active t q then link_timer t (insert_in_heap time t q) else q);
          q2 = set_data t (\<lambda>d. d\<lparr>td_queue := td_queue d @ [op]\<rparr>) q1
      in (heap_index (tq_data q2 t) = 0 \<and> wait_id (hd (td_queue (tq_data q2 t))) = wait_id op, q2))"

definition timers_empty :: "timer_queue \<Rightarrow> bool" where
  "timers_empty q \<longleftrightarrow> tq_timers q = None"

text \<open>\<open>now\<close> is what the clock shows.\<close>

definition wait_duration_msec :: "int \<Rightarrow> int \<Rightarrow> timer_queue \<Rightarrow> int" where
  "wait_duration_msec now max_duration q =
     (if tq_heap q = [] then max_duration else to_msec (subtract_time (time_at q 0) now) max_duration)"

definition wait_duration_usec :: "int \<Rightarrow> int \<Rightarrow> timer_queue \<Rightarrow> int" where
  "wait_duration_usec now max_duration q =
     (if tq_heap q = [] then max_duration else to_usec (subtract_time (time_at q 0) now) max_duration)"

text \<open>The inner loop of \<open>get_ready_timers\<close>: the operations leave their queue one by one.\<close>

fun drain_ready :: "wait_op list \<Rightarrow> wait_op list \<Rightarrow> wait_op list" where
  "drain_ready [] ops = ops"
| "drain_ready (op # rest) ops = drain_ready rest (ops @ [op\<lparr>wait_ec := no_error\<rparr>])"

partial_function (option) ready_loop :: "int \<Rightarrow> wait_op list \<Rightarrow> timer_queue \<Rightarrow> (wait_op list \<times> timer_queue) option" where
  [code]: "ready_loop now ops q =
     (if tq_heap q \<noteq> [] \<and> \<not> time_less_than now (time_at q 0) then
        let t = he_timer (tq_heap q ! 0);
            ops' = drain_ready (td_queue (tq_data q t)) ops
        in ready_loop now ops' (remove_timer t (set_data t (td_queue_update (\<lambda>_. [])) q))
      else Some (ops, q))"

definition get_ready_timers :: "int \<Rightarrow> wait_op list \<Rightarrow> timer_queue \<Rightarrow> (wait_op list \<times> timer_queue) option" where
  "get_ready_timers now ops q = (if tq_heap q \<noteq> [] then ready_loop now ops q else Some (ops, q))"

partial_function (option) all_loop :: "wait_op list \<Rightarrow> timer_queue \<Rightarrow> (wait_op list \<times> timer_queue) option" where
  [code]: "all_loop ops q = (case tq_timers q of
      None \<Rightarrow> Some (ops, q)
    | Some t \<Rightarrow>
        let q1 = q\<lparr>tq_timers := td_next (tq_data q t)\<rparr>;
            ops' = ops @ td_queue (tq_data q1 t)
        in all_loop ops' (set_data t (\<lambda>d. d\<lparr>td_queue := [], td_next := None, td_prev := None\<rparr>) q1))"

definition get_all_timers :: "wait_op list \<Rightarrow> timer_queue \<Rightarrow> (wait_op list \<times> timer_queue) option" where
  "get_all_timers ops q = map_option (\<lambda>(ops', q'). (ops', q'\<lparr>tq_heap := []\<rparr>)) (all_loop ops q)"

text \<open>The loop of \<open>cancel_timer\<close>: what stays in the queue, the operations, and the count.\<close>

fun cancel_loop :: "nat \<Rightarrow> wait_op list \<Rightarrow> wait_op list \<Rightarrow> nat \<Rightarrow> wait_op list \<times> wait_op list \<times> nat" where
  "cancel_loop max_cancelled [] ops n = ([], ops, n)"
| "cancel_loop max_cancelled (op # rest) ops n =
     (if n \<noteq> max_cancelled then
        cancel_loop max_cancelled rest (ops @ [op\<lparr>wait_ec := basic_ec operation_aborted\<rparr>]) (n + 1)
      else (op # rest, ops, n))"

definition remove_if_empty :: "nat \<Rightarrow> timer_queue \<Rightarrow> timer_queue" where
  "remove_if_empty t q = (if td_queue (tq_data q t) = [] then remove_timer t q else q)"

definition tq_cancel_timer ::
  "nat \<Rightarrow> wait_op list \<Rightarrow> nat \<Rightarrow> timer_queue \<Rightarrow> nat \<times> wait_op list \<times> timer_queue" where
  "tq_cancel_timer t ops max_cancelled q =
     (if is_active t q then
        let (rest, ops', n) = cancel_loop max_cancelled (td_queue (tq_data q t)) ops 0
        in (n, ops', remove_if_empty t (set_data t (td_queue_update (\<lambda>_. rest)) q))
      else (0, ops, q))"

text \<open>The loop of \<open>cancel_timer_by_key\<close>: the operations with the key, and the others.\<close>

fun by_key_loop :: "nat \<Rightarrow> wait_op list \<Rightarrow> wait_op list \<Rightarrow> wait_op list \<Rightarrow> wait_op list \<times> wait_op list" where
  "by_key_loop key [] ops other_ops = (ops, other_ops)"
| "by_key_loop key (op # rest) ops other_ops =
     (if wait_key op = key then by_key_loop key rest (ops @ [op\<lparr>wait_ec := basic_ec operation_aborted\<rparr>]) other_ops
      else by_key_loop key rest ops (other_ops @ [op]))"

definition tq_cancel_timer_by_key :: "nat \<Rightarrow> wait_op list \<Rightarrow> nat \<Rightarrow> timer_queue \<Rightarrow> wait_op list \<times> timer_queue" where
  "tq_cancel_timer_by_key t ops key q =
     (if is_active t q then
        let (ops', other_ops) = by_key_loop key (td_queue (tq_data q t)) ops []
        in (ops', remove_if_empty t (set_data t (td_queue_update (\<lambda>_. other_ops)) q))
      else (ops, q))"

text \<open>The three parts of \<open>move_timer\<close>: the operations, the entry of the heap, and the links.\<close>

definition move_waits :: "nat \<Rightarrow> nat \<Rightarrow> timer_queue \<Rightarrow> timer_queue" where
  "move_waits target source q =
     set_data source (td_queue_update (\<lambda>_. []))
       (set_data target (\<lambda>d. d\<lparr>td_queue := td_queue d @ td_queue (tq_data q source)\<rparr>) q)"

definition move_entry :: "nat \<Rightarrow> nat \<Rightarrow> timer_queue \<Rightarrow> timer_queue" where
  "move_entry target source q =
     (let q1 = set_data target (heap_index_update (\<lambda>_. heap_index (tq_data q source))) q;
          q2 = set_data source (heap_index_update (\<lambda>_. size_max)) q1;
          index = heap_index (tq_data q2 target)
      in if index < length (tq_heap q2)
         then q2\<lparr>tq_heap := (tq_heap q2)[index := (tq_heap q2 ! index)\<lparr>he_timer := target\<rparr>]\<rparr> else q2)"

definition move_links :: "nat \<Rightarrow> nat \<Rightarrow> timer_queue \<Rightarrow> timer_queue" where
  "move_links target source q =
     (let q1 = (if tq_timers q = Some source then q\<lparr>tq_timers := Some target\<rparr> else q);
          q2 = set_at (td_prev (tq_data q1 source)) (td_next_update (\<lambda>_. Some target)) q1;
          q3 = set_at (td_next (tq_data q2 source)) (td_prev_update (\<lambda>_. Some target)) q2;
          q4 = set_data target (\<lambda>d. d\<lparr>td_next := td_next (tq_data q3 source), td_prev := td_prev (tq_data q3 source)\<rparr>) q3
      in set_data source (\<lambda>d. d\<lparr>td_next := None, td_prev := None\<rparr>) q4)"

definition tq_move_timer :: "nat \<Rightarrow> nat \<Rightarrow> timer_queue \<Rightarrow> timer_queue" where
  "tq_move_timer target source q = move_links target source (move_entry target source (move_waits target source q))"

section \<open>The order of the heap\<close>

text \<open>Expiry times by index: the parent of \<open>k\<close> is at \<open>(k - 1) div 2\<close>.\<close>

definition heap_ordered :: "(nat \<Rightarrow> int) \<Rightarrow> nat \<Rightarrow> bool" where
  "heap_ordered f n \<longleftrightarrow> (\<forall>k. 0 < k \<and> k < n \<longrightarrow> f ((k - 1) div 2) \<le> f k)"

text \<open>Ordered but for the element at \<open>i\<close>, whose place its parent and its children could share.\<close>

definition ordered_but :: "(nat \<Rightarrow> int) \<Rightarrow> nat \<Rightarrow> nat \<Rightarrow> bool" where
  "ordered_but f n i \<longleftrightarrow>
     (\<forall>k. 0 < k \<and> k < n \<and> k \<noteq> i \<and> (k - 1) div 2 \<noteq> i \<longrightarrow> f ((k - 1) div 2) \<le> f k) \<and>
     (0 < i \<longrightarrow> (\<forall>k. 0 < k \<and> k < n \<and> (k - 1) div 2 = i \<longrightarrow> f ((i - 1) div 2) \<le> f k))"

definition above_children :: "(nat \<Rightarrow> int) \<Rightarrow> nat \<Rightarrow> nat \<Rightarrow> bool" where
  "above_children f n i \<longleftrightarrow> (\<forall>k. 0 < k \<and> k < n \<and> (k - 1) div 2 = i \<longrightarrow> f i \<le> f k)"

lemma heap_orderedI:
  "ordered_but f n i \<Longrightarrow> above_children f n i \<Longrightarrow> 0 < i \<longrightarrow> f ((i - 1) div 2) \<le> f i \<Longrightarrow> heap_ordered f n"
  unfolding heap_ordered_def ordered_but_def above_children_def by metis

lemma heap_ordered_but:
  assumes "heap_ordered f n" "i < n" "\<And>k. k \<noteq> i \<Longrightarrow> k < m \<Longrightarrow> g k = f k" "m \<le> n"
  shows "ordered_but g m i"
  unfolding ordered_but_def
proof (intro conjI allI impI; elim conjE)
  fix k
  assume k: "0 < k" "k < m" "k \<noteq> i" "(k - 1) div 2 \<noteq> i"
  moreover from k have "(k - 1) div 2 < m"
    by linarith
  ultimately show "g ((k - 1) div 2) \<le> g k"
    using assms by (simp add: heap_ordered_def)
next
  fix k
  assume "0 < i" and k: "0 < k" "k < m" "(k - 1) div 2 = i"
  then have less: "i < k" "(i - 1) div 2 < i"
    by linarith+
  then have "f ((i - 1) div 2) \<le> f i" "f i \<le> f k"
    using assms(1,2,4) k \<open>0 < i\<close> unfolding heap_ordered_def by auto
  then show "g ((i - 1) div 2) \<le> g k"
    using assms(3) [of k] assms(3) [of "(i - 1) div 2"] less k(2) by auto
qed

lemma heap_ordered_root:
  assumes "heap_ordered f n" "k < n"
  shows "f 0 \<le> f k"
  using assms(2)
proof (induction k rule: less_induct)
  case (less k)
  show ?case
  proof (cases "k = 0")
    case False
    then have "(k - 1) div 2 < k"
      by linarith
    with less have "f 0 \<le> f ((k - 1) div 2)"
      by simp
    also have "\<dots> \<le> f k"
      using assms(1) False less.prems by (simp add: heap_ordered_def)
    finally show ?thesis .
  qed simp
qed

lemma ordered_but_up:
  assumes "ordered_but f n i" "above_children f n i" "0 < i" "i < n" "p = (i - 1) div 2" "f i < f p"
  defines "g \<equiv> f(i := f p, p := f i)"
  shows "ordered_but g n p" "above_children g n p"
proof -
  have less: "p < i" "(p - 1) div 2 \<le> p" "0 < p \<longrightarrow> (p - 1) div 2 < p"
    using assms(3,5) by linarith+
  have anc: "0 < k \<Longrightarrow> k < n \<Longrightarrow> k \<noteq> i \<Longrightarrow> (k - 1) div 2 \<noteq> i \<Longrightarrow> f ((k - 1) div 2) \<le> f k"
    and gap: "0 < k \<Longrightarrow> k < n \<Longrightarrow> (k - 1) div 2 = i \<Longrightarrow> f p \<le> f k" for k
    using assms(1,3,5) unfolding ordered_but_def by blast+
  have up: "0 < p \<Longrightarrow> f ((p - 1) div 2) \<le> f p"
    using anc [of p] less assms(4) by linarith
  have sibling: "f p \<le> f k" if "0 < k" "k < n" "(k - 1) div 2 = p" "k \<noteq> i" for k
    using anc [of k] that less(1) by auto
  show "above_children g n p"
    unfolding above_children_def
  proof (intro allI impI, elim conjE)
    fix k
    assume k: "0 < k" "k < n" "(k - 1) div 2 = p"
    then have "k \<noteq> p"
      by auto
    then show "g p \<le> g k"
      using sibling [OF k] assms(6) less(1) by (cases "k = i") (auto simp: g_def)
  qed
  show "ordered_but g n p"
    unfolding ordered_but_def
  proof (intro conjI allI impI; elim conjE)
    fix k
    assume k: "0 < k" "k < n" "k \<noteq> p" "(k - 1) div 2 \<noteq> p"
    then have "k \<noteq> i"
      using assms(5) by blast
    then show "g ((k - 1) div 2) \<le> g k"
      using anc [of k] gap [of k] k by (cases "(k - 1) div 2 = i") (auto simp: g_def)
  next
    fix k
    assume "0 < p" and k: "0 < k" "k < n" "(k - 1) div 2 = p"
    then have "k \<noteq> p"
      by auto
    then show "g ((p - 1) div 2) \<le> g k"
      using up [OF \<open>0 < p\<close>] sibling [OF k] less \<open>0 < p\<close> by (cases "k = i") (auto simp: g_def)
  qed
qed

lemma ordered_but_down:
  assumes "ordered_but f n i" "0 < i \<longrightarrow> f ((i - 1) div 2) \<le> f i" "0 < c" "c < n" "(c - 1) div 2 = i" "f c \<le> f i"
    and "\<And>k. 0 < k \<Longrightarrow> k < n \<Longrightarrow> (k - 1) div 2 = i \<Longrightarrow> f c \<le> f k"
  defines "g \<equiv> f(i := f c, c := f i)"
  shows "ordered_but g n c" "g ((c - 1) div 2) \<le> g c"
proof -
  have less: "i < c"
    using assms(3,5) by auto
  show "g ((c - 1) div 2) \<le> g c"
    using assms(5,6) less by (simp add: g_def)
  have anc: "0 < k \<Longrightarrow> k < n \<Longrightarrow> k \<noteq> i \<Longrightarrow> (k - 1) div 2 \<noteq> i \<Longrightarrow> f ((k - 1) div 2) \<le> f k" for k
    using assms(1) unfolding ordered_but_def by blast
  have gap: "0 < i \<Longrightarrow> f ((i - 1) div 2) \<le> f c"
    using assms(1,3,4,5) unfolding ordered_but_def by blast
  show "ordered_but g n c"
    unfolding ordered_but_def
  proof (intro conjI allI impI; elim conjE)
    fix k
    assume k: "0 < k" "k < n" "k \<noteq> c" "(k - 1) div 2 \<noteq> c"
    have "(k - 1) div 2 < k"
      using k(1) by linarith
    with k show "g ((k - 1) div 2) \<le> g k"
      using anc [of k] gap assms(7) [of k] by (cases "k = i"; cases "(k - 1) div 2 = i") (auto simp: g_def)
  next
    fix k
    assume k: "0 < k" "k < n" "(k - 1) div 2 = c"
    then have "k \<noteq> i" "k \<noteq> c"
      using less by auto
    then show "g ((c - 1) div 2) \<le> g k"
      using anc [of k] k less assms(5) by (auto simp: g_def)
  qed
qed

section \<open>Heap and indices\<close>

text \<open>The entry at index \<open>i\<close> refers to a timer with this index.\<close>

definition indexed :: "timer_queue \<Rightarrow> bool" where
  "indexed q \<longleftrightarrow> (\<forall>i < length (tq_heap q). heap_index (tq_data q (he_timer (tq_heap q ! i))) = i)"

abbreviation heap_timers :: "timer_queue \<Rightarrow> nat set" where
  "heap_timers q \<equiv> he_timer ` set (tq_heap q)"

text \<open>The same queue with the entries of the heap in another order.\<close>

definition rearranged :: "timer_queue \<Rightarrow> timer_queue \<Rightarrow> bool" where
  "rearranged q q' \<longleftrightarrow> indexed q' \<and> tq_timers q' = tq_timers q \<and> mset (tq_heap q') = mset (tq_heap q) \<and>
     (\<forall>t. (tq_data q' t)\<lparr>heap_index := 0\<rparr> = (tq_data q t)\<lparr>heap_index := 0\<rparr>) \<and>
     (\<forall>t. t \<notin> heap_timers q \<longrightarrow> tq_data q' t = tq_data q t)"

lemma indexed_distinct:
  assumes "indexed q"
  shows "distinct (map he_timer (tq_heap q))"
proof -
  have "map (heap_index \<circ> tq_data q) (map he_timer (tq_heap q)) = [0..<length (tq_heap q)]"
    using assms by (auto simp: indexed_def intro: nth_equalityI)
  then show ?thesis
    by (metis distinct_map distinct_upt)
qed

lemma indexed_eq:
  "indexed q \<Longrightarrow> i < length (tq_heap q) \<Longrightarrow> j < length (tq_heap q) \<Longrightarrow>
   he_timer (tq_heap q ! i) = he_timer (tq_heap q ! j) \<longleftrightarrow> i = j"
  using indexed_distinct [of q] by (metis length_map nth_eq_iff_index_eq nth_map)

lemma rearranged_refl: "indexed q \<Longrightarrow> rearranged q q"
  by (simp add: rearranged_def)

lemma rearranged_trans: "rearranged q1 q2 \<Longrightarrow> rearranged q2 q3 \<Longrightarrow> rearranged q1 q3"
  unfolding rearranged_def by (metis set_mset_mset)

lemma rearranged_length: "rearranged q q' \<Longrightarrow> length (tq_heap q') = length (tq_heap q)"
  unfolding rearranged_def by (metis size_mset)

lemma time_at_swap:
  assumes "i < length (tq_heap q)" "j < length (tq_heap q)"
  shows "time_at (swap_heap i j q) = (time_at q)(i := time_at q j, j := time_at q i)"
  using assms by (auto simp: fun_eq_iff time_at_def swap_heap_def set_data_def Let_def nth_list_update)

lemma swap_rearranged:
  assumes "indexed q" "i < length (tq_heap q)" "j < length (tq_heap q)"
  shows "rearranged q (swap_heap i j q)"
proof -
  let ?q = "swap_heap i j q"
  have heap: "tq_heap ?q = (tq_heap q)[i := tq_heap q ! j, j := tq_heap q ! i]"
    by (simp add: swap_heap_def set_data_def Let_def)
  have timers: "he_timer (tq_heap q ! k) \<in> heap_timers q" if "k < length (tq_heap q)" for k
    using that by simp
  have data: "tq_data ?q = (tq_data q)(he_timer (tq_heap q ! j) := (tq_data q (he_timer (tq_heap q ! j)))\<lparr>heap_index := i\<rparr>,
      he_timer (tq_heap q ! i) := (tq_data q (he_timer (tq_heap q ! i)))\<lparr>heap_index := j\<rparr>)"
    using assms by (auto simp: swap_heap_def set_data_def Let_def fun_eq_iff nth_list_update)
  have "indexed ?q"
    unfolding indexed_def heap data
    using assms indexed_eq [OF assms(1)] by (auto simp: nth_list_update indexed_def)
  moreover have "tq_data ?q t = tq_data q t" if "t \<notin> heap_timers q" for t
    using that timers [OF assms(2)] timers [OF assms(3)] by (auto simp: data)
  moreover have "mset (tq_heap ?q) = mset (tq_heap q)"
    unfolding heap by (rule mset_swap) (use assms in simp_all)
  moreover have "tq_timers ?q = tq_timers q"
    by (simp add: swap_heap_def set_data_def Let_def)
  ultimately show ?thesis
    by (auto simp: rearranged_def data)
qed

lemma up_heap_rearranged:
  assumes "indexed q" "i < length (tq_heap q)"
  shows "rearranged q (up_heap i q)"
  using assms
proof (induction i q rule: up_heap.induct)
  case (1 i q)
  let ?p = "(i - 1) div 2"
  show ?case
  proof (cases "i > 0 \<and> time_less_than (time_at q i) (time_at q ?p)")
    case True
    then have p: "?p < length (tq_heap q)"
      using "1.prems" by simp
    note swap = swap_rearranged [OF 1(2,3) p]
    then have "indexed (swap_heap i ?p q)"
      by (simp add: rearranged_def)
    then have "rearranged (swap_heap i ?p q) (up_heap ?p (swap_heap i ?p q))"
      using True p by (intro "1.IH") simp_all
    with swap have "rearranged q (up_heap ?p (swap_heap i ?p q))"
      by (rule rearranged_trans)
    then show ?thesis
      using True by (subst up_heap.simps) (simp add: Let_def)
  next
    case False
    then show ?thesis
      using "1.prems" by (subst up_heap.simps) (auto simp: rearranged_refl Let_def)
  qed
qed

lemma up_heap_ordered:
  assumes "i < length (tq_heap q)" "ordered_but (time_at q) (length (tq_heap q)) i"
    "above_children (time_at q) (length (tq_heap q)) i"
  shows "heap_ordered (time_at (up_heap i q)) (length (tq_heap q))"
  using assms
proof (induction i q rule: up_heap.induct)
  case (1 i q)
  let ?p = "(i - 1) div 2" and ?n = "length (tq_heap q)"
  show ?case
  proof (cases "i > 0 \<and> time_less_than (time_at q i) (time_at q ?p)")
    case True
    then have p: "?p < ?n"
      using 1(2) by simp
    note step = ordered_but_up [OF 1(3,4) _ 1(2) refl, folded time_at_swap [OF 1(2) p]]
    have "heap_ordered (time_at (up_heap ?p (swap_heap i ?p q))) (length (tq_heap (swap_heap i ?p q)))"
      using True p step by (intro "1.IH") (simp_all add: time_less_than_def del: One_nat_def)
    then show ?thesis
      using True by (subst up_heap.simps) (simp add: Let_def)
  next
    case False
    then show ?thesis
      using 1 by (subst up_heap.simps) (auto simp: Let_def time_less_than_def intro!: heap_orderedI [of _ _ i])
  qed
qed

text \<open>The smaller child, as \<open>down_heap\<close> chooses it.\<close>

definition min_child :: "nat \<Rightarrow> timer_queue \<Rightarrow> nat" where
  "min_child i q = (if i * 2 + 2 = length (tq_heap q) \<or> time_less_than (time_at q (i * 2 + 1)) (time_at q (i * 2 + 2))
     then i * 2 + 1 else i * 2 + 2)"

lemma down_heap_step:
  "down_heap i q =
     (if i * 2 + 1 < length (tq_heap q) \<and> \<not> time_less_than (time_at q i) (time_at q (min_child i q))
      then down_heap (min_child i q) (swap_heap i (min_child i q) q) else q)"
  by (subst down_heap.simps) (simp add: min_child_def Let_def)

lemma min_child:
  assumes "i * 2 + 1 < length (tq_heap q)"
  shows "min_child i q < length (tq_heap q)" "i < min_child i q" "(min_child i q - 1) div 2 = i"
    "0 < k \<Longrightarrow> k < length (tq_heap q) \<Longrightarrow> (k - 1) div 2 = i \<Longrightarrow> time_at q (min_child i q) \<le> time_at q k"
proof -
  show "min_child i q < length (tq_heap q)" "i < min_child i q" "(min_child i q - 1) div 2 = i"
    using assms by (auto simp: min_child_def)
  assume "0 < k" "k < length (tq_heap q)" "(k - 1) div 2 = i"
  moreover from this have "k = i * 2 + 1 \<or> k = i * 2 + 2"
    by linarith
  ultimately show "time_at q (min_child i q) \<le> time_at q k"
    by (auto simp: min_child_def time_less_than_def)
qed

lemma down_heap_rearranged:
  assumes "indexed q" "i < length (tq_heap q)"
  shows "rearranged q (down_heap i q)"
  using assms
proof (induction "length (tq_heap q) - i" arbitrary: i q rule: less_induct)
  case less
  let ?c = "min_child i q"
  show ?case
  proof (cases "i * 2 + 1 < length (tq_heap q) \<and> \<not> time_less_than (time_at q i) (time_at q ?c)")
    case True
    note c = min_child(1,2) [OF conjunct1 [OF True]]
    note swap = swap_rearranged [OF less.prems c(1)]
    then have "indexed (swap_heap i ?c q)"
      by (simp add: rearranged_def)
    then have "rearranged (swap_heap i ?c q) (down_heap ?c (swap_heap i ?c q))"
      using c less.prems(2) by (intro less.hyps) simp_all
    with swap have "rearranged q (down_heap ?c (swap_heap i ?c q))"
      by (rule rearranged_trans)
    then show ?thesis
      by (subst down_heap_step, subst if_P [OF True])
  next
    case False
    then show ?thesis
      using less.prems by (subst down_heap_step) (simp only: if_False rearranged_refl)
  qed
qed

lemma down_heap_ordered:
  assumes "i < length (tq_heap q)" "ordered_but (time_at q) (length (tq_heap q)) i"
    "0 < i \<longrightarrow> time_at q ((i - 1) div 2) \<le> time_at q i"
  shows "heap_ordered (time_at (down_heap i q)) (length (tq_heap q))"
  using assms
proof (induction "length (tq_heap q) - i" arbitrary: i q rule: less_induct)
  case less
  let ?c = "min_child i q"
  show ?case
  proof (cases "i * 2 + 1 < length (tq_heap q) \<and> \<not> time_less_than (time_at q i) (time_at q ?c)")
    case True
    then have in_heap: "i * 2 + 1 < length (tq_heap q)"
      by blast
    note c = min_child(1,2,3) [OF in_heap]
    have "0 < ?c" "time_at q ?c \<le> time_at q i"
      using True c(2) by (auto simp: time_less_than_def)
    note step = ordered_but_down [OF less.prems(2,3) this(1) c(1,3) this(2) min_child(4) [OF in_heap],
        folded time_at_swap [OF less.prems(1) c(1)]]
    have "heap_ordered (time_at (down_heap ?c (swap_heap i ?c q))) (length (tq_heap (swap_heap i ?c q)))"
    proof (rule less.hyps)
      show "length (tq_heap (swap_heap i ?c q)) - ?c < length (tq_heap q) - i" "?c < length (tq_heap (swap_heap i ?c q))"
        using c(1,2) by simp_all
      show "ordered_but (time_at (swap_heap i ?c q)) (length (tq_heap (swap_heap i ?c q))) ?c"
        unfolding swap_heap_length by (rule step(1))
      show "0 < ?c \<longrightarrow> time_at (swap_heap i ?c q) ((?c - 1) div 2) \<le> time_at (swap_heap i ?c q) ?c"
        using step(2) by blast
    qed
    then show ?thesis
      unfolding swap_heap_length by (subst down_heap_step, subst if_P [OF True])
  next
    case False
    have "above_children (time_at q) (length (tq_heap q)) i"
      unfolding above_children_def
    proof (intro allI impI, elim conjE)
      fix k
      assume k: "0 < k" "k < length (tq_heap q)" "(k - 1) div 2 = i"
      then have in_heap: "i * 2 + 1 < length (tq_heap q)"
        by linarith
      then show "time_at q i \<le> time_at q k"
        using False min_child(4) [OF in_heap k] by (simp add: time_less_than_def)
    qed
    then show ?thesis
      using False less.prems by (subst down_heap_step) (auto intro: heap_orderedI)
  qed
qed

text \<open>A consistent heap; and what the heap does not touch: the list and the queues of operations.\<close>

definition heap_ok :: "timer_queue \<Rightarrow> bool" where
  "heap_ok q \<longleftrightarrow> indexed q \<and> heap_ordered (time_at q) (length (tq_heap q))"

definition same_lists :: "timer_queue \<Rightarrow> timer_queue \<Rightarrow> bool" where
  "same_lists q q' \<longleftrightarrow> tq_timers q' = tq_timers q \<and>
     (\<forall>t. (tq_data q' t)\<lparr>heap_index := 0\<rparr> = (tq_data q t)\<lparr>heap_index := 0\<rparr>)"

lemma same_listsD:
  assumes "same_lists q q'"
  shows "tq_timers q' = tq_timers q" "td_queue (tq_data q' t) = td_queue (tq_data q t)"
    "td_next (tq_data q' t) = td_next (tq_data q t)" "td_prev (tq_data q' t) = td_prev (tq_data q t)"
proof -
  show "tq_timers q' = tq_timers q"
    using assms by (simp add: same_lists_def)
  have "(tq_data q' t)\<lparr>heap_index := 0\<rparr> = (tq_data q t)\<lparr>heap_index := 0\<rparr>"
    using assms by (simp add: same_lists_def)
  then show "td_queue (tq_data q' t) = td_queue (tq_data q t)"
    "td_next (tq_data q' t) = td_next (tq_data q t)" "td_prev (tq_data q' t) = td_prev (tq_data q t)"
    by (cases "tq_data q' t"; cases "tq_data q t"; simp)+
qed

lemma same_lists_trans: "same_lists q1 q2 \<Longrightarrow> same_lists q2 q3 \<Longrightarrow> same_lists q1 q3"
  by (simp add: same_lists_def)

lemma rearranged_same_lists: "rearranged q q' \<Longrightarrow> same_lists q q'"
  by (simp add: rearranged_def same_lists_def)

text \<open>Times depend on the heap only.\<close>

lemma time_at_cong: "tq_heap q = tq_heap q' \<Longrightarrow> time_at q = time_at q'"
  by (simp add: fun_eq_iff time_at_def)

lemma heap_timers_rearranged: "rearranged q q' \<Longrightarrow> heap_timers q' = heap_timers q"
  unfolding rearranged_def by (metis set_mset_mset)

lemma insert_in_heap_ok:
  assumes "heap_ok q" "t \<notin> heap_timers q" and q'_def: "q' = insert_in_heap time t q"
  shows "heap_ok q'" "mset (tq_heap q') = add_mset \<lparr>he_time = time, he_timer = t\<rparr> (mset (tq_heap q))" "same_lists q q'"
    "s \<notin> heap_timers q \<Longrightarrow> s \<noteq> t \<Longrightarrow> tq_data q' s = tq_data q s"
proof -
  let ?n = "length (tq_heap q)" and ?e = "\<lparr>he_time = time, he_timer = t\<rparr>"
  define q2 where "q2 = (set_data t (heap_index_update (\<lambda>_. ?n)) q)\<lparr>tq_heap := tq_heap q @ [?e]\<rparr>"
  have q': "q' = up_heap ?n q2"
    by (simp add: q'_def insert_in_heap_def is_positive_infinity_def q2_def set_data_def Let_def)
  have heap: "tq_heap q2 = tq_heap q @ [?e]" and data: "tq_data q2 = (tq_data q)(t := (tq_data q t)\<lparr>heap_index := ?n\<rparr>)"
    by (simp_all add: q2_def set_data_def)
  have "he_timer (tq_heap q ! i) \<noteq> t" if "i < ?n" for i
    using assms(2) that by auto
  then have indexed: "indexed q2"
    using assms(1) by (auto simp: indexed_def heap data nth_append heap_ok_def)
  have n: "?n < length (tq_heap q2)"
    by (simp add: heap)
  have times: "time_at q2 k = time_at q k" if "k < ?n" for k
    using that by (simp add: time_at_def heap nth_append)
  have parent: "(k - 1) div 2 < ?n" if "0 < k" "k < Suc ?n" for k
    using that by linarith
  have "ordered_but (time_at q2) (Suc ?n) ?n"
    unfolding ordered_but_def
  proof (intro conjI allI impI; elim conjE)
    fix k
    assume "0 < k" "k < Suc ?n" "k \<noteq> ?n"
    then show "time_at q2 ((k - 1) div 2) \<le> time_at q2 k"
      using parent [of k] times assms(1) by (simp add: heap_ok_def heap_ordered_def)
  qed (metis parent less_irrefl)
  moreover have "above_children (time_at q2) (Suc ?n) ?n"
    unfolding above_children_def by (metis parent less_irrefl)
  ultimately have ordered: "heap_ordered (time_at q') (length (tq_heap q2))"
    unfolding q' using n by (intro up_heap_ordered) (simp_all add: heap)
  note moved = up_heap_rearranged [OF indexed n, folded q']
  then show "heap_ok q'"
    using ordered rearranged_length [OF moved] by (simp add: heap_ok_def rearranged_def)
  show "mset (tq_heap q') = add_mset ?e (mset (tq_heap q))"
    using moved by (simp add: rearranged_def heap)
  have "same_lists q q2"
    by (simp add: same_lists_def q2_def set_data_def)
  then show "same_lists q q'"
    using rearranged_same_lists [OF moved] by (rule same_lists_trans)
  show "tq_data q' s = tq_data q s" if "s \<notin> heap_timers q" "s \<noteq> t"
    using that moved by (auto simp: rearranged_def heap data)
qed

lemma pop_heap_back_ok:
  assumes "indexed q" "tq_heap q = es @ [e]" "he_timer e = t" and q'_def: "q' = pop_heap_back t q"
  shows "indexed q'" "tq_heap q' = es" "same_lists q q'" "tq_data q' = (tq_data q)(t := (tq_data q t)\<lparr>heap_index := size_max\<rparr>)"
proof -
  show heap: "tq_heap q' = es" and data: "tq_data q' = (tq_data q)(t := (tq_data q t)\<lparr>heap_index := size_max\<rparr>)"
    by (simp_all add: q'_def pop_heap_back_def set_data_def assms(2) Let_def)
  have "t \<notin> he_timer ` set es"
    using indexed_distinct [OF assms(1)] assms(2,3) by auto
  then have "he_timer (es ! i) \<noteq> t" if "i < length es" for i
    using that by (metis image_eqI nth_mem)
  moreover have "heap_index (tq_data q (he_timer (es ! i))) = i" if "i < length es" for i
    using assms(1) [unfolded indexed_def, rule_format, of i] that by (simp add: assms(2) nth_append)
  ultimately show "indexed q'"
    by (simp add: indexed_def heap data)
  show "same_lists q q'"
    by (simp add: same_lists_def q'_def pop_heap_back_def set_data_def Let_def)
qed

lemma remove_from_heap_ok:
  assumes "heap_ok q" "t \<in> heap_timers q" and q'_def: "q' = remove_from_heap t q"
  shows "heap_ok q'" "\<exists>e. he_timer e = t \<and> mset (tq_heap q) = add_mset e (mset (tq_heap q'))" "same_lists q q'"
    "heap_index (tq_data q' t) = size_max" "s \<notin> heap_timers q \<Longrightarrow> tq_data q' s = tq_data q s"
proof -
  let ?n = "length (tq_heap q)" and ?i = "heap_index (tq_data q t)"
  have indexed: "indexed q" and ordered: "heap_ordered (time_at q) ?n"
    using assms(1) by (simp_all add: heap_ok_def)
  obtain i where "i < ?n" "he_timer (tq_heap q ! i) = t"
    using assms(2) by (auto simp: in_set_conv_nth)
  then have i: "?i < ?n" "he_timer (tq_heap q ! ?i) = t"
    using indexed by (auto simp: indexed_def)
  define q0 where "q0 = (if ?i = ?n - 1 then q else swap_heap ?i (?n - 1) q)"
  have q0: "rearranged q q0"
    using i(1) by (auto simp: q0_def intro: rearranged_refl [OF indexed] swap_rearranged [OF indexed])
  have len: "length (tq_heap q0) = ?n" "tq_heap q0 \<noteq> []"
    using rearranged_length [OF q0] i(1) by auto
  have last: "he_timer (last (tq_heap q0)) = t"
    using i len by (auto simp: q0_def last_conv_nth swap_heap_def set_data_def Let_def)
  define q1 where "q1 = pop_heap_back t q0"
  have split: "tq_heap q0 = butlast (tq_heap q0) @ [last (tq_heap q0)]"
    using len(2) by simp
  have indexed0: "indexed q0"
    using q0 by (simp add: rearranged_def)
  note pop = pop_heap_back_ok [OF indexed0 split last q1_def]
  have same: "time_at q1 k = time_at q k" if "k \<noteq> ?i" "k < ?n - 1" for k
    using that i len
    by (auto simp: time_at_def pop(2) nth_butlast q0_def swap_heap_def set_data_def Let_def nth_list_update)
  have n1: "length (tq_heap q1) = ?n - 1"
    by (simp add: pop(2) len)
  note but = heap_ordered_but [OF ordered i(1) same, of "?n - 1", OF _ _ diff_le_self]
  have moved: "rearranged q1 q' \<and> heap_ordered (time_at q') (length (tq_heap q1))"
  proof (cases "?i = ?n - 1")
    case True
    then have "q' = q1"
      using i(1) by (auto simp: q'_def remove_from_heap_def q1_def q0_def Let_def)
    moreover have "heap_ordered (time_at q1) (?n - 1)"
      unfolding heap_ordered_def
    proof (intro allI impI, elim conjE)
      fix k
      assume "0 < k" "k < ?n - 1"
      moreover from this have "(k - 1) div 2 < ?n - 1"
        by linarith
      ultimately show "time_at q1 ((k - 1) div 2) \<le> time_at q1 k"
        using ordered same True by (auto simp: heap_ordered_def)
    qed
    ultimately show ?thesis
      using pop(1) n1 by (simp add: rearranged_refl)
  next
    case False
    have i1: "?i < length (tq_heap q1)"
      using False i(1) n1 by linarith
    have "q' = (if ?i > 0 \<and> time_less_than (time_at q1 ?i) (time_at q1 ((?i - 1) div 2)) then up_heap ?i q1 else down_heap ?i q1)"
      using False i(1) by (auto simp: q'_def remove_from_heap_def q1_def q0_def Let_def)
    moreover have "ordered_but (time_at q1) (length (tq_heap q1)) ?i"
      unfolding n1 by (rule but)
    moreover have "above_children (time_at q1) (length (tq_heap q1)) ?i"
      if "?i > 0" "time_at q1 ?i < time_at q1 ((?i - 1) div 2)"
      using calculation(2) that unfolding ordered_but_def above_children_def by force
    ultimately show ?thesis
      using up_heap_rearranged [OF pop(1) i1] down_heap_rearranged [OF pop(1) i1] up_heap_ordered [OF i1]
        down_heap_ordered [OF i1] by (auto simp: time_less_than_def)
  qed
  then show "heap_ok q'"
    using rearranged_length [of q1 q'] by (simp add: heap_ok_def rearranged_def)
  have bag: "mset (tq_heap q) = add_mset (last (tq_heap q0)) (mset (tq_heap q1))"
    using q0 split pop(2) by (metis mset_append mset_single_iff_right rearranged_def union_mset_add_mset_right add.right_neutral mset.simps)
  then show "\<exists>e. he_timer e = t \<and> mset (tq_heap q) = add_mset e (mset (tq_heap q'))"
    using moved last by (auto simp: rearranged_def)
  show "same_lists q q'"
    using q0 pop(3) moved by (meson rearranged_same_lists same_lists_trans)
  have out: "t \<notin> heap_timers q1"
    using indexed_distinct [OF indexed0] last unfolding pop(2)
    by (subst (asm) split) (auto simp del: append_butlast_last_id)
  then show "heap_index (tq_data q' t) = size_max"
    using moved pop(4) by (simp add: rearranged_def)
  show "tq_data q' s = tq_data q s" if s: "s \<notin> heap_timers q"
  proof -
    have "s \<notin> heap_timers q1" "s \<noteq> t"
      using s bag assms(2) by (auto dest: arg_cong [of _ _ set_mset])
    then show ?thesis
      using moved pop(4) q0 s by (simp add: rearranged_def)
  qed
qed

section \<open>The list of timers\<close>

text \<open>
  A segment of a doubly linked list: it starts after \<open>p\<close> at \<open>h\<close>, has the nodes of the list, and ends with
  the node \<open>l\<close> before \<open>e\<close>.
\<close>

fun dll :: "(nat \<Rightarrow> per_timer_data) \<Rightarrow> nat option \<Rightarrow> nat list \<Rightarrow> nat option \<Rightarrow> nat option \<Rightarrow> nat option \<Rightarrow> bool" where
  "dll D p [] h l e \<longleftrightarrow> h = e \<and> l = p"
| "dll D p (t # ts) h l e \<longleftrightarrow> h = Some t \<and> td_prev (D t) = p \<and> dll D (Some t) ts (td_next (D t)) l e"

lemma dll_append: "dll D p (xs @ ys) h l e \<longleftrightarrow> (\<exists>m n. dll D p xs h m n \<and> dll D m ys n l e)"
  by (induction xs arbitrary: p h) auto

lemma dll_cong:
  "(\<And>t. t \<in> set ts \<Longrightarrow> td_next (D' t) = td_next (D t) \<and> td_prev (D' t) = td_prev (D t)) \<Longrightarrow>
   dll D' p ts h l e = dll D p ts h l e"
  by (induction ts arbitrary: p h) auto

lemma dll_snoc: "dll D p (xs @ [x]) h l e \<longleftrightarrow> dll D p xs h (td_prev (D x)) (Some x) \<and> l = Some x \<and> e = td_next (D x)"
  by (auto simp: dll_append)

lemma dll_head: "dll D p (x # xs) h l e \<Longrightarrow> h = Some x"
  by simp

definition listed :: "timer_queue \<Rightarrow> nat list \<Rightarrow> bool" where
  "listed q ts \<longleftrightarrow> distinct ts \<and> (\<exists>l. dll (tq_data q) None ts (tq_timers q) l None) \<and>
     (\<forall>t. t \<notin> set ts \<longrightarrow> td_next (tq_data q t) = None \<and> td_prev (tq_data q t) = None)"

text \<open>The same queue with other links.\<close>

definition same_contents :: "timer_queue \<Rightarrow> timer_queue \<Rightarrow> bool" where
  "same_contents q q' \<longleftrightarrow> tq_heap q' = tq_heap q \<and>
     (\<forall>t. td_queue (tq_data q' t) = td_queue (tq_data q t) \<and> heap_index (tq_data q' t) = heap_index (tq_data q t))"

lemma listed_around:
  assumes "listed q (xs @ t # ys)"
  obtains l where "dll (tq_data q) None xs (tq_timers q) (td_prev (tq_data q t)) (Some t)"
    "dll (tq_data q) (Some t) ys (td_next (tq_data q t)) l None"
  using assms by (auto simp: listed_def dll_append)

lemma is_active_listed:
  assumes "listed q ts"
  shows "is_active t q \<longleftrightarrow> t \<in> set ts"
proof
  assume "t \<in> set ts"
  then obtain xs ys where ts: "ts = xs @ t # ys"
    by (metis split_list)
  with assms obtain l where "dll (tq_data q) None xs (tq_timers q) (td_prev (tq_data q t)) (Some t)"
    using listed_around by metis
  then show "is_active t q"
    by (cases xs rule: rev_cases) (auto simp: is_active_def dll_snoc)
next
  assume "is_active t q"
  then show "t \<in> set ts"
    using assms by (cases ts) (auto simp: is_active_def listed_def)
qed

lemma link_timer_listed:
  assumes "listed q ts" "t \<notin> set ts"
  shows "listed (link_timer t q) (t # ts)" "same_contents q (link_timer t q)"
proof -
  show "same_contents q (link_timer t q)"
    by (cases "tq_timers q") (simp_all add: same_contents_def link_timer_def set_data_def Let_def)
  obtain l where l: "dll (tq_data q) None ts (tq_timers q) l None"
    using assms(1) by (auto simp: listed_def)
  show "listed (link_timer t q) (t # ts)"
  proof (cases ts)
    case Nil
    with l assms show ?thesis
      by (auto simp: listed_def link_timer_def set_data_def Let_def)
  next
    case (Cons y ys)
    then have y: "tq_timers q = Some y" "y \<noteq> t"
      using l assms(2) by auto
    have "dll (tq_data (link_timer t q)) (Some y) ys (td_next (tq_data q y)) l None"
      using l assms(1) Cons
      by (subst dll_cong [of _ _ "tq_data q"]) (use assms(2) in \<open>auto simp: link_timer_def set_data_def Let_def listed_def\<close>)
    with y Cons assms show ?thesis
      by (auto simp: listed_def link_timer_def set_data_def Let_def)
  qed
qed

text \<open>Redirecting the links of the neighbours of a node.\<close>

lemma dll_splice:
  assumes "dll D None xs h p (Some t)" "dll D (Some t) ys n l None" "distinct (xs @ t # ys)"
    and links: "\<And>s. s \<in> set xs \<union> set ys \<Longrightarrow> td_next (D' s) = (if p = Some s then n' else td_next (D s)) \<and>
      td_prev (D' s) = (if n = Some s then p' else td_prev (D s))"
  shows "dll D' None xs (if xs = [] then n' else h) p n'" "\<exists>l'. dll D' p' ys n l' None"
proof -
  have n: "n \<noteq> Some s" if "s \<in> set xs" for s
    using assms(2,3) that by (cases ys) auto
  have p: "p \<noteq> Some s" if "s \<in> set ys" for s
    using assms(1,3) that by (cases xs rule: rev_cases) (auto simp: dll_snoc)
  show "dll D' None xs (if xs = [] then n' else h) p n'"
  proof (cases xs rule: rev_cases)
    case Nil
    then show ?thesis
      using assms(1) by simp
  next
    case (snoc zs x)
    have "dll D' None zs h (td_prev (D x)) (Some x) = dll D None zs h (td_prev (D x)) (Some x)"
      using assms(1,3) links n snoc by (intro dll_cong) (auto simp: dll_snoc)
    then show ?thesis
      using assms(1) links [of x] n [of x] snoc by (auto simp: dll_snoc)
  qed
  show "\<exists>l'. dll D' p' ys n l' None"
  proof (cases ys)
    case Nil
    then show ?thesis
      using assms(2) by simp
  next
    case (Cons y zs)
    have "dll D' (Some y) zs (td_next (D y)) l None = dll D (Some y) zs (td_next (D y)) l None"
      using assms(2,3) links p Cons by (intro dll_cong) auto
    then show ?thesis
      using assms(2) links [of y] p [of y] Cons by auto
  qed
qed

lemma listed_head:
  assumes "listed q (xs @ t # ys)"
  shows "tq_timers q = Some t \<longleftrightarrow> xs = []"
  using assms by (cases xs) (auto simp: listed_def)

lemma unlink_timer_listed:
  assumes "listed q (xs @ t # ys)"
  shows "listed (unlink_timer t q) (xs @ ys)" "same_contents q (unlink_timer t q)"
proof -
  let ?q = "unlink_timer t q"
  let ?p = "td_prev (tq_data q t)" and ?n = "td_next (tq_data q t)"
  obtain l where around: "dll (tq_data q) None xs (tq_timers q) ?p (Some t)" "dll (tq_data q) (Some t) ys ?n l None"
    using listed_around [OF assms] .
  have d: "distinct (xs @ t # ys)" and out: "\<And>s. s \<notin> set (xs @ t # ys) \<Longrightarrow> td_next (tq_data q s) = None \<and> td_prev (tq_data q s) = None"
    using assms by (auto simp: listed_def)
  have p: "?p = None \<or> (\<exists>x. ?p = Some x \<and> x \<in> set xs)"
    using around(1) by (cases xs rule: rev_cases) (auto simp: dll_snoc)
  have n: "?n = None \<or> (\<exists>y. ?n = Some y \<and> y \<in> set ys)"
    using around(2) by (cases ys) auto
  have links: "td_next (tq_data ?q s) = (if ?p = Some s then ?n else td_next (tq_data q s)) \<and>
      td_prev (tq_data ?q s) = (if ?n = Some s then ?p else td_prev (tq_data q s))" if "s \<noteq> t" for s
    using that p n d by (auto simp: unlink_timer_def set_data_def Let_def)
  have at: "td_next (tq_data ?q t) = None" "td_prev (tq_data ?q t) = None"
    by (simp_all add: unlink_timer_def set_data_def Let_def)
  have head: "tq_timers ?q = (if xs = [] then ?n else tq_timers q)"
    using listed_head [OF assms] p n by (auto simp: unlink_timer_def set_data_def Let_def)
  have near: "td_next (tq_data ?q s) = (if ?p = Some s then ?n else td_next (tq_data q s)) \<and>
      td_prev (tq_data ?q s) = (if ?n = Some s then ?p else td_prev (tq_data q s))" if "s \<in> set xs \<union> set ys" for s
    by (rule links) (use that d in auto)
  note dll_splice [OF around d near, folded head]
  moreover have "td_next (tq_data ?q s) = None \<and> td_prev (tq_data ?q s) = None" if "s \<notin> set (xs @ ys)" for s
    using that at links [of s] out [of s] p n by (cases "s = t") auto
  ultimately show "listed ?q (xs @ ys)"
    using d by (auto simp: listed_def dll_append)
  show "same_contents q ?q"
    using p n by (auto simp: same_contents_def unlink_timer_def set_data_def Let_def)
qed

section \<open>The invariant\<close>

text \<open>
  The list and the heap have the same timers; a timer that is in neither has no operations and the
  index that means none, which no entry of the heap has.
\<close>

definition linked_ok :: "timer_queue \<Rightarrow> nat list \<Rightarrow> bool" where
  "linked_ok q ts \<longleftrightarrow> listed q ts \<and> heap_ok q \<and> heap_timers q = set ts \<and> length (tq_heap q) \<le> size_max \<and>
     (\<forall>t. t \<notin> set ts \<longrightarrow> td_queue (tq_data q t) = [] \<and> heap_index (tq_data q t) = size_max)"

text \<open>Every timer that is in the queue has operations waiting.\<close>

definition timers_ok :: "timer_queue \<Rightarrow> bool" where
  "timers_ok q \<longleftrightarrow> (\<exists>ts. linked_ok q ts \<and> (\<forall>t \<in> set ts. td_queue (tq_data q t) \<noteq> []))"

lemma heap_ok_cong:
  "tq_heap q' = tq_heap q \<Longrightarrow> (\<And>t. heap_index (tq_data q' t) = heap_index (tq_data q t)) \<Longrightarrow> heap_ok q' = heap_ok q"
  by (simp add: heap_ok_def indexed_def time_at_cong [of q' q])

lemma listed_cong:
  assumes "tq_timers q' = tq_timers q"
    "\<And>t. td_next (tq_data q' t) = td_next (tq_data q t)" "\<And>t. td_prev (tq_data q' t) = td_prev (tq_data q t)"
  shows "listed q' ts = listed q ts"
  by (simp add: listed_def assms dll_cong [of ts "tq_data q'" "tq_data q"])

lemma same_contentsD:
  assumes "same_contents q q'"
  shows "tq_heap q' = tq_heap q" "td_queue (tq_data q' t) = td_queue (tq_data q t)"
    "heap_index (tq_data q' t) = heap_index (tq_data q t)"
  using assms by (simp_all add: same_contents_def)

text \<open>When the timers expire, by the entries of the heap.\<close>

definition expiries :: "heap_entry list \<Rightarrow> nat \<Rightarrow> int option" where
  "expiries heap = map_of (map (\<lambda>e. (he_timer e, he_time e)) heap)"

lemma expiries_dom: "expiries heap t = None \<longleftrightarrow> t \<notin> he_timer ` set heap"
  by (force simp: expiries_def map_of_eq_None_iff)

lemma expiries_bag:
  assumes "distinct (map he_timer heap)" "mset heap = add_mset e (mset heap')"
  shows "distinct (map he_timer (e # heap'))" "set heap = insert e (set heap')"
    "expiries heap = (expiries heap')(he_timer e \<mapsto> he_time e)"
proof -
  have "mset (map he_timer heap) = mset (map he_timer (e # heap'))"
    using assms(2) by simp
  from mset_eq_imp_distinct_iff [OF this] show distinct: "distinct (map he_timer (e # heap'))"
    using assms(1) by simp
  show entries: "set heap = insert e (set heap')"
    using assms(2) by (metis mset.simps(2) mset_eq_setD list.simps(15))
  have "expiries heap = expiries (e # heap')"
    unfolding expiries_def
  proof (subst map_of_inject_set)
    show "distinct (map fst (map (\<lambda>e. (he_timer e, he_time e)) heap))"
      "distinct (map fst (map (\<lambda>e. (he_timer e, he_time e)) (e # heap')))"
      using assms(1) distinct by (simp_all add: comp_def)
  qed (simp add: entries)
  then show "expiries heap = (expiries heap')(he_timer e \<mapsto> he_time e)"
    by (simp add: expiries_def)
qed

lemma remove_timer_ok:
  assumes "linked_ok q (xs @ t # ys)" "td_queue (tq_data q t) = []" and q'_def: "q' = remove_timer t q"
  shows "linked_ok q' (xs @ ys)" "expiries (tq_heap q') = (expiries (tq_heap q))(t := None)"
    "td_queue (tq_data q' s) = td_queue (tq_data q s)"
proof -
  let ?h = "remove_from_heap t q"
  have ok: "listed q (xs @ t # ys)" "heap_ok q" "heap_timers q = set (xs @ t # ys)"
    and out: "\<And>s. s \<notin> set (xs @ t # ys) \<Longrightarrow> td_queue (tq_data q s) = [] \<and> heap_index (tq_data q s) = size_max"
    using assms(1) by (auto simp: linked_ok_def)
  have "t \<in> heap_timers q"
    using ok(3) by simp
  note heap = remove_from_heap_ok [OF ok(2) this refl]
  note lists = same_listsD [OF heap(3)]
  have "listed ?h (xs @ t # ys)"
    using ok(1) listed_cong [of ?h q] lists by blast
  note list = unlink_timer_listed [OF this]
  note fields = same_contentsD [OF list(2), folded remove_timer_def, folded q'_def]
  show "td_queue (tq_data q' s) = td_queue (tq_data q s)" for s
    using fields(2) lists(2) by simp
  obtain e where e: "he_timer e = t" "mset (tq_heap q) = add_mset e (mset (tq_heap q'))"
    using heap(2) fields(1) by auto
  have "distinct (map he_timer (tq_heap q))"
    using ok(2) indexed_distinct by (simp add: heap_ok_def)
  note bag = expiries_bag [OF this e(2)]
  then have "t \<notin> heap_timers q'"
    using e(1) by auto
  then show "expiries (tq_heap q') = (expiries (tq_heap q))(t := None)"
    using bag(3) e(1) expiries_dom [of "tq_heap q'" t] by (simp add: fun_upd_idem)
  have d: "distinct (xs @ t # ys)"
    using ok(1) by (simp add: listed_def)
  have "heap_ok q'"
    using heap(1) heap_ok_cong [OF fields(1,3)] by simp
  moreover have "heap_timers q = insert t (heap_timers q')"
    using bag(2) e(1) by simp
  then have "heap_timers q' = set (xs @ ys)"
    using ok(3) d \<open>t \<notin> heap_timers q'\<close> by auto
  moreover have "td_queue (tq_data q' s) = [] \<and> heap_index (tq_data q' s) = size_max" if "s \<notin> set (xs @ ys)" for s
    using that assms(2) out [of s] heap(4) heap(5) [of s] ok(3) fields(2,3) lists(2) by (cases "s = t") auto
  moreover have "length (tq_heap q') \<le> size_max"
    using assms(1) e(2) [THEN arg_cong, of size] by (simp add: linked_ok_def)
  ultimately show "linked_ok q' (xs @ ys)"
    using list(1) by (simp add: linked_ok_def q'_def remove_timer_def)
qed

end
