(* ===== verification/Asio_Timers.thy ===== *)
theory Asio_Timers
  imports Asio_Timer_Queue
begin

text \<open>
  The timer queue as a finite map: what its operations do to the map from the active timers to their
  expiry and the operations that wait for it, and how long the reactor may wait for the next
  timer; then the set of timer queues (\<open>asio/detail/impl/timer_queue_set.ipp\<close>).
\<close>

section \<open>The map\<close>

type_synonym timer_map = "nat \<Rightarrow> (int \<times> wait_op list) option"

definition contents :: "timer_queue \<Rightarrow> timer_map" where
  "contents q t = map_option (\<lambda>x. (x, td_queue (tq_data q t))) (expiries (tq_heap q) t)"

definition abort_wait :: "wait_op \<Rightarrow> wait_op" where
  "abort_wait op = op\<lparr>wait_ec := basic_ec operation_aborted\<rparr>"

definition ready_wait :: "wait_op \<Rightarrow> wait_op" where
  "ready_wait op = op\<lparr>wait_ec := no_error\<rparr>"

text \<open>Replacing the waiting operations of a timer; a timer without operations is not active.\<close>

definition set_waits :: "nat \<Rightarrow> wait_op list \<Rightarrow> timer_map \<Rightarrow> timer_map" where
  "set_waits t ops m = m(t := if ops = [] then None else map_option (\<lambda>(x, _). (x, ops)) (m t))"

lemma active_contents:
  assumes "linked_ok q ts"
  shows "t \<in> set ts \<longleftrightarrow> contents q t \<noteq> None" "is_active t q \<longleftrightarrow> contents q t \<noteq> None"
proof -
  show *: "t \<in> set ts \<longleftrightarrow> contents q t \<noteq> None"
    using assms expiries_dom [of "tq_heap q" t] by (auto simp: linked_ok_def contents_def)
  show "is_active t q \<longleftrightarrow> contents q t \<noteq> None"
    using * assms is_active_listed [of q ts t] by (simp add: linked_ok_def)
qed

lemma contents_waits: "contents q t = Some (x, ops) \<Longrightarrow> td_queue (tq_data q t) = ops"
  by (auto simp: contents_def)

lemma timers_ok_active: "timers_ok q \<Longrightarrow> is_active t q \<longleftrightarrow> contents q t \<noteq> None"
  using active_contents(2) by (auto simp: timers_ok_def)

lemma timers_ok_waits: "timers_ok q \<Longrightarrow> contents q t = Some (x, ops) \<Longrightarrow> ops \<noteq> []"
  using active_contents(1) contents_waits by (fastforce simp: timers_ok_def)

lemma set_queue_ok:
  assumes "linked_ok q ts" "t \<in> set ts" and q'_def: "q' = set_data t (td_queue_update (\<lambda>_. ops)) q"
  shows "linked_ok q' ts" "td_queue (tq_data q' s) = (if s = t then ops else td_queue (tq_data q s))"
    "tq_heap q' = tq_heap q"
proof -
  show fields: "td_queue (tq_data q' s) = (if s = t then ops else td_queue (tq_data q s))" "tq_heap q' = tq_heap q" for s
    by (simp_all add: q'_def set_data_def)
  have rest: "tq_timers q' = tq_timers q" "td_next (tq_data q' s) = td_next (tq_data q s)"
    "td_prev (tq_data q' s) = td_prev (tq_data q s)" "heap_index (tq_data q' s) = heap_index (tq_data q s)" for s
    by (simp_all add: q'_def set_data_def)
  show "linked_ok q' ts"
    using assms(1,2) listed_cong [OF rest(1,2,3)] heap_ok_cong [OF fields(2) rest(4)]
    by (auto simp: linked_ok_def fields rest)
qed

lemma remove_if_empty_ok:
  assumes "timers_ok q" "contents q t \<noteq> None"
    and q'_def: "q' = remove_if_empty t (set_data t (td_queue_update (\<lambda>_. ops)) q)"
  shows "timers_ok q'" "contents q' = set_waits t ops (contents q)"
proof -
  obtain ts where ts: "linked_ok q ts" "\<And>s. s \<in> set ts \<Longrightarrow> td_queue (tq_data q s) \<noteq> []"
    using assms(1) by (auto simp: timers_ok_def)
  define q1 where "q1 = set_data t (td_queue_update (\<lambda>_. ops)) q"
  have t: "t \<in> set ts"
    using assms(2) active_contents [OF ts(1)] by blast
  note one = set_queue_ok [OF ts(1) t q1_def]
  have q': "q' = remove_if_empty t q1"
    by (simp only: q'_def q1_def)
  have "timers_ok q' \<and> contents q' = set_waits t ops (contents q)"
  proof (cases "ops = []")
    case True
    then have r: "q' = remove_timer t q1" and empty: "td_queue (tq_data q1 t) = []"
      by (simp_all add: q' remove_if_empty_def one(2))
    obtain xs ys where split: "ts = xs @ t # ys"
      using t by (metis split_list)
    note removed = remove_timer_ok [OF one(1) [unfolded split] empty r]
    have "distinct ts"
      using ts(1) by (simp add: linked_ok_def listed_def)
    then have "timers_ok q'"
      using removed(1) ts(2) split by (auto simp: timers_ok_def removed(3) one(2))
    moreover have "contents q' = set_waits t ops (contents q)"
      using True by (auto simp: fun_eq_iff contents_def set_waits_def removed(2,3) one(2,3))
    ultimately show ?thesis
      by blast
  next
    case False
    then have "q' = q1"
      by (simp add: q' remove_if_empty_def one(2))
    then show ?thesis
      using False one ts(2)
      by (auto simp: timers_ok_def fun_eq_iff contents_def set_waits_def one(2,3) map_option_case split: option.splits
          intro!: exI [of _ ts])
  qed
  then show "timers_ok q'" "contents q' = set_waits t ops (contents q)"
    by blast+
qed

section \<open>Cancelling\<close>

lemma cancel_loop_eq:
  "n \<le> k \<Longrightarrow> cancel_loop k xs ops n =
     (drop (k - n) xs, ops @ map abort_wait (take (k - n) xs), n + min (length xs) (k - n))"
proof (induction xs arbitrary: ops n)
  case (Cons x xs)
  then show ?case
    by (cases "k - n") (auto simp: abort_wait_def Suc_diff_le diff_Suc split: nat.splits)
qed simp

lemma by_key_loop_eq:
  "by_key_loop key xs ops others =
     (ops @ map abort_wait (filter (\<lambda>op. wait_key op = key) xs), others @ filter (\<lambda>op. wait_key op \<noteq> key) xs)"
  by (induction xs arbitrary: ops others) (simp_all add: abort_wait_def)

lemma cancel_timer_ok:
  assumes "timers_ok q" "tq_cancel_timer t ops k q = (n, ops', q')"
  shows "timers_ok q'" and "case contents q t of
      None \<Rightarrow> n = 0 \<and> ops' = ops \<and> q' = q
    | Some (x, waits) \<Rightarrow> n = min (length waits) k \<and> ops' = ops @ map abort_wait (take k waits) \<and>
        contents q' = set_waits t (drop k waits) (contents q)"
proof -
  have "timers_ok q' \<and> (case contents q t of
      None \<Rightarrow> n = 0 \<and> ops' = ops \<and> q' = q
    | Some (x, waits) \<Rightarrow> n = min (length waits) k \<and> ops' = ops @ map abort_wait (take k waits) \<and>
        contents q' = set_waits t (drop k waits) (contents q))"
  proof (cases "contents q t")
    case None
    then show ?thesis
      using assms timers_ok_active [OF assms(1)] by (auto simp: tq_cancel_timer_def)
  next
    case (Some p)
    obtain x waits where p: "p = (x, waits)"
      by (metis prod.exhaust)
    have "tq_cancel_timer t ops k q = (min (length waits) k, ops @ map abort_wait (take k waits),
        remove_if_empty t (set_data t (td_queue_update (\<lambda>_. drop k waits)) q))"
      using Some p timers_ok_active [OF assms(1), of t] contents_waits [of q t x waits]
      by (simp add: tq_cancel_timer_def cancel_loop_eq)
    then have r: "n = min (length waits) k" "ops' = ops @ map abort_wait (take k waits)"
      "q' = remove_if_empty t (set_data t (td_queue_update (\<lambda>_. drop k waits)) q)"
      using assms(2) by simp_all
    have "contents q t \<noteq> None"
      using Some by simp
    from remove_if_empty_ok [OF assms(1) this r(3)] r(1,2) Some p show ?thesis
      by simp
  qed
  then show "timers_ok q'" "case contents q t of
      None \<Rightarrow> n = 0 \<and> ops' = ops \<and> q' = q
    | Some (x, waits) \<Rightarrow> n = min (length waits) k \<and> ops' = ops @ map abort_wait (take k waits) \<and>
        contents q' = set_waits t (drop k waits) (contents q)"
    by blast+
qed

lemma cancel_timer_by_key_ok:
  assumes "timers_ok q" "tq_cancel_timer_by_key t ops key q = (ops', q')"
  shows "timers_ok q' \<and> (case contents q t of
      None \<Rightarrow> ops' = ops \<and> q' = q
    | Some (x, waits) \<Rightarrow> ops' = ops @ map abort_wait (filter (\<lambda>op. wait_key op = key) waits) \<and>
        contents q' = set_waits t (filter (\<lambda>op. wait_key op \<noteq> key) waits) (contents q))"
proof (cases "contents q t")
  case None
  then show ?thesis
    using assms timers_ok_active [OF assms(1)] by (auto simp: tq_cancel_timer_by_key_def)
next
  case (Some p)
  obtain x waits where p: "p = (x, waits)"
    by (metis prod.exhaust)
  have "tq_cancel_timer_by_key t ops key q = (ops @ map abort_wait (filter (\<lambda>op. wait_key op = key) waits),
      remove_if_empty t (set_data t (td_queue_update (\<lambda>_. filter (\<lambda>op. wait_key op \<noteq> key) waits)) q))"
    using Some p timers_ok_active [OF assms(1), of t] contents_waits [of q t x waits]
    by (simp add: tq_cancel_timer_by_key_def by_key_loop_eq)
  then have r: "ops' = ops @ map abort_wait (filter (\<lambda>op. wait_key op = key) waits)"
    "q' = remove_if_empty t (set_data t (td_queue_update (\<lambda>_. filter (\<lambda>op. wait_key op \<noteq> key) waits)) q)"
    using assms(2) by simp_all
  have "contents q t \<noteq> None"
    using Some by simp
  from remove_if_empty_ok [OF assms(1) this r(2)] r(1) Some p show ?thesis
    by simp
qed

section \<open>Adding\<close>

lemma expiry_index:
  assumes "heap_ok q" "t \<in> heap_timers q"
  shows "heap_index (tq_data q t) < length (tq_heap q)" "expiries (tq_heap q) t = Some (time_at q (heap_index (tq_data q t)))"
proof -
  obtain i where i: "i < length (tq_heap q)" "he_timer (tq_heap q ! i) = t"
    using assms(2) by (auto simp: in_set_conv_nth)
  then have index: "heap_index (tq_data q t) = i"
    using assms(1) by (auto simp: heap_ok_def indexed_def)
  then show "heap_index (tq_data q t) < length (tq_heap q)"
    using i by simp
  have "distinct (map fst (map (\<lambda>e. (he_timer e, he_time e)) (tq_heap q)))"
    using indexed_distinct [of q] assms(1) by (simp add: heap_ok_def comp_def)
  moreover have "(t, time_at q i) \<in> set (map (\<lambda>e. (he_timer e, he_time e)) (tq_heap q))"
    using i by (force simp: time_at_def)
  ultimately show "expiries (tq_heap q) t = Some (time_at q (heap_index (tq_data q t)))"
    unfolding expiries_def index by (rule map_of_is_SomeI)
qed

lemma root_earliest:
  assumes "heap_ok q" "expiries (tq_heap q) t = Some x"
  shows "time_at q 0 \<le> x"
proof -
  have "t \<in> heap_timers q"
    using assms(2) expiries_dom [of "tq_heap q" t] by auto
  then show ?thesis
    using expiry_index [OF assms(1)] assms(2) heap_ordered_root [of "time_at q" "length (tq_heap q)"] assms(1)
    by (auto simp: heap_ok_def)
qed

lemma link_new_timer:
  assumes "linked_ok q ts" "t \<notin> set ts" "length (tq_heap q) < size_max" and q'_def: "q' = link_timer t (insert_in_heap time t q)"
  shows "linked_ok q' (t # ts)" "expiries (tq_heap q') = (expiries (tq_heap q))(t \<mapsto> time)"
    "td_queue (tq_data q' s) = td_queue (tq_data q s)"
proof -
  have ok: "listed q ts" "heap_ok q" "heap_timers q = set ts"
    and out: "\<And>s. s \<notin> set ts \<Longrightarrow> td_queue (tq_data q s) = [] \<and> heap_index (tq_data q s) = size_max"
    using assms(1) by (auto simp: linked_ok_def)
  define q1 where "q1 = insert_in_heap time t q"
  have "t \<notin> heap_timers q"
    using ok(3) assms(2) by simp
  note heap = insert_in_heap_ok [OF ok(2) this q1_def]
  note lists = same_listsD [OF heap(3)]
  have "listed q1 ts"
    using ok(1) listed_cong [OF lists(1,3,4)] by simp
  note list = link_timer_listed [OF this assms(2)]
  have q': "q' = link_timer t q1"
    by (simp only: q'_def q1_def)
  note fields = same_contentsD [OF list(2), folded q']
  show queues: "td_queue (tq_data q' s) = td_queue (tq_data q s)" for s
    using fields(2) lists(2) by simp
  have ok': "heap_ok q'"
    using heap(1) heap_ok_cong [OF fields(1,3)] by simp
  have added: "mset (tq_heap q') = add_mset \<lparr>he_time = time, he_timer = t\<rparr> (mset (tq_heap q))"
    using heap(2) fields(1) by simp
  note bag = expiries_bag [OF indexed_distinct added]
  show "expiries (tq_heap q') = (expiries (tq_heap q))(t \<mapsto> time)"
    using bag(3) ok' by (simp add: heap_ok_def)
  have "heap_timers q' = insert t (set ts)"
    using bag(2) ok' ok(3) by (simp add: heap_ok_def)
  moreover have "length (tq_heap q') \<le> size_max"
    using assms(3) added [THEN arg_cong, of size] by simp
  ultimately show "linked_ok q' (t # ts)"
    using list(1) ok' out heap(4) ok(3) fields(3) queues assms(2) by (auto simp: linked_ok_def q')
qed

text \<open>The first operation of a timer starts it; further ones join it and do not change the expiry.\<close>

definition add_wait :: "int \<Rightarrow> nat \<Rightarrow> wait_op \<Rightarrow> timer_map \<Rightarrow> timer_map" where
  "add_wait time t op m = m(t \<mapsto> (case m t of None \<Rightarrow> (time, [op]) | Some (x, waits) \<Rightarrow> (x, waits @ [op])))"

definition earliest_in :: "nat \<Rightarrow> timer_map \<Rightarrow> bool" where
  "earliest_in t m \<longleftrightarrow> (\<forall>s x ws y zs. m t = Some (x, ws) \<longrightarrow> m s = Some (y, zs) \<longrightarrow> x \<le> y)"

lemma enqueue_contents:
  assumes "timers_ok q" "enqueue_timer time t op q = (earliest, q')" "length (tq_heap q) < size_max"
  shows "timers_ok q'" "contents q' = add_wait time t op (contents q)"
proof -
  obtain ts where ts: "linked_ok q ts" "\<And>s. s \<in> set ts \<Longrightarrow> td_queue (tq_data q s) \<noteq> []"
    using assms(1) by (auto simp: timers_ok_def)
  define q1 where "q1 = (if is_active t q then q else link_timer t (insert_in_heap time t q))"
  have q': "q' = set_data t (\<lambda>d. d\<lparr>td_queue := td_queue d @ [op]\<rparr>) q1"
    using assms(2) by (auto simp: enqueue_timer_def q1_def Let_def)
  have "set_data t (\<lambda>d. d\<lparr>td_queue := td_queue d @ [op]\<rparr>) q1 = set_data t (td_queue_update (\<lambda>_. td_queue (tq_data q1 t) @ [op])) q1"
    by (simp add: set_data_def)
  note q' = q' [unfolded this]
  let ?ts = "if is_active t q then ts else t # ts"
  have active: "is_active t q \<longleftrightarrow> t \<in> set ts"
    using active_contents [OF ts(1), of t] by blast
  have one: "linked_ok q1 ?ts" "td_queue (tq_data q1 s) = td_queue (tq_data q s)"
    "expiries (tq_heap q1) = (if is_active t q then expiries (tq_heap q) else (expiries (tq_heap q))(t \<mapsto> time))" for s
    using ts(1) active link_new_timer [OF ts(1) _ assms(3), of t _ time] by (auto simp: q1_def)
  have "t \<in> set ?ts"
    using active by simp
  note two = set_queue_ok [OF one(1) this q']
  show "timers_ok q'"
    using two(1,2) ts(2) one(2) unfolding timers_ok_def by (intro exI [of _ ?ts]) auto
  have none: "td_queue (tq_data q t) = []" if "\<not> is_active t q"
    using ts(1) active that by (simp add: linked_ok_def)
  show "contents q' = add_wait time t op (contents q)"
    using active active_contents [OF ts(1), of t] none
    by (auto simp: fun_eq_iff contents_def add_wait_def two(2,3) one(2,3) split: option.splits)
qed

lemma enqueue_earliest:
  assumes "timers_ok q" "enqueue_timer time t op q = (earliest, q')" "length (tq_heap q) < size_max"
  shows "earliest \<longleftrightarrow> time_at q' 0 = fst (the (contents q' t)) \<and> he_timer (tq_heap q' ! 0) = t \<and>
    wait_id (hd (snd (the (contents q' t)))) = wait_id op"
proof -
  note ok = enqueue_contents [OF assms]
  obtain ts where ts: "linked_ok q' ts"
    using ok(1) by (auto simp: timers_ok_def)
  then have heap: "heap_ok q'" "heap_timers q' = set ts"
    by (simp_all add: linked_ok_def)
  have "contents q' t \<noteq> None"
    by (simp add: ok(2) add_wait_def)
  then have t: "t \<in> heap_timers q'"
    using active_contents [OF ts] heap(2) by blast
  note index = expiry_index [OF heap(1) t]
  have "heap_index (tq_data q' t) = 0 \<longleftrightarrow> he_timer (tq_heap q' ! 0) = t"
  proof
    obtain i where i: "i < length (tq_heap q')" "he_timer (tq_heap q' ! i) = t"
      using t by (auto simp: in_set_conv_nth)
    then show "heap_index (tq_data q' t) = 0 \<Longrightarrow> he_timer (tq_heap q' ! 0) = t"
      using heap(1) by (auto simp: heap_ok_def indexed_def)
    have "0 < length (tq_heap q')"
      using t by auto
    then show "he_timer (tq_heap q' ! 0) = t \<Longrightarrow> heap_index (tq_data q' t) = 0"
      using heap(1) by (auto simp: heap_ok_def indexed_def)
  qed
  moreover have "earliest \<longleftrightarrow> heap_index (tq_data q' t) = 0 \<and> wait_id (hd (td_queue (tq_data q' t))) = wait_id op"
    using assms(2) by (auto simp: enqueue_timer_def Let_def)
  ultimately show ?thesis
    using index(2) by (auto simp: contents_def)
qed

section \<open>Timers that are due\<close>

definition due :: "int \<Rightarrow> timer_map \<Rightarrow> nat set" where
  "due now m = {t. \<exists>x waits. m t = Some (x, waits) \<and> x \<le> now}"

definition expiry_of :: "timer_map \<Rightarrow> nat \<Rightarrow> int" where
  "expiry_of m t = fst (the (m t))"

definition waits_of :: "timer_map \<Rightarrow> nat \<Rightarrow> wait_op list" where
  "waits_of m t = snd (the (m t))"

text \<open>
  The operations of all timers that are due, timer after timer in the order of their expiry; the
  order of timers with the same expiry is open.
\<close>

definition fires :: "int \<Rightarrow> timer_map \<Rightarrow> wait_op list \<Rightarrow> timer_map \<Rightarrow> bool" where
  "fires now m ops m' \<longleftrightarrow> (\<exists>ts. distinct ts \<and> set ts = due now m \<and> sorted (map (expiry_of m) ts) \<and>
     ops = concat (map (map ready_wait \<circ> waits_of m) ts) \<and> m' = m |` (- due now m))"

lemma drain_ready_eq: "drain_ready xs ops = ops @ map ready_wait xs"
  by (induction xs arbitrary: ops) (simp_all add: ready_wait_def)

lemma finite_contents: "finite (dom (contents q))"
proof -
  have "dom (contents q) \<subseteq> heap_timers q"
  proof
    fix t
    assume "t \<in> dom (contents q)"
    then have "expiries (tq_heap q) t \<noteq> None"
      by (auto simp: contents_def)
    then show "t \<in> heap_timers q"
      using expiries_dom [of "tq_heap q" t] by simp
  qed
  then show ?thesis
    by (rule finite_subset) simp
qed

lemma fires_none:
  assumes "due now m = {}"
  shows "fires now m [] m"
  using assms by (auto simp: fires_def)

lemma fires_first:
  assumes "m t = Some (x, waits)" "x \<le> now" "\<And>s y ws. m s = Some (y, ws) \<Longrightarrow> x \<le> y" "fires now (m(t := None)) ops m'"
  shows "fires now m (map ready_wait waits @ ops) m'"
proof -
  obtain ts where ts: "distinct ts" "set ts = due now (m(t := None))" "sorted (map (expiry_of (m(t := None))) ts)"
    "ops = concat (map (map ready_wait \<circ> waits_of (m(t := None))) ts)" "m' = m(t := None) |` (- due now (m(t := None)))"
    using assms(4) by (auto simp: fires_def)
  have rest: "due now m = insert t (due now (m(t := None)))" "t \<notin> due now (m(t := None))"
    using assms(1,2) by (auto simp: due_def)
  have same: "expiry_of (m(t := None)) s = expiry_of m s" "waits_of (m(t := None)) s = waits_of m s" if "s \<in> set ts" for s
    using that rest(2) ts(2) by (auto simp: expiry_of_def waits_of_def)
  have "expiry_of m t \<le> expiry_of m s" if "s \<in> set ts" for s
    using that ts(2) rest assms(1,3) by (auto simp: due_def expiry_of_def split: if_splits)
  moreover have "sorted (map (expiry_of m) ts)" "ops = concat (map (map ready_wait \<circ> waits_of m) ts)"
    using ts(3,4) same by (auto cong: map_cong)
  moreover have "m' = m |` (- due now m)"
    using ts(5) rest assms(1,2) by (auto simp: restrict_map_def due_def fun_eq_iff)
  moreover have "waits_of m t = waits"
    using assms(1) by (simp add: waits_of_def)
  ultimately show ?thesis
    using ts(1,2) rest unfolding fires_def by (intro exI [of _ "t # ts"]) auto
qed

lemma ready_loop_fires:
  assumes "timers_ok q"
  shows "\<exists>out q'. ready_loop now ops q = Some (ops @ out, q') \<and> timers_ok q' \<and> fires now (contents q) out (contents q')"
  using assms
proof (induction "card (dom (contents q))" arbitrary: q ops rule: less_induct)
  case less
  obtain ts where ts: "linked_ok q ts"
    using less.prems by (auto simp: timers_ok_def)
  then have heap: "heap_ok q"
    by (simp add: linked_ok_def)
  show ?case
  proof (cases "tq_heap q \<noteq> [] \<and> \<not> time_less_than now (time_at q 0)")
    case True
    define t where "t = he_timer (tq_heap q ! 0)"
    define q1 where "q1 = remove_timer t (set_data t (td_queue_update (\<lambda>_. [])) q)"
    have t: "t \<in> heap_timers q" "heap_index (tq_data q t) = 0"
      using True heap by (auto simp: t_def heap_ok_def indexed_def)
    then have m: "contents q t = Some (time_at q 0, td_queue (tq_data q t))"
      using expiry_index [OF heap t(1)] by (simp add: contents_def)
    have "q1 = remove_if_empty t (set_data t (td_queue_update (\<lambda>_. [])) q)"
      by (simp add: q1_def remove_if_empty_def set_data_def)
    from remove_if_empty_ok [OF less.prems _ this] m
    have one: "timers_ok q1" "contents q1 = (contents q)(t := None)"
      by (simp_all add: set_waits_def)
    have "card (dom (contents q1)) < card (dom (contents q))"
      using m finite_contents [of q] by (auto simp: one(2) intro!: psubset_card_mono)
    from less.hyps [OF this one(1), of "ops @ map ready_wait (td_queue (tq_data q t))"] obtain out q' where
      rest: "ready_loop now (ops @ map ready_wait (td_queue (tq_data q t))) q1 =
          Some ((ops @ map ready_wait (td_queue (tq_data q t))) @ out, q')"
        "timers_ok q'" "fires now (contents q1) out (contents q')"
      by blast
    have "fires now (contents q) (map ready_wait (td_queue (tq_data q t)) @ out) (contents q')"
    proof (rule fires_first [of "contents q" t, OF m])
      show "time_at q 0 \<le> now"
        using True by (simp add: time_less_than_def)
      show "time_at q 0 \<le> y" if "contents q s = Some (y, ws)" for s y ws
        using that root_earliest [OF heap, of s y] by (auto simp: contents_def)
      show "fires now ((contents q)(t := None)) out (contents q')"
        using rest(3) one(2) by simp
    qed
    moreover have "ready_loop now ops q = Some (ops @ map ready_wait (td_queue (tq_data q t)) @ out, q')"
      using True rest(1) by (subst ready_loop.simps) (simp add: drain_ready_eq Let_def flip: t_def q1_def)
    ultimately show ?thesis
      using rest(2) by blast
  next
    case False
    have "due now (contents q) = {}"
    proof (rule ccontr)
      assume "due now (contents q) \<noteq> {}"
      then obtain t x where "expiries (tq_heap q) t = Some x" "x \<le> now"
        by (auto simp: due_def contents_def)
      moreover from this have "tq_heap q \<noteq> []"
        by (auto simp: expiries_def)
      ultimately show False
        using False root_earliest [OF heap, of t x] by (simp add: time_less_than_def)
    qed
    then have "fires now (contents q) [] (contents q)"
      by (rule fires_none)
    moreover have "ready_loop now ops q = Some (ops, q)"
      using False by (subst ready_loop.simps) auto
    ultimately show ?thesis
      using less.prems by auto
  qed
qed

section \<open>Dequeuing all timers\<close>

lemma all_loop_eq:
  assumes "dll (tq_data q) p ts (tq_timers q) l None" "distinct ts"
  shows "\<exists>q'. all_loop ops q = Some (ops @ concat (map (\<lambda>t. td_queue (tq_data q t)) ts), q') \<and>
    tq_timers q' = None \<and> (\<forall>t. td_queue (tq_data q' t) = (if t \<in> set ts then [] else td_queue (tq_data q t))) \<and>
    (\<forall>t. td_next (tq_data q' t) = (if t \<in> set ts then None else td_next (tq_data q t))) \<and>
    (\<forall>t. td_prev (tq_data q' t) = (if t \<in> set ts then None else td_prev (tq_data q t)))"
  using assms
proof (induction ts arbitrary: p q ops)
  case Nil
  then show ?case
    by (subst all_loop.simps) simp
next
  case (Cons t ts)
  define q1 where "q1 = set_data t (\<lambda>d. d\<lparr>td_queue := [], td_next := None, td_prev := None\<rparr>)
    (q\<lparr>tq_timers := td_next (tq_data q t)\<rparr>)"
  have step: "all_loop ops q = all_loop (ops @ td_queue (tq_data q t)) q1"
    using Cons.prems(1) by (subst all_loop.simps) (simp add: q1_def)
  have other: "tq_data q1 s = tq_data q s" if "s \<noteq> t" for s
    using that by (simp add: q1_def set_data_def)
  have "dll (tq_data q1) (Some t) ts (tq_timers q1) l None = dll (tq_data q) (Some t) ts (tq_timers q1) l None"
    using Cons.prems(2) other by (intro dll_cong) (metis distinct.simps(2))
  then have "dll (tq_data q1) (Some t) ts (tq_timers q1) l None"
    using Cons.prems(1) by (simp add: q1_def set_data_def)
  from Cons.IH [OF this, of "ops @ td_queue (tq_data q t)"] Cons.prems(2) obtain q' where
    rest: "all_loop (ops @ td_queue (tq_data q t)) q1 =
        Some ((ops @ td_queue (tq_data q t)) @ concat (map (\<lambda>t. td_queue (tq_data q1 t)) ts), q')" "tq_timers q' = None"
      "\<And>s. td_queue (tq_data q' s) = (if s \<in> set ts then [] else td_queue (tq_data q1 s))"
      "\<And>s. td_next (tq_data q' s) = (if s \<in> set ts then None else td_next (tq_data q1 s))"
      "\<And>s. td_prev (tq_data q' s) = (if s \<in> set ts then None else td_prev (tq_data q1 s))"
    by auto
  have "map (\<lambda>t. td_queue (tq_data q1 t)) ts = map (\<lambda>t. td_queue (tq_data q t)) ts"
    using Cons.prems(2) other by (intro map_cong) (metis distinct.simps(2))+
  note loop = rest(1) [unfolded this]
  have "td_queue (tq_data q1 t) = []" "td_next (tq_data q1 t) = None" "td_prev (tq_data q1 t) = None"
    by (simp_all add: q1_def set_data_def)
  then show ?case
    using loop rest(2-) other unfolding step by (intro exI [of _ q']) auto
qed

lemma get_all_timers_ok:
  assumes "timers_ok q"
  shows "\<exists>ts q'. get_all_timers ops q = Some (ops @ concat (map (waits_of (contents q)) ts), q') \<and>
    distinct ts \<and> set ts = dom (contents q) \<and> timers_empty q' \<and> contents q' = Map.empty \<and> listed q' [] \<and>
    (\<forall>t. td_queue (tq_data q' t) = [])"
proof -
  obtain ts l where ts: "linked_ok q ts" "distinct ts" "dll (tq_data q) None ts (tq_timers q) l None"
    using assms by (auto simp: timers_ok_def linked_ok_def listed_def)
  from all_loop_eq [OF ts(3,2), of ops] obtain q' where
    all: "all_loop ops q = Some (ops @ concat (map (\<lambda>t. td_queue (tq_data q t)) ts), q')" "tq_timers q' = None"
      "\<And>t. td_queue (tq_data q' t) = (if t \<in> set ts then [] else td_queue (tq_data q t))"
      "\<And>t. td_next (tq_data q' t) = (if t \<in> set ts then None else td_next (tq_data q t))"
      "\<And>t. td_prev (tq_data q' t) = (if t \<in> set ts then None else td_prev (tq_data q t))"
    by auto
  have members: "set ts = dom (contents q)"
    using active_contents(1) [OF ts(1)] by (auto simp: dom_def)
  have "map (\<lambda>t. td_queue (tq_data q t)) ts = map (waits_of (contents q)) ts"
    using members by (intro map_cong) (auto simp: waits_of_def contents_def)
  note loop = all(1) [unfolded this]
  have "td_queue (tq_data q t) = [] \<and> td_next (tq_data q t) = None \<and> td_prev (tq_data q t) = None" if "t \<notin> set ts" for t
    using ts(1) that by (simp add: linked_ok_def listed_def)
  then show ?thesis
    using ts(2) members loop all(2-)
    by (intro exI [of _ ts] exI [of _ "q'\<lparr>tq_heap := []\<rparr>"])
       (auto simp: get_all_timers_def timers_empty_def listed_def fun_eq_iff contents_def expiries_def)
qed

section \<open>Moving\<close>

lemma linked_inactive:
  assumes "linked_ok q ts" "t \<notin> set ts"
  shows "tq_data q t = new_timer_data"
  using assms by (cases "tq_data q t") (force simp: linked_ok_def listed_def new_timer_data_def)

lemma rename_entry:
  assumes "heap_ok q" "s \<in> heap_timers q" "t \<notin> heap_timers q"
    and heap: "tq_heap q' = (tq_heap q)[heap_index (tq_data q s) := (tq_heap q ! heap_index (tq_data q s))\<lparr>he_timer := t\<rparr>]"
    and data: "\<And>r. heap_index (tq_data q' r) = (if r = t then heap_index (tq_data q s) else if r = s then size_max else heap_index (tq_data q r))"
  shows "heap_ok q'" "heap_timers q' = insert t (heap_timers q - {s})"
    "expiries (tq_heap q') = (expiries (tq_heap q))(s := None, t := expiries (tq_heap q) s)"
proof -
  let ?i = "heap_index (tq_data q s)"
  let ?e = "tq_heap q ! ?i"
  note i = expiry_index [OF assms(1,2)]
  have timer: "he_timer ?e = s"
    using assms(1,2) i(1) by (auto simp: heap_ok_def indexed_def in_set_conv_nth)
  have other: "he_timer (tq_heap q ! k) \<noteq> s \<and> he_timer (tq_heap q ! k) \<noteq> t" if "k < length (tq_heap q)" "k \<noteq> ?i" for k
    using that assms(3) indexed_eq [of q k ?i] i(1) timer assms(1) by (auto simp: heap_ok_def)
  have "heap_index (tq_data q' (he_timer (tq_heap q' ! k))) = k" if "k < length (tq_heap q)" for k
    using that other [OF that] i(1) assms(1)
    by (cases "k = ?i") (simp_all add: heap data heap_ok_def indexed_def)
  then have "indexed q'"
    by (simp add: indexed_def heap)
  moreover have "time_at q' k = time_at q k" for k
    using i(1) by (cases "k = ?i") (simp_all add: time_at_def heap)
  ultimately show ok: "heap_ok q'"
    using assms(1) by (simp add: heap_ok_def heap_ordered_def heap)
  have split: "tq_heap q = take ?i (tq_heap q) @ ?e # drop (Suc ?i) (tq_heap q)"
    using i(1) by (simp add: id_take_nth_drop)
  let ?r = "take ?i (tq_heap q) @ drop (Suc ?i) (tq_heap q)"
  have "mset (tq_heap q) = add_mset ?e (mset ?r)"
    by (subst split) simp
  note one = expiries_bag [OF indexed_distinct this]
  have "mset (tq_heap q') = add_mset (?e\<lparr>he_timer := t\<rparr>) (mset ?r)"
    using i(1) by (simp add: heap upd_conv_take_nth_drop)
  note two = expiries_bag [OF indexed_distinct this]
  have s: "s \<notin> he_timer ` set ?r" "t \<notin> he_timer ` set ?r"
    using one(1) two(1) assms(1) ok timer by (auto simp: heap_ok_def)
  have eqs: "set (tq_heap q) = insert ?e (set ?r)" "set (tq_heap q') = insert (?e\<lparr>he_timer := t\<rparr>) (set ?r)"
    using one(2) two(2) assms(1) ok by (simp_all add: heap_ok_def)
  show "heap_timers q' = insert t (heap_timers q - {s})"
    unfolding eqs using timer s by auto
  have "expiries (tq_heap q) = (expiries ?r)(s \<mapsto> he_time ?e)" "expiries (tq_heap q') = (expiries ?r)(t \<mapsto> he_time ?e)"
    using one(3) two(3) assms(1) ok timer by (simp_all add: heap_ok_def)
  moreover have "expiries ?r s = None" "expiries ?r t = None"
    using s by (simp_all only: expiries_dom not_False_eq_True)
  moreover have "s \<noteq> t"
    using assms(2,3) by blast
  ultimately show "expiries (tq_heap q') = (expiries (tq_heap q))(s := None, t := expiries (tq_heap q) s)"
    by (auto simp: fun_eq_iff)
qed

lemma move_waits_fields:
  assumes "target \<noteq> source" "td_queue (tq_data q target) = []" and q'_def: "q' = move_waits target source q"
  shows "tq_heap q' = tq_heap q" "tq_timers q' = tq_timers q" "heap_index (tq_data q' t) = heap_index (tq_data q t)"
    "td_next (tq_data q' t) = td_next (tq_data q t)" "td_prev (tq_data q' t) = td_prev (tq_data q t)"
    "td_queue (tq_data q' t) = (if t = target then td_queue (tq_data q source) else if t = source then [] else td_queue (tq_data q t))"
  using assms(1,2) by (simp_all add: q'_def move_waits_def set_data_def)

lemma move_entry_fields:
  assumes "target \<noteq> source" and q'_def: "q' = move_entry target source q"
  defines "i \<equiv> heap_index (tq_data q source)"
  shows "tq_heap q' = (if i < length (tq_heap q) then (tq_heap q)[i := (tq_heap q ! i)\<lparr>he_timer := target\<rparr>] else tq_heap q)"
    "tq_timers q' = tq_timers q"
    "heap_index (tq_data q' t) = (if t = target then i else if t = source then size_max else heap_index (tq_data q t))"
    "td_next (tq_data q' t) = td_next (tq_data q t)" "td_prev (tq_data q' t) = td_prev (tq_data q t)"
    "td_queue (tq_data q' t) = td_queue (tq_data q t)"
  using assms(1) by (simp_all add: q'_def i_def move_entry_def set_data_def Let_def)

lemma move_links_fields:
  assumes "target \<noteq> source" and q'_def: "q' = move_links target source q"
    and "td_prev (tq_data q source) = p" "td_next (tq_data q source) = n"
    and "p \<notin> {Some source, Some target}" "n \<notin> {Some source, Some target}"
  shows "tq_heap q' = tq_heap q" "tq_timers q' = (if tq_timers q = Some source then Some target else tq_timers q)"
    "heap_index (tq_data q' t) = heap_index (tq_data q t)" "td_queue (tq_data q' t) = td_queue (tq_data q t)"
    "td_next (tq_data q' t) = (if t = target then n else if t = source then None
       else if p = Some t then Some target else td_next (tq_data q t))"
    "td_prev (tq_data q' t) = (if t = target then p else if t = source then None
       else if n = Some t then Some target else td_prev (tq_data q t))"
  using assms(1,3-) unfolding q'_def move_links_def Let_def
  by (cases p; cases n; simp add: set_data_def)+

text \<open>The members of the two timers and of their neighbours after a move.\<close>

lemma move_timer_fields:
  assumes "target \<noteq> source" "td_queue (tq_data q target) = []" and q'_def: "q' = tq_move_timer target source q"
    and p: "td_prev (tq_data q source) = p" "p \<notin> {Some source, Some target}"
    and n: "td_next (tq_data q source) = n" "n \<notin> {Some source, Some target}"
    and i: "heap_index (tq_data q source) = i"
  shows "tq_heap q' = (if i < length (tq_heap q) then (tq_heap q)[i := (tq_heap q ! i)\<lparr>he_timer := target\<rparr>] else tq_heap q)"
    "tq_timers q' = (if tq_timers q = Some source then Some target else tq_timers q)"
    "td_queue (tq_data q' t) = (if t = target then td_queue (tq_data q source) else if t = source then [] else td_queue (tq_data q t))"
    "heap_index (tq_data q' t) = (if t = target then i else if t = source then size_max else heap_index (tq_data q t))"
    "td_next (tq_data q' t) = (if t = target then n else if t = source then None else if p = Some t then Some target else td_next (tq_data q t))"
    "td_prev (tq_data q' t) = (if t = target then p else if t = source then None else if n = Some t then Some target else td_prev (tq_data q t))"
proof -
  define q1 where "q1 = move_waits target source q"
  define q2 where "q2 = move_entry target source q1"
  have q': "q' = move_links target source q2"
    by (simp only: q'_def tq_move_timer_def q1_def q2_def)
  note one = move_waits_fields [OF assms(1,2) q1_def]
  note two = move_entry_fields [OF assms(1) q2_def, unfolded one i]
  note three = move_links_fields [OF assms(1) q' _ _ p(2) n(2), unfolded two, OF p(1) n(1)]
  show "tq_heap q' = (if i < length (tq_heap q) then (tq_heap q)[i := (tq_heap q ! i)\<lparr>he_timer := target\<rparr>] else tq_heap q)"
    "tq_timers q' = (if tq_timers q = Some source then Some target else tq_timers q)"
    "td_queue (tq_data q' t) = (if t = target then td_queue (tq_data q source) else if t = source then [] else td_queue (tq_data q t))"
    "heap_index (tq_data q' t) = (if t = target then i else if t = source then size_max else heap_index (tq_data q t))"
    "td_next (tq_data q' t) = (if t = target then n else if t = source then None else if p = Some t then Some target else td_next (tq_data q t))"
    "td_prev (tq_data q' t) = (if t = target then p else if t = source then None else if n = Some t then Some target else td_prev (tq_data q t))"
    by (simp_all only: three)
qed

lemma move_linked:
  assumes "linked_ok q (xs @ source # ys)" "target \<notin> set (xs @ source # ys)" and q'_def: "q' = tq_move_timer target source q"
  shows "linked_ok q' (xs @ target # ys)"
    "expiries (tq_heap q') = (expiries (tq_heap q))(source := None, target := expiries (tq_heap q) source)"
    "td_queue (tq_data q' t) = (if t = target then td_queue (tq_data q source) else if t = source then [] else td_queue (tq_data q t))"
proof -
  have ok: "listed q (xs @ source # ys)" "heap_ok q" "heap_timers q = set (xs @ source # ys)" "length (tq_heap q) \<le> size_max"
    using assms(1) by (simp_all add: linked_ok_def)
  note out = linked_inactive [OF assms(1)]
  have d: "distinct (xs @ source # ys)"
    using ok(1) by (simp add: listed_def)
  let ?p = "td_prev (tq_data q source)" and ?n = "td_next (tq_data q source)"
  obtain l where around: "dll (tq_data q) None xs (tq_timers q) ?p (Some source)" "dll (tq_data q) (Some source) ys ?n l None"
    using listed_around [OF ok(1)] .
  have p: "?p = None \<or> (\<exists>x. ?p = Some x \<and> x \<in> set xs)"
    using around(1) by (cases xs rule: rev_cases) (auto simp: dll_snoc)
  have n: "?n = None \<or> (\<exists>y. ?n = Some y \<and> y \<in> set ys)"
    using around(2) by (cases ys) auto
  have other: "target \<noteq> source" "td_queue (tq_data q target) = []"
    using assms(2) out [OF assms(2)] by (auto simp: new_timer_data_def)
  have "?p \<notin> {Some source, Some target}" "?n \<notin> {Some source, Some target}"
    using p n d assms(2) by auto
  note fields = move_timer_fields [OF other q'_def refl this(1) refl this(2) refl]
  show "td_queue (tq_data q' t) = (if t = target then td_queue (tq_data q source) else if t = source then [] else td_queue (tq_data q t))" for t
    by (rule fields(3))
  have s: "source \<in> heap_timers q" "target \<notin> heap_timers q"
    using ok(3) assms(2) by simp_all
  note heap = rename_entry [OF ok(2) s fields(1) [unfolded if_P [OF expiry_index(1) [OF ok(2) s(1)]]] fields(4)]
  show "expiries (tq_heap q') = (expiries (tq_heap q))(source := None, target := expiries (tq_heap q) source)"
    by (rule heap(3))
  have head: "tq_timers q' = (if xs = [] then Some target else tq_timers q)"
    using fields(2) listed_head [OF ok(1)] by simp
  have near: "td_next (tq_data q' s) = (if ?p = Some s then Some target else td_next (tq_data q s)) \<and>
      td_prev (tq_data q' s) = (if ?n = Some s then Some target else td_prev (tq_data q s))" if "s \<in> set xs \<union> set ys" for s
  proof -
    have "s \<noteq> target" "s \<noteq> source"
      using that d assms(2) by auto
    then show ?thesis
      by (simp add: fields(5,6))
  qed
  note splice = dll_splice [OF around d near, folded head]
  have at: "td_prev (tq_data q' target) = ?p" "td_next (tq_data q' target) = ?n"
    by (simp_all add: fields(5,6))
  from splice(2) obtain l' where l': "dll (tq_data q') (Some target) ys ?n l' None" ..
  have "dll (tq_data q') None (xs @ target # ys) (tq_timers q') l' None"
    using splice(1) l' at unfolding dll_append by (intro exI [of _ ?p] exI [of _ "Some target"]) simp
  moreover have gone: "td_next (tq_data q' s) = None \<and> td_prev (tq_data q' s) = None \<and> td_queue (tq_data q' s) = [] \<and>
      heap_index (tq_data q' s) = size_max" if "s \<notin> set (xs @ target # ys)" for s
  proof -
    have "s \<noteq> target" "?p \<noteq> Some s" "?n \<noteq> Some s"
      using that p n by auto
    then show ?thesis
      using out [of s] that by (cases "s = source") (simp_all add: fields(3-6) new_timer_data_def)
  qed
  ultimately have "listed q' (xs @ target # ys)"
    using d assms(2) by (auto simp: listed_def)
  moreover have "heap_timers q' = set (xs @ target # ys)"
    using heap(2) ok(3) d by auto
  ultimately show "linked_ok q' (xs @ target # ys)"
    using heap(1) gone ok(4) fields(1) by (simp add: linked_ok_def)
qed

lemma move_inactive:
  assumes "linked_ok q ts" "source \<notin> set ts" "target \<notin> set ts" "target \<noteq> source"
  shows "tq_move_timer target source q = q"
proof -
  let ?q = "tq_move_timer target source q"
  note data = linked_inactive [OF assms(1,2)] linked_inactive [OF assms(1,3)]
  have "td_queue (tq_data q target) = []" "td_prev (tq_data q source) = None" "None \<notin> {Some source, Some target}"
    "td_next (tq_data q source) = None" "None \<notin> {Some source, Some target}" "heap_index (tq_data q source) = size_max"
    by (simp_all add: data new_timer_data_def)
  note fields = move_timer_fields [OF assms(4) this(1) refl this(2-6)]
  have "tq_timers q \<noteq> Some source"
    using assms(1,2) is_active_listed [of q ts source] by (auto simp: linked_ok_def is_active_def)
  moreover have "tq_data ?q t = tq_data q t" for t
    using data by (intro per_timer_data.equality) (simp_all add: fields new_timer_data_def)
  moreover have "tq_heap ?q = tq_heap q"
    using fields(1) assms(1) by (simp add: linked_ok_def)
  ultimately show ?thesis
    using fields(2) by (intro timer_queue.equality) (auto simp: fun_eq_iff)
qed

lemma move_timer_ok:
  assumes "timers_ok q" "target \<noteq> source" "contents q target = None"
  shows "timers_ok (tq_move_timer target source q)"
    "contents (tq_move_timer target source q) = (contents q)(source := None, target := contents q source)"
proof -
  let ?q = "tq_move_timer target source q"
  obtain ts where ts: "linked_ok q ts" "\<And>s. s \<in> set ts \<Longrightarrow> td_queue (tq_data q s) \<noteq> []"
    using assms(1) by (auto simp: timers_ok_def)
  have target: "target \<notin> set ts"
    using active_contents(1) [OF ts(1)] assms(3) by blast
  have "timers_ok ?q \<and> contents ?q = (contents q)(source := None, target := contents q source)"
  proof (cases "source \<in> set ts")
    case True
    then obtain xs ys where split: "ts = xs @ source # ys"
      by (metis split_list)
    note moved = move_linked [OF ts(1) [unfolded split] target [unfolded split] refl]
    have "distinct (xs @ source # ys)"
      using ts(1) split by (simp add: linked_ok_def listed_def)
    then have "td_queue (tq_data ?q t) \<noteq> []" if "t \<in> set (xs @ target # ys)" for t
      using ts(2) split that by (auto simp: moved(3))
    then have "timers_ok ?q"
      using moved(1) unfolding timers_ok_def by blast
    moreover have "contents ?q = (contents q)(source := None, target := contents q source)"
      using assms(2) by (auto simp: fun_eq_iff contents_def moved(2,3))
    ultimately show ?thesis
      by blast
  next
    case False
    then have "contents q source = None"
      using active_contents(1) [OF ts(1)] by blast
    then show ?thesis
      using move_inactive [OF ts(1) False target assms(2)] assms(1,3) by (simp add: fun_upd_idem)
  qed
  then show "timers_ok ?q" "contents ?q = (contents q)(source := None, target := contents q source)"
    by blast+
qed

section \<open>The queue implements the map\<close>

datatype timer_op =
    Enqueue int nat wait_op
  | Cancel_Waits nat nat
  | Cancel_By_Key nat nat
  | Move_Timer nat nat
  | Fire int

text \<open>The operations of the queue; the result is the list of operations that are to be completed.\<close>

definition timer_step :: "timer_op \<Rightarrow> timer_queue \<Rightarrow> (wait_op list \<times> timer_queue) option" where
  "timer_step opn q = (case opn of
      Enqueue time t op \<Rightarrow> Some ([], snd (enqueue_timer time t op q))
    | Cancel_Waits t n \<Rightarrow> Some (snd (tq_cancel_timer t [] n q))
    | Cancel_By_Key t key \<Rightarrow> Some (tq_cancel_timer_by_key t [] key q)
    | Move_Timer target source \<Rightarrow> Some ([], tq_move_timer target source q)
    | Fire now \<Rightarrow> get_ready_timers now [] q)"

text \<open>
  The same operations on the map, as a relation between the map before, the operations that are
  completed, and the map after.
\<close>

definition cancels :: "nat \<Rightarrow> (wait_op list \<Rightarrow> wait_op list \<times> wait_op list) \<Rightarrow> timer_map \<Rightarrow> wait_op list \<Rightarrow> timer_map \<Rightarrow> bool" where
  "cancels t pick m out m' \<longleftrightarrow> (case m t of
      None \<Rightarrow> out = [] \<and> m' = m
    | Some (x, waits) \<Rightarrow> case pick waits of (chosen, rest) \<Rightarrow> out = map abort_wait chosen \<and> m' = set_waits t rest m)"

definition timer_spec :: "timer_op \<Rightarrow> timer_map \<Rightarrow> wait_op list \<Rightarrow> timer_map \<Rightarrow> bool" where
  "timer_spec opn m out m' \<longleftrightarrow> (case opn of
      Enqueue time t op \<Rightarrow> out = [] \<and> m' = add_wait time t op m
    | Cancel_Waits t n \<Rightarrow> cancels t (\<lambda>waits. (take n waits, drop n waits)) m out m'
    | Cancel_By_Key t key \<Rightarrow> cancels t (partition (\<lambda>op. wait_key op = key)) m out m'
    | Move_Timer target source \<Rightarrow> out = [] \<and> m' = m(source := None, target := m source)
    | Fire now \<Rightarrow> fires now m out m')"

text \<open>
  What the callers ensure: the heap can grow, and a timer is moved to another one that is not
  active.
\<close>

definition timer_op_allowed :: "timer_op \<Rightarrow> timer_queue \<Rightarrow> bool" where
  "timer_op_allowed opn q \<longleftrightarrow> (case opn of
      Enqueue time t op \<Rightarrow> length (tq_heap q) < size_max
    | Move_Timer target source \<Rightarrow> target \<noteq> source \<and> contents q target = None
    | _ \<Rightarrow> True)"

lemma get_ready_fires:
  assumes "timers_ok q"
  shows "\<exists>out q'. get_ready_timers now ops q = Some (ops @ out, q') \<and> timers_ok q' \<and> fires now (contents q) out (contents q')"
proof (cases "tq_heap q = []")
  case True
  then have "due now (contents q) = {}"
    by (auto simp: due_def contents_def expiries_def)
  then show ?thesis
    using True assms fires_none by (auto simp: get_ready_timers_def)
next
  case False
  then show ?thesis
    using ready_loop_fires [OF assms, of now ops] by (simp add: get_ready_timers_def)
qed

lemma timer_step_refines:
  assumes "timers_ok q" "timer_op_allowed opn q"
  shows "\<exists>out q'. timer_step opn q = Some (out, q') \<and> timers_ok q' \<and> timer_spec opn (contents q) out (contents q')"
proof (cases opn)
  case (Enqueue time t op)
  obtain b q' where run: "enqueue_timer time t op q = (b, q')"
    by (metis prod.exhaust)
  then show ?thesis
    using Enqueue assms enqueue_contents [OF assms(1) run] by (simp add: timer_step_def timer_spec_def timer_op_allowed_def)
next
  case (Cancel_Waits t n)
  obtain k ops q' where run: "tq_cancel_timer t [] n q = (k, ops, q')"
    by (metis prod.exhaust)
  show ?thesis
    using Cancel_Waits run cancel_timer_ok [OF assms(1) run]
    by (auto simp: timer_step_def timer_spec_def cancels_def split: option.splits)
next
  case (Cancel_By_Key t key)
  obtain ops q' where run: "tq_cancel_timer_by_key t [] key q = (ops, q')"
    by (metis prod.exhaust)
  show ?thesis
    using Cancel_By_Key run cancel_timer_by_key_ok [OF assms(1) run]
    by (auto simp: timer_step_def timer_spec_def cancels_def comp_def split: option.splits)
next
  case (Move_Timer target source)
  then show ?thesis
    using assms move_timer_ok [OF assms(1), of target source]
    by (simp add: timer_step_def timer_spec_def timer_op_allowed_def)
next
  case (Fire now)
  then show ?thesis
    using get_ready_fires [OF assms(1), of now "[]"] by (simp add: timer_step_def timer_spec_def)
qed

lemma new_queue_ok: "timers_ok new_timer_queue" "contents new_timer_queue = Map.empty"
proof -
  have "linked_ok new_timer_queue []"
    by (simp add: linked_ok_def listed_def heap_ok_def indexed_def heap_ordered_def new_timer_queue_def new_timer_data_def)
  then show "timers_ok new_timer_queue"
    unfolding timers_ok_def by fastforce
  show "contents new_timer_queue = Map.empty"
    by (simp add: fun_eq_iff contents_def new_timer_queue_def expiries_def)
qed

section \<open>How long to wait\<close>

text \<open>How long to wait for a duration, in a unit of \<open>u\<close> nanoseconds.\<close>

definition to_unit :: "int \<Rightarrow> int \<Rightarrow> int \<Rightarrow> int" where
  "to_unit u d max_duration = (if d \<le> 0 then 0 else if d div u = 0 then 1 else min max_duration (d div u))"

lemma to_units: "to_msec d m = to_unit 1000000 d m" "to_usec d m = to_unit 1000 d m"
  by (simp_all add: to_msec_def to_usec_def to_unit_def total_milliseconds_def total_microseconds_def Let_def)

lemma to_unit_bounds:
  assumes "u > 0" "1 \<le> m"
  shows "0 \<le> to_unit u d m" "to_unit u d m \<le> m" "to_unit u d m = 0 \<longleftrightarrow> d \<le> 0" "0 < d \<Longrightarrow> to_unit u d m * u \<le> max u d"
proof -
  have pos: "0 < d div u" if "0 < d" "d div u \<noteq> 0"
    using that assms(1) by (simp add: order.strict_iff_order pos_imp_zdiv_nonneg_iff)
  then show "0 \<le> to_unit u d m" "to_unit u d m \<le> m" "to_unit u d m = 0 \<longleftrightarrow> d \<le> 0"
    using assms by (auto simp: to_unit_def)
  assume "0 < d"
  have "d div u * u \<le> d"
    using div_mult_mod_eq [of d u] pos_mod_sign [OF assms(1), of d] by linarith
  moreover have "min m (d div u) * u \<le> d div u * u"
    using assms(1) by (intro mult_right_mono) auto
  ultimately have "min m (d div u) * u \<le> d"
    by linarith
  then show "to_unit u d m * u \<le> max u d"
    using \<open>0 < d\<close> assms(1) by (auto simp: to_unit_def le_max_iff_disj)
qed

definition wait_duration :: "int \<Rightarrow> int \<Rightarrow> int \<Rightarrow> timer_queue \<Rightarrow> int" where
  "wait_duration u now m q = (if tq_heap q = [] then m else to_unit u (subtract_time (time_at q 0) now) m)"

lemma wait_durations: "wait_duration_msec now m q = wait_duration 1000000 now m q" "wait_duration_usec now m q = wait_duration 1000 now m q"
  by (simp_all add: wait_duration_msec_def wait_duration_usec_def wait_duration_def to_units)

definition times_fit :: "timer_map \<Rightarrow> bool" where
  "times_fit m \<longleftrightarrow> (\<forall>t x waits. m t = Some (x, waits) \<longrightarrow> in_int64 x)"

lemma root_in_map:
  assumes "timers_ok q" "tq_heap q \<noteq> []"
  shows "\<exists>waits. contents q (he_timer (tq_heap q ! 0)) = Some (time_at q 0, waits)"
    "contents q t = Some (x, waits) \<Longrightarrow> time_at q 0 \<le> x"
proof -
  have heap: "heap_ok q"
    using assms(1) by (auto simp: timers_ok_def linked_ok_def)
  have "he_timer (tq_heap q ! 0) \<in> heap_timers q" "heap_index (tq_data q (he_timer (tq_heap q ! 0))) = 0"
    using heap assms(2) by (auto simp: heap_ok_def indexed_def)
  then show "\<exists>waits. contents q (he_timer (tq_heap q ! 0)) = Some (time_at q 0, waits)"
    using expiry_index(2) [OF heap, of "he_timer (tq_heap q ! 0)"] by (simp add: contents_def)
  show "contents q t = Some (x, waits) \<Longrightarrow> time_at q 0 \<le> x"
    using root_earliest [OF heap] by (auto simp: contents_def)
qed

lemma wait_duration_ok:
  assumes "timers_ok q" "times_fit (contents q)" "in_int64 now" "u > 0" "1 \<le> m"
  shows "0 \<le> wait_duration u now m q" "wait_duration u now m q \<le> m"
    "wait_duration u now m q = 0 \<longleftrightarrow> due now (contents q) \<noteq> {}"
    "contents q t = Some (x, waits) \<Longrightarrow> now < x \<Longrightarrow> wait_duration u now m q * u \<le> max u (x - now)"
proof -
  let ?d = "subtract_time (time_at q 0) now"
  show "0 \<le> wait_duration u now m q" "wait_duration u now m q \<le> m"
    using to_unit_bounds [OF assms(4,5), of ?d] assms(5) by (simp_all add: wait_duration_def)
  show "wait_duration u now m q = 0 \<longleftrightarrow> due now (contents q) \<noteq> {}"
  proof (cases "tq_heap q = []")
    case True
    then show ?thesis
      using assms(5) by (auto simp: wait_duration_def due_def contents_def expiries_def)
  next
    case False
    note root = root_in_map [OF assms(1) False]
    then have "in_int64 (time_at q 0)"
      using assms(2) by (auto simp: times_fit_def)
    then have "?d \<le> 0 \<longleftrightarrow> time_at q 0 \<le> now"
      using assms(3) int64_limits by (simp add: subtract_saturates saturate64_def) linarith
    moreover have "due now (contents q) \<noteq> {} \<longleftrightarrow> time_at q 0 \<le> now"
      using root by (force simp: due_def)
    ultimately show ?thesis
      using False to_unit_bounds(3) [OF assms(4,5), of ?d] by (simp add: wait_duration_def)
  qed
  assume t: "contents q t = Some (x, waits)" "now < x"
  then have False: "tq_heap q \<noteq> []"
    by (auto simp: contents_def expiries_def)
  note root = root_in_map [OF assms(1) False]
  then have "in_int64 (time_at q 0)"
    using assms(2) by (auto simp: times_fit_def)
  then have "?d \<le> max 0 (time_at q 0 - now)"
    using assms(3) int64_limits by (simp add: subtract_saturates saturate64_def) linarith
  then have "?d \<le> x - now"
    using root(2) [OF t(1)] t(2) by linarith
  then show "wait_duration u now m q * u \<le> max u (x - now)"
    using to_unit_bounds(3,4) [OF assms(4,5), of ?d] False assms(4) t(2)
    by (cases "0 < ?d") (auto simp: wait_duration_def)
qed

section \<open>Properties\<close>

text \<open>
  C27. The timer queue implements a finite map. In a state that satisfies the invariant (the heap is
  ordered, its entries and the timers refer to each other, the list has the same timers, and
  each of them has operations waiting) the five operations on timers (adding a wait, cancelling, cancelling
  by key, moving, and firing the due timers) return, keep the invariant, and do
  to the map from timers to expiry and waiting operations what the specification says: a wait is
  added to its timer, cancelling takes the first waits or those with a key and ends the timer when
  none is left, moving renames the timer, and firing completes exactly the waits of all timers
  that are due, in the order of their expiry. \<open>get_all_timers\<close>, with which a queue is shut down, is not
  among them: it empties the heap and leaves the indices in the timers as they are.
\<close>

theorem timer_queue_refines_map:
  assumes "timers_ok q" "timer_op_allowed opn q"
  shows "\<exists>out q'. timer_step opn q = Some (out, q') \<and> timers_ok q' \<and> timer_spec opn (contents q) out (contents q')"
  using assms by (rule timer_step_refines)

definition demo_wait :: wait_op where
  "demo_wait = \<lparr>wait_id = 7, wait_ec = no_error, wait_key = 0\<rparr>"

lemma size_max_pos [simp]: "0 < size_max"
  by (simp add: size_max_def)

theorem timer_queue_refines_map_witness:
  "\<exists>q'. timer_step (Enqueue 5000 2 demo_wait) new_timer_queue = Some ([], q') \<and> timers_ok q' \<and>
     contents q' = [2 \<mapsto> (5000, [demo_wait])]"
proof -
  have "timer_op_allowed (Enqueue 5000 2 demo_wait) new_timer_queue"
    by (simp add: timer_op_allowed_def new_timer_queue_def)
  from timer_queue_refines_map [OF new_queue_ok(1) this] show ?thesis
    by (auto simp: timer_spec_def add_wait_def new_queue_ok(2))
qed

text \<open>
  A new wait is reported as the earliest, which makes the reactor wake up and compute its timeout
  again, only if no timer expires before it, and always if it starts a timer that expires
  before all others; an operation that joins an active timer never changes when that expires.
\<close>

lemma enqueue_reports_earliest:
  assumes "timers_ok q" "length (tq_heap q) < size_max" "enqueue_timer time t op q = (earliest, q')"
  shows "(earliest \<longrightarrow> earliest_in t (contents q')) \<and>
    (contents q t = None \<and> (\<forall>s x waits. contents q s = Some (x, waits) \<longrightarrow> time < x) \<longrightarrow> earliest) \<and>
    (\<forall>x waits. contents q t = Some (x, waits) \<longrightarrow> contents q' t = Some (x, waits @ [op]))"
proof -
  note ok = enqueue_contents [OF assms(1,3,2)]
  note first = enqueue_earliest [OF assms(1,3,2)]
  have "contents q' t \<noteq> None"
    by (simp add: ok(2) add_wait_def)
  then have heap: "tq_heap q' \<noteq> []"
    by (auto simp: contents_def expiries_def)
  note root = root_in_map [OF ok(1) heap]
  have "earliest_in t (contents q')" if earliest
    using that first root(2) by (auto simp: earliest_in_def)
  moreover have earliest if new: "contents q t = None" "\<And>s x waits. contents q s = Some (x, waits) \<Longrightarrow> time < x"
  proof -
    have t: "contents q' t = Some (time, [op])"
      using new(1) by (simp add: ok(2) add_wait_def)
    obtain waits where at: "contents q' (he_timer (tq_heap q' ! 0)) = Some (time_at q' 0, waits)"
      using root(1) by blast
    have "he_timer (tq_heap q' ! 0) = t"
    proof (rule ccontr)
      assume "he_timer (tq_heap q' ! 0) \<noteq> t"
      then have "contents q (he_timer (tq_heap q' ! 0)) = Some (time_at q' 0, waits)"
        using at by (simp add: ok(2) add_wait_def)
      then show False
        using new(2) root(2) [OF t] by fastforce
    qed
    then show earliest
      using first t at by simp
  qed
  moreover have "contents q' t = Some (x, waits @ [op])" if "contents q t = Some (x, waits)" for x waits
    using that by (simp add: ok(2) add_wait_def)
  ultimately show ?thesis
    by blast
qed

lemma demo_enqueue:
  assumes "enqueue_timer 5000 2 demo_wait new_timer_queue = (earliest, q')"
  shows "timers_ok q'" "contents q' = [2 \<mapsto> (5000, [demo_wait])]"
proof -
  have "length (tq_heap new_timer_queue) < size_max"
    by (simp add: new_timer_queue_def)
  from enqueue_contents [OF new_queue_ok(1) assms this]
  show "timers_ok q'" "contents q' = [2 \<mapsto> (5000, [demo_wait])]"
    by (simp_all add: add_wait_def new_queue_ok(2))
qed

lemma enqueue_reports_earliest_example:
  "fst (enqueue_timer 5000 2 demo_wait new_timer_queue)"
proof -
  obtain b q' where run: "enqueue_timer 5000 2 demo_wait new_timer_queue = (b, q')"
    by (metis prod.exhaust)
  have "length (tq_heap new_timer_queue) < size_max"
    by (simp add: new_timer_queue_def)
  from enqueue_reports_earliest [OF new_queue_ok(1) this run] show ?thesis
    by (simp add: run new_queue_ok(2))
qed

text \<open>
  How long the reactor waits for a timer queue, in milliseconds and microseconds, if it may wait
  for one unit at least: not longer than it may; not at all exactly if a timer is due, so that it
  neither misses a timer nor spins; and never longer than until a timer that is not due yet
  expires, or one unit if that is more.
\<close>

lemma wait_duration_bounds:
  assumes "timers_ok q" "times_fit (contents q)" "in_int64 now" "1 \<le> m"
    and "r \<in> {(wait_duration_msec now m q, 1000000), (wait_duration_usec now m q, 1000)}"
  shows "0 \<le> fst r \<and> fst r \<le> m \<and> (fst r = 0 \<longleftrightarrow> due now (contents q) \<noteq> {}) \<and>
    (\<forall>t x waits. contents q t = Some (x, waits) \<and> now < x \<longrightarrow> fst r * snd r \<le> max (snd r) (x - now))"
proof -
  obtain u where "r = (wait_duration u now m q, u)" "u > 0"
    using assms(5) by (auto simp: wait_durations)
  then show ?thesis
    using wait_duration_ok [OF assms(1-3) _ assms(4), of u] by auto
qed

lemma wait_duration_bounds_example:
  "let q = snd (enqueue_timer 5000 2 demo_wait new_timer_queue)
   in 0 < wait_duration_usec 0 300000000 q \<and> wait_duration_usec 0 300000000 q * 1000 \<le> 5000"
proof -
  obtain b q where run: "enqueue_timer 5000 2 demo_wait new_timer_queue = (b, q)"
    by (metis prod.exhaust)
  note q = demo_enqueue [OF run]
  have "times_fit (contents q)" "in_int64 0"
    by (auto simp: times_fit_def q(2) in_int64_def int64_min_def int64_max_def split: if_splits)
  note bounds = wait_duration_bounds [OF q(1) this, of 300000000 "(wait_duration_usec 0 300000000 q, 1000)", simplified]
  have "due 0 (contents q) = {}" "contents q 2 = Some (5000, [demo_wait])"
    by (auto simp: due_def q(2) split: if_splits)
  moreover from this(2) have "wait_duration_usec 0 300000000 q * 1000 \<le> max 1000 5000"
    using bounds by fastforce
  ultimately show ?thesis
    using bounds by (auto simp: run)
qed

end
