(* ===== verification/Asio_Deadline_Timer.thy ===== *)
theory Asio_Deadline_Timer
  imports Asio_Timers Asio_Scheduler
begin

text \<open>
  Model of the timers above the timer queue: the set of timer queues
  (\<open>asio/detail/impl/timer_queue_set.ipp\<close>), the functions of the reactor for timers
  (\<open>asio/detail/impl/epoll_reactor.hpp\<close> and \<open>epoll_reactor.ipp\<close>), and the service behind
  \<open>basic_waitable_timer\<close> (\<open>asio/detail/deadline_timer_service.hpp\<close>). The set of queues is a list. The theory
  shows that every asynchronous wait completes exactly once, and that a wait that is not cancelled
  completes when the timer has expired, not before.
\<close>

section \<open>The set of timer queues\<close>

text \<open>The set as the list of the addresses of its queues.\<close>

definition set_insert :: "nat \<Rightarrow> nat list \<Rightarrow> nat list" where
  "set_insert q ps = q # ps"

fun set_erase :: "nat \<Rightarrow> nat list \<Rightarrow> nat list" where
  "set_erase q [] = []"
| "set_erase q (p # ps) = (if p = q then ps else p # set_erase q ps)"

text \<open>The other functions go through the queues in this order.\<close>

definition set_all_empty :: "timer_queue list \<Rightarrow> bool" where
  "set_all_empty qs \<longleftrightarrow> (\<forall>q \<in> set qs. timers_empty q)"

fun set_wait_duration_msec :: "int \<Rightarrow> int \<Rightarrow> timer_queue list \<Rightarrow> int" where
  "set_wait_duration_msec now min_duration [] = min_duration"
| "set_wait_duration_msec now min_duration (p # ps) =
     set_wait_duration_msec now (wait_duration_msec now min_duration p) ps"

fun set_wait_duration_usec :: "int \<Rightarrow> int \<Rightarrow> timer_queue list \<Rightarrow> int" where
  "set_wait_duration_usec now min_duration [] = min_duration"
| "set_wait_duration_usec now min_duration (p # ps) =
     set_wait_duration_usec now (wait_duration_usec now min_duration p) ps"

fun set_get_ready_timers :: "int \<Rightarrow> wait_op list \<Rightarrow> timer_queue list \<Rightarrow> (wait_op list \<times> timer_queue list) option" where
  "set_get_ready_timers now ops [] = Some (ops, [])"
| "set_get_ready_timers now ops (p # ps) = (case get_ready_timers now ops p of
      None \<Rightarrow> None
    | Some (ops', p') \<Rightarrow> map_option (\<lambda>(ops'', ps'). (ops'', p' # ps')) (set_get_ready_timers now ops' ps))"

fun set_get_all_timers :: "wait_op list \<Rightarrow> timer_queue list \<Rightarrow> (wait_op list \<times> timer_queue list) option" where
  "set_get_all_timers ops [] = Some (ops, [])"
| "set_get_all_timers ops (p # ps) = (case get_all_timers ops p of
      None \<Rightarrow> None
    | Some (ops', p') \<Rightarrow> map_option (\<lambda>(ops'', ps'). (ops'', p' # ps')) (set_get_all_timers ops' ps))"

section \<open>The reactor\<close>

text \<open>The longest time to wait is five minutes.\<close>

definition get_timeout_msec :: "int \<Rightarrow> int \<Rightarrow> timer_queue list \<Rightarrow> int" where
  "get_timeout_msec now msec qs =
     (let max_msec = 5 * 60 * 1000
      in set_wait_duration_msec now (if msec < 0 \<or> max_msec < msec then max_msec else msec) qs)"

text \<open>The \<open>itimerspec\<close> (seconds and nanoseconds of \<open>it_value\<close>) and whether \<open>TFD_TIMER_ABSTIME\<close> is set.\<close>

definition get_timeout_ts :: "int \<Rightarrow> timer_queue list \<Rightarrow> (int \<times> int) \<times> bool" where
  "get_timeout_ts now qs =
     (let usec = set_wait_duration_usec now (5 * 60 * 1000 * 1000) qs
      in ((usec div 1000000, if usec \<noteq> 0 then (usec mod 1000000) * 1000 else 1), usec = 0))"

text \<open>
  The timeout of \<open>epoll_wait\<close> in \<open>run\<close>: the queues are looked at only if there is no timer descriptor. The
  milliseconds, a \<open>long\<close>, are stored in an \<open>int\<close> of 32 bit.
\<close>

definition int_of_long :: "int \<Rightarrow> int" where
  "int_of_long x = (x + 2 ^ 31) mod 2 ^ 32 - 2 ^ 31"

definition run_timeout :: "bool \<Rightarrow> int \<Rightarrow> int \<Rightarrow> timer_queue list \<Rightarrow> int" where
  "run_timeout timer_fd now usec qs =
     (if usec = 0 then 0
      else let timeout = int_of_long (if usec < 0 then -1 else (usec - 1) div 1000 + 1)
           in if \<not> timer_fd then get_timeout_msec now timeout qs else timeout)"

text \<open>
  \<open>update_timeout\<close>: the timer descriptor is set, or the reactor is interrupted.
\<close>

datatype timeout_update = Timerfd_Settime "(int \<times> int) \<times> bool" | Interrupt

definition update_timeout :: "bool \<Rightarrow> int \<Rightarrow> timer_queue list \<Rightarrow> timeout_update" where
  "update_timeout timer_fd now qs = (if timer_fd then Timerfd_Settime (get_timeout_ts now qs) else Interrupt)"

text \<open>
  \<open>schedule_timer\<close>: whether \<open>update_timeout\<close> is called, the calls on the scheduler, and the queue. After
  the shutdown the operation is posted.
\<close>

definition schedule_timer :: "bool \<Rightarrow> int \<Rightarrow> nat \<Rightarrow> wait_op \<Rightarrow> timer_queue \<Rightarrow> bool \<times> handler_call list \<times> timer_queue" where
  "schedule_timer is_shutdown time t op q =
     (if is_shutdown then (False, [Post (wait_id op) False], q)
      else let (earliest, q') = enqueue_timer time t op q in (earliest, [Work_Started], q'))"

definition reactor_cancel_timer ::
  "nat \<Rightarrow> nat \<Rightarrow> timer_queue \<Rightarrow> nat \<times> wait_op list \<times> handler_call list \<times> timer_queue" where
  "reactor_cancel_timer t max_cancelled q =
     (let (n, ops, q') = tq_cancel_timer t [] max_cancelled q in (n, ops, [Deferred (map wait_id ops)], q'))"

definition reactor_cancel_timer_by_key ::
  "nat \<Rightarrow> nat \<Rightarrow> timer_queue \<Rightarrow> wait_op list \<times> handler_call list \<times> timer_queue" where
  "reactor_cancel_timer_by_key t key q =
     (let (ops, q') = tq_cancel_timer_by_key t [] key q in (ops, [Deferred (map wait_id ops)], q'))"

definition reactor_move_timer ::
  "nat \<Rightarrow> nat \<Rightarrow> timer_queue \<Rightarrow> wait_op list \<times> handler_call list \<times> timer_queue" where
  "reactor_move_timer target source q =
     (let (_, ops, q1) = tq_cancel_timer target [] size_max q
      in (ops, [Deferred (map wait_id ops)], tq_move_timer target source q1))"

section \<open>The service\<close>

record timer_impl =
  impl_expiry :: int
  might_have_pending_waits :: bool

text \<open>The timers of a service; the implementation and its timer data have the same address.\<close>

record timer_service =
  dt_queue :: timer_queue
  dt_impl :: "nat \<Rightarrow> timer_impl"

definition new_service :: timer_service where
  "new_service = \<lparr>dt_queue = new_timer_queue, dt_impl = (\<lambda>_. \<lparr>impl_expiry = 0, might_have_pending_waits = False\<rparr>)\<rparr>"

definition set_impl :: "nat \<Rightarrow> (timer_impl \<Rightarrow> timer_impl) \<Rightarrow> timer_service \<Rightarrow> timer_service" where
  "set_impl i f s = s\<lparr>dt_impl := (dt_impl s)(i := f (dt_impl s i))\<rparr>"

definition timer_construct :: "nat \<Rightarrow> timer_service \<Rightarrow> timer_service" where
  "timer_construct i s = set_impl i (\<lambda>_. \<lparr>impl_expiry = 0, might_have_pending_waits = False\<rparr>) s"

text \<open>The results are the count, the operations that are aborted, and the service.\<close>

definition timer_cancel :: "nat \<Rightarrow> timer_service \<Rightarrow> nat \<times> wait_op list \<times> timer_service" where
  "timer_cancel i s =
     (if \<not> might_have_pending_waits (dt_impl s i) then (0, [], s)
      else
        let (count, ops, _, q) = reactor_cancel_timer i size_max (dt_queue s)
        in (count, ops, set_impl i (might_have_pending_waits_update (\<lambda>_. False)) (s\<lparr>dt_queue := q\<rparr>)))"

definition timer_cancel_one :: "nat \<Rightarrow> timer_service \<Rightarrow> nat \<times> wait_op list \<times> timer_service" where
  "timer_cancel_one i s =
     (if \<not> might_have_pending_waits (dt_impl s i) then (0, [], s)
      else
        let (count, ops, _, q) = reactor_cancel_timer i 1 (dt_queue s); s1 = s\<lparr>dt_queue := q\<rparr>
        in (count, ops, if count = 0 then set_impl i (might_have_pending_waits_update (\<lambda>_. False)) s1 else s1))"

definition timer_destroy :: "nat \<Rightarrow> timer_service \<Rightarrow> wait_op list \<times> timer_service" where
  "timer_destroy i s = snd (timer_cancel i s)"

definition timer_expires_at :: "nat \<Rightarrow> int \<Rightarrow> timer_service \<Rightarrow> nat \<times> wait_op list \<times> timer_service" where
  "timer_expires_at i expiry_time s =
     (let (count, ops, s1) = timer_cancel i s in (count, ops, set_impl i (impl_expiry_update (\<lambda>_. expiry_time)) s1))"

definition timer_expires_after :: "int \<Rightarrow> nat \<Rightarrow> int \<Rightarrow> timer_service \<Rightarrow> nat \<times> wait_op list \<times> timer_service" where
  "timer_expires_after now i expiry_time s = timer_expires_at i (add_time now expiry_time) s"

definition move_members :: "nat \<Rightarrow> nat \<Rightarrow> timer_service \<Rightarrow> timer_service" where
  "move_members i other s =
     (let s1 = set_impl i (\<lambda>_. dt_impl s other) s
      in set_impl other (\<lambda>_. \<lparr>impl_expiry = 0, might_have_pending_waits = False\<rparr>) s1)"

definition timer_move_construct :: "nat \<Rightarrow> nat \<Rightarrow> timer_service \<Rightarrow> wait_op list \<times> timer_service" where
  "timer_move_construct i other s =
     (let (ops, _, q) = reactor_move_timer i other (dt_queue s) in (ops, move_members i other (s\<lparr>dt_queue := q\<rparr>)))"

text \<open>\<open>move_assign\<close> within one service; the reactor cancels what waits for the target.\<close>

definition timer_move_assign :: "nat \<Rightarrow> nat \<Rightarrow> timer_service \<Rightarrow> wait_op list \<times> timer_service" where
  "timer_move_assign i other s =
     (let (ops, _, q) = reactor_move_timer i other (dt_queue s) in (ops, move_members i other (s\<lparr>dt_queue := q\<rparr>)))"

text \<open>The first argument of \<open>async_wait\<close> is the flag of the reactor that \<open>schedule_timer\<close> looks at.\<close>

definition timer_async_wait :: "bool \<Rightarrow> nat \<Rightarrow> wait_op \<Rightarrow> timer_service \<Rightarrow> bool \<times> handler_call list \<times> timer_service" where
  "timer_async_wait is_shutdown i op s =
     (let s1 = set_impl i (might_have_pending_waits_update (\<lambda>_. True)) s;
          (update, calls, q) = schedule_timer is_shutdown (impl_expiry (dt_impl s1 i)) i op (dt_queue s1)
      in (update, calls, s1\<lparr>dt_queue := q\<rparr>))"

text \<open>
  The blocking \<open>wait\<close>. The environment is a list with an element for each turn of the loop: what
  \<open>select\<close>, called with the \<open>timeval\<close> of \<open>do_wait\<close>, reports, and the time that the clock shows afterwards; the
  result has the timeouts that \<open>select\<close> was called with, the error code and the time.
\<close>

definition do_wait_timeval :: "int \<Rightarrow> int \<times> int" where
  "do_wait_timeval timeout = (total_seconds timeout, total_microseconds timeout mod 1000000)"

fun wait_loop :: "int \<Rightarrow> int \<Rightarrow> error_code \<Rightarrow> (error_code \<times> int) list \<Rightarrow> ((int \<times> int) list \<times> error_code \<times> int) option" where
  "wait_loop expiry now ec turns =
     (if time_less_than now expiry \<and> \<not> failed ec then
        let tv = do_wait_timeval (subtract_time expiry now)
        in case turns of
             [] \<Rightarrow> None
           | (ec', now') # rest \<Rightarrow> map_option (\<lambda>(tvs, r). (tv # tvs, r)) (wait_loop expiry now' ec' rest)
      else Some ([], ec, now))"

declare wait_loop.simps [simp del]

definition timer_wait ::
  "int \<Rightarrow> nat \<Rightarrow> timer_service \<Rightarrow> (error_code \<times> int) list \<Rightarrow> ((int \<times> int) list \<times> error_code \<times> int) option" where
  "timer_wait now i s turns = wait_loop (impl_expiry (dt_impl s i)) now no_error turns"

section \<open>Waiting operations\<close>

text \<open>The identities of the operations that wait for some timer.\<close>

definition wait_ids :: "wait_op list \<Rightarrow> nat multiset" where
  "wait_ids ops = mset (map wait_id ops)"

definition waiting :: "timer_map \<Rightarrow> nat multiset" where
  "waiting m = (\<Sum>t \<in> dom m. wait_ids (waits_of m t))"

lemma wait_ids_simps [simp]:
  "wait_ids [] = {#}" "wait_ids (op # ops) = add_mset (wait_id op) (wait_ids ops)"
  "wait_ids (xs @ ys) = wait_ids xs + wait_ids ys" "wait_ids (map abort_wait ops) = wait_ids ops"
  "wait_ids (map ready_wait ops) = wait_ids ops" "size (wait_ids ops) = length ops"
  by (simp_all add: wait_ids_def abort_wait_def ready_wait_def comp_def)

lemma wait_ids_concat: "distinct ts \<Longrightarrow> wait_ids (concat (map f ts)) = (\<Sum>t \<in> set ts. wait_ids (f t))"
  by (induction ts) simp_all

lemma waiting_upd:
  assumes "finite (dom m)"
  shows "waiting (m(t := None)) + (case m t of None \<Rightarrow> {#} | Some (x, ws) \<Rightarrow> wait_ids ws) = waiting m"
    "waiting (m(t \<mapsto> (x, ws))) = waiting (m(t := None)) + wait_ids ws"
proof -
  have other: "(\<Sum>s \<in> dom m - {t}. wait_ids (waits_of (m(t := v)) s)) = (\<Sum>s \<in> dom m - {t}. wait_ids (waits_of m s))" for v
    by (rule sum.cong) (auto simp: waits_of_def)
  have "waiting (m(t := None)) = (\<Sum>s \<in> dom m - {t}. wait_ids (waits_of m s))"
    unfolding waiting_def other [symmetric, of None] by simp
  note none = this
  show "waiting (m(t := None)) + (case m t of None \<Rightarrow> {#} | Some (x, ws) \<Rightarrow> wait_ids ws) = waiting m"
  proof (cases "m t")
    case None
    then show ?thesis
      by (simp add: fun_upd_idem)
  next
    case (Some p)
    then have "waiting m = wait_ids (waits_of m t) + (\<Sum>s \<in> dom m - {t}. wait_ids (waits_of m s))"
      unfolding waiting_def using assms by (subst sum.remove [of _ t]) auto
    then show ?thesis
      using Some none by (simp add: waits_of_def split: prod.splits)
  qed
  have "waiting (m(t \<mapsto> (x, ws))) = wait_ids ws + (\<Sum>s \<in> dom m - {t}. wait_ids (waits_of (m(t \<mapsto> (x, ws))) s))"
    unfolding waiting_def using assms
    by (subst sum.remove [of _ t]) (auto simp: waits_of_def insert_Diff_if intro!: sum.cong)
  then show "waiting (m(t \<mapsto> (x, ws))) = waiting (m(t := None)) + wait_ids ws"
    unfolding none other by simp
qed

lemma waiting_set_waits:
  assumes "finite (dom m)" "m t = Some (x, ws)" "wait_ids ws = wait_ids out + wait_ids rest"
  shows "wait_ids out + waiting (set_waits t rest m) = waiting m"
  using waiting_upd(1) [OF assms(1), of t] waiting_upd(2) [OF assms(1), of t x rest] assms(2,3)
  by (auto simp: set_waits_def ac_simps)

lemma waiting_add_wait:
  assumes "finite (dom m)"
  shows "waiting (add_wait time t op m) = add_mset (wait_id op) (waiting m)"
  using waiting_upd(1) [OF assms, of t] waiting_upd(2) [OF assms, of t]
  by (auto simp: add_wait_def split: option.splits)

lemma waiting_fires:
  assumes "fires now m out m'" "finite (dom m)"
  shows "wait_ids out + waiting m' = waiting m"
proof -
  obtain ts where ts: "distinct ts" "set ts = due now m" "out = concat (map (map ready_wait \<circ> waits_of m) ts)"
    "m' = m |` (- due now m)"
    using assms(1) by (auto simp: fires_def)
  have sub: "due now m \<subseteq> dom m"
    by (auto simp: due_def)
  have "dom m' = dom m - due now m"
    using ts(4) by auto
  then have "waiting m' = (\<Sum>t \<in> dom m - due now m. wait_ids (waits_of m t))"
    unfolding waiting_def by (intro sum.cong) (auto simp: ts(4) waits_of_def)
  moreover have "wait_ids out = (\<Sum>t \<in> due now m. wait_ids (waits_of m t))"
    using wait_ids_concat [OF ts(1), of "map ready_wait \<circ> waits_of m"] by (simp add: ts(2,3))
  ultimately show ?thesis
    unfolding waiting_def using sum.subset_diff [OF sub assms(2), of "\<lambda>t. wait_ids (waits_of m t)"] by simp
qed

lemma waiting_move:
  assumes "finite (dom m)" "m target = None" "target \<noteq> source"
  shows "waiting (m(source := None, target := m source)) = waiting m"
proof (cases "m source")
  case None
  then show ?thesis
    using assms by (simp add: fun_upd_idem)
next
  case (Some p)
  obtain x ws where p: "p = (x, ws)"
    by (metis prod.exhaust)
  have "waiting (m(source := None, target \<mapsto> (x, ws))) = waiting ((m(source := None))(target := None)) + wait_ids ws"
    by (rule waiting_upd(2)) (use assms(1) in simp)
  also have "(m(source := None))(target := None) = m(source := None)"
    using assms(2,3) by (simp add: fun_upd_idem)
  also have "waiting (m(source := None)) + wait_ids ws = waiting m"
    using waiting_upd(1) [OF assms(1), of source] Some p by simp
  finally show ?thesis
    unfolding Some p .
qed

lemma waiting_bounds:
  assumes "timers_ok q"
  shows "length (tq_heap q) \<le> size (waiting (contents q))" "contents q t = Some (x, ws) \<Longrightarrow> length ws \<le> size (waiting (contents q))"
proof -
  have size: "size (waiting (contents q)) = (\<Sum>t \<in> dom (contents q). length (waits_of (contents q) t))"
    unfolding waiting_def by (simp add: size_multiset_sum finite_contents)
  have pos: "1 \<le> length (waits_of (contents q) t)" if "t \<in> dom (contents q)" for t
    using that timers_ok_waits [OF assms] by (fastforce simp: waits_of_def Suc_le_eq)
  obtain ts where ts: "linked_ok q ts"
    using assms by (auto simp: timers_ok_def)
  have "length (tq_heap q) = card (heap_timers q)"
    using indexed_distinct [of q] ts by (metis distinct_card heap_ok_def length_map linked_ok_def set_map)
  also have "heap_timers q = dom (contents q)"
    using active_contents(1) [OF ts] ts by (auto simp: linked_ok_def dom_def)
  also have "card (dom (contents q)) \<le> (\<Sum>t \<in> dom (contents q). length (waits_of (contents q) t))"
    using sum_mono [of "dom (contents q)" "\<lambda>_. 1" "\<lambda>t. length (waits_of (contents q) t)"] pos by simp
  finally show "length (tq_heap q) \<le> size (waiting (contents q))"
    using size by simp
  assume "contents q t = Some (x, ws)"
  then show "length ws \<le> size (waiting (contents q))"
    using member_le_sum [of t "dom (contents q)" "\<lambda>t. length (waits_of (contents q) t)"] finite_contents [of q]
    unfolding size by (auto simp: waits_of_def)
qed

section \<open>The invariant of the service\<close>

text \<open>
  An active timer expires when its implementation says so, and the implementation knows that it may
  have pending waits.
\<close>

definition service_ok :: "timer_service \<Rightarrow> bool" where
  "service_ok s \<longleftrightarrow> timers_ok (dt_queue s) \<and>
     (\<forall>t x ws. contents (dt_queue s) t = Some (x, ws) \<longrightarrow> x = impl_expiry (dt_impl s t) \<and> might_have_pending_waits (dt_impl s t))"

lemma cancel_step:
  assumes "timers_ok q" "tq_cancel_timer t [] k q = (n, ops, q')"
  shows "timers_ok q'" "wait_ids ops + waiting (contents q') = waiting (contents q)"
    "s \<noteq> t \<Longrightarrow> contents q' s = contents q s"
    "contents q' t = (case contents q t of None \<Rightarrow> None | Some (x, ws) \<Rightarrow> if drop k ws = [] then None else Some (x, drop k ws))"
    "n = 0 \<Longrightarrow> k > 0 \<Longrightarrow> contents q t = None"
proof -
  note ok = cancel_timer_ok [OF assms]
  show "timers_ok q'"
    by (rule ok(1))
  have split: "wait_ids ws = wait_ids (map abort_wait (take k ws)) + wait_ids (drop k ws)" for ws
    by (metis append_take_drop_id wait_ids_simps(3,4))
  show "wait_ids ops + waiting (contents q') = waiting (contents q)"
    using ok(2) waiting_set_waits [OF finite_contents _ split, of q t] by (auto split: option.splits)
  show "s \<noteq> t \<Longrightarrow> contents q' s = contents q s"
    "contents q' t = (case contents q t of None \<Rightarrow> None | Some (x, ws) \<Rightarrow> if drop k ws = [] then None else Some (x, drop k ws))"
    using ok(2) by (auto simp: set_waits_def split: option.splits)
  show "n = 0 \<Longrightarrow> k > 0 \<Longrightarrow> contents q t = None"
    using ok(2) timers_ok_waits [OF assms(1), of t] by (auto simp: min_def split: option.splits if_splits)
qed

text \<open>With room for all waits of a timer, cancelling it leaves none.\<close>

lemma cancel_all_step:
  assumes "timers_ok q" "size (waiting (contents q)) \<le> size_max" "tq_cancel_timer t [] size_max q = (n, ops, q')"
  shows "contents q' = (contents q)(t := None)"
proof -
  have "drop size_max ws = []" if "contents q t = Some (x, ws)" for x ws
    using waiting_bounds(2) [OF assms(1) that] assms(2) by simp
  then show ?thesis
    using cancel_step(3,4) [OF assms(1,3)] by (auto simp: fun_eq_iff split: option.splits)
qed

lemma reactor_move_step:
  assumes "timers_ok q" "size (waiting (contents q)) \<le> size_max" "target \<noteq> source"
    "reactor_move_timer target source q = (ops, calls, q')"
  shows "timers_ok q'" "wait_ids ops + waiting (contents q') = waiting (contents q)"
    "contents q' = (contents q)(source := None, target := contents q source)"
proof -
  obtain n q1 where run: "tq_cancel_timer target [] size_max q = (n, ops, q1)" and q': "q' = tq_move_timer target source q1"
    using assms(4) by (auto simp: reactor_move_timer_def split: prod.splits)
  note one = cancel_step(1,2) [OF assms(1) run] cancel_all_step [OF assms(1,2) run]
  have none: "contents q1 target = None"
    by (simp add: one(3))
  note two = move_timer_ok [OF one(1) assms(3) none, folded q']
  show "timers_ok q'"
    by (rule two(1))
  show "contents q' = (contents q)(source := None, target := contents q source)"
    using assms(3) by (simp add: two(2) one(3) fun_upd_twist)
  show "wait_ids ops + waiting (contents q') = waiting (contents q)"
    using one(2) waiting_move [OF finite_contents none assms(3)] by (simp add: two(2))
qed

section \<open>Histories\<close>

datatype timer_event =
    Timer_Construct nat
  | Timer_Destroy nat
  | Timer_Cancel nat
  | Timer_Cancel_One nat
  | Timer_Cancel_Key nat nat
  | Timer_Expires_At nat int
  | Timer_Move nat nat
  | Timer_Async_Wait nat wait_op
  | Timer_Run int

text \<open>
  One event: the operations that are handed to the scheduler for completion, and the service. A
  timer is constructed where none is active, as the destructor cancels it. Waits are started before the
  shutdown of the reactor. \<open>Timer_Run\<close> is the part of
  \<open>run\<close> that looks at the timers.
\<close>

definition timer_event_step :: "timer_event \<Rightarrow> timer_service \<Rightarrow> (wait_op list \<times> timer_service) option" where
  "timer_event_step ev s = (case ev of
      Timer_Construct i \<Rightarrow> Some ([], timer_construct i s)
    | Timer_Destroy i \<Rightarrow> Some (timer_destroy i s)
    | Timer_Cancel i \<Rightarrow> Some (snd (timer_cancel i s))
    | Timer_Cancel_One i \<Rightarrow> Some (snd (timer_cancel_one i s))
    | Timer_Cancel_Key i key \<Rightarrow>
        let (ops, _, q) = reactor_cancel_timer_by_key i key (dt_queue s) in Some (ops, s\<lparr>dt_queue := q\<rparr>)
    | Timer_Expires_At i time \<Rightarrow> Some (snd (timer_expires_at i time s))
    | Timer_Move i other \<Rightarrow> Some (timer_move_assign i other s)
    | Timer_Async_Wait i op \<Rightarrow> let (_, _, s') = timer_async_wait False i op s in Some ([], s')
    | Timer_Run now \<Rightarrow> map_option (\<lambda>(ops, q). (ops, s\<lparr>dt_queue := q\<rparr>)) (get_ready_timers now [] (dt_queue s)))"

fun timer_history :: "timer_event list \<Rightarrow> timer_service \<Rightarrow> (wait_op list \<times> timer_service) option" where
  "timer_history [] s = Some ([], s)"
| "timer_history (ev # evs) s = (case timer_event_step ev s of
      None \<Rightarrow> None
    | Some (ops, s') \<Rightarrow> map_option (\<lambda>(ops', s''). (ops @ ops', s'')) (timer_history evs s'))"

fun started_waits :: "timer_event list \<Rightarrow> nat multiset" where
  "started_waits [] = {#}"
| "started_waits (Timer_Async_Wait i op # evs) = add_mset (wait_id op) (started_waits evs)"
| "started_waits (_ # evs) = started_waits evs"

text \<open>What the C++ program ensures: a timer is not moved to itself, and objects do not overlap.\<close>

definition event_allowed :: "timer_event \<Rightarrow> timer_service \<Rightarrow> bool" where
  "event_allowed ev s \<longleftrightarrow> (case ev of
      Timer_Construct i \<Rightarrow> contents (dt_queue s) i = None
    | Timer_Move i other \<Rightarrow> i \<noteq> other
    | _ \<Rightarrow> True)"

fun history_allowed :: "timer_event list \<Rightarrow> timer_service \<Rightarrow> bool" where
  "history_allowed [] s \<longleftrightarrow> True"
| "history_allowed (ev # evs) s \<longleftrightarrow> event_allowed ev s \<and>
     (case timer_event_step ev s of None \<Rightarrow> True | Some (ops, s') \<Rightarrow> history_allowed evs s')"

text \<open>What an event has to do: keep the invariant and account for the waits.\<close>

definition accounted :: "timer_service \<Rightarrow> nat multiset \<Rightarrow> wait_op list \<Rightarrow> timer_service \<Rightarrow> bool" where
  "accounted s new out s' \<longleftrightarrow> service_ok s' \<and>
     wait_ids out + waiting (contents (dt_queue s')) = waiting (contents (dt_queue s)) + new"

lemma accounted_same:
  assumes "service_ok s" "timers_ok q" "wait_ids out + waiting (contents q) = waiting (contents (dt_queue s))"
    and "\<And>t x ws. contents q t = Some (x, ws) \<Longrightarrow> \<exists>ws'. contents (dt_queue s) t = Some (x, ws')"
  shows "accounted s {#} out (s\<lparr>dt_queue := q\<rparr>)"
  using assms unfolding accounted_def service_ok_def by (simp, metis)

lemma timer_cancel_step:
  assumes "service_ok s" "size (waiting (contents (dt_queue s))) \<le> size_max" "timer_cancel i s = (n, ops, s')"
  shows "accounted s {#} ops s'" "contents (dt_queue s') i = None"
proof -
  have "accounted s {#} ops s' \<and> contents (dt_queue s') i = None"
  proof (cases "might_have_pending_waits (dt_impl s i)")
    case True
    obtain n ops1 q where run: "tq_cancel_timer i [] size_max (dt_queue s) = (n, ops1, q)"
      by (metis prod.exhaust)
    have r: "ops = ops1" "s' = set_impl i (might_have_pending_waits_update (\<lambda>_. False)) (s\<lparr>dt_queue := q\<rparr>)"
      using assms(3) True run by (auto simp: timer_cancel_def reactor_cancel_timer_def)
    have ok: "timers_ok (dt_queue s)"
      using assms(1) by (simp add: service_ok_def)
    note one = cancel_step(1,2) [OF ok run] cancel_all_step [OF ok assms(2) run]
    show ?thesis
      using assms(1) one by (auto simp: accounted_def service_ok_def r set_impl_def)
  next
    case False
    then have "contents (dt_queue s) i = None"
      using assms(1) by (cases "contents (dt_queue s) i") (auto simp: service_ok_def)
    then show ?thesis
      using assms(1,3) False by (auto simp: timer_cancel_def accounted_def)
  qed
  then show "accounted s {#} ops s'" "contents (dt_queue s') i = None"
    by blast+
qed

lemma timer_cancel_one_step:
  assumes "service_ok s" "timer_cancel_one i s = (n, ops, s')"
  shows "accounted s {#} ops s'"
proof (cases "might_have_pending_waits (dt_impl s i)")
  case True
  obtain n ops1 q where run: "tq_cancel_timer i [] 1 (dt_queue s) = (n, ops1, q)"
    by (metis prod.exhaust)
  have r: "ops = ops1" "s' = (if n = 0 then set_impl i (might_have_pending_waits_update (\<lambda>_. False)) (s\<lparr>dt_queue := q\<rparr>) else s\<lparr>dt_queue := q\<rparr>)"
    using assms(2) True run by (auto simp: timer_cancel_one_def reactor_cancel_timer_def Let_def)
  have ok: "timers_ok (dt_queue s)"
    using assms(1) by (simp add: service_ok_def)
  note one = cancel_step [OF ok run]
  have "\<exists>ws'. contents (dt_queue s) t = Some (x, ws')" if "contents q t = Some (x, ws)" for t x ws
    using that one(3,4) by (cases "t = i") (auto split: option.splits if_splits)
  then have "accounted s {#} ops1 (s\<lparr>dt_queue := q\<rparr>)"
    by (rule accounted_same [OF assms(1) one(1,2)])
  moreover have "contents q i = None" if "n = 0"
    using one(4) one(5) that by simp
  ultimately show ?thesis
    by (auto simp: r accounted_def service_ok_def set_impl_def)
next
  case False
  then show ?thesis
    using assms by (simp add: timer_cancel_one_def accounted_def)
qed

lemma by_key_step:
  assumes "service_ok s" "tq_cancel_timer_by_key i [] key (dt_queue s) = (ops, q)"
  shows "accounted s {#} ops (s\<lparr>dt_queue := q\<rparr>)"
proof -
  have ok: "timers_ok (dt_queue s)"
    using assms(1) by (simp add: service_ok_def)
  note one = cancel_timer_by_key_ok [OF ok assms(2)]
  have split: "wait_ids ws = wait_ids (map abort_wait (filter (\<lambda>op. wait_key op = key) ws)) + wait_ids (filter (\<lambda>op. wait_key op \<noteq> key) ws)" for ws
    by (induction ws) auto
  show ?thesis
  proof (rule accounted_same [OF assms(1)])
    show "timers_ok q"
      using one by blast
    show "wait_ids ops + waiting (contents q) = waiting (contents (dt_queue s))"
      using one waiting_set_waits [OF finite_contents _ split, of "dt_queue s" i] by (auto split: option.splits)
    show "\<exists>ws'. contents (dt_queue s) t = Some (x, ws')" if "contents q t = Some (x, ws)" for t x ws
      using that one by (cases "t = i") (auto simp: set_waits_def split: option.splits if_splits)
  qed
qed

lemma move_step:
  assumes "service_ok s" "size (waiting (contents (dt_queue s))) \<le> size_max" "i \<noteq> other" "timer_move_assign i other s = (ops, s')"
  shows "accounted s {#} ops s'"
proof -
  obtain calls q where run: "reactor_move_timer i other (dt_queue s) = (ops, calls, q)" and s': "s' = move_members i other (s\<lparr>dt_queue := q\<rparr>)"
    using assms(4) by (auto simp: timer_move_assign_def split: prod.splits)
  have ok: "timers_ok (dt_queue s)"
    using assms(1) by (simp add: service_ok_def)
  note one = reactor_move_step [OF ok assms(2,3) run]
  show ?thesis
    using assms(1,3) one by (auto simp: accounted_def service_ok_def s' move_members_def set_impl_def Let_def)
qed

lemma async_wait_step:
  assumes "service_ok s" "size (waiting (contents (dt_queue s))) < size_max" "timer_async_wait False i op s = (update, calls, s')"
  shows "accounted s {#wait_id op#} [] s'"
proof -
  obtain b q where run: "enqueue_timer (impl_expiry (dt_impl s i)) i op (dt_queue s) = (b, q)"
    by (metis prod.exhaust)
  have s': "s' = set_impl i (might_have_pending_waits_update (\<lambda>_. True)) (s\<lparr>dt_queue := q\<rparr>)"
    using assms(3) run by (auto simp: timer_async_wait_def schedule_timer_def set_impl_def Let_def)
  have ok: "timers_ok (dt_queue s)"
    using assms(1) by (simp add: service_ok_def)
  have "length (tq_heap (dt_queue s)) < size_max"
    using waiting_bounds(1) [OF ok] assms(2) by linarith
  note one = enqueue_contents [OF ok run this]
  have "x = impl_expiry (dt_impl s t) \<and> (t \<noteq> i \<longrightarrow> might_have_pending_waits (dt_impl s t))" if "contents q t = Some (x, ws)" for t x ws
    using that assms(1) by (auto simp: one(2) add_wait_def service_ok_def split: if_splits option.splits)
  then show ?thesis
    using one(1) waiting_add_wait [OF finite_contents]
    by (auto simp: accounted_def service_ok_def s' set_impl_def one(2))
qed

lemma run_step:
  assumes "service_ok s"
  shows "\<exists>out q. get_ready_timers now [] (dt_queue s) = Some (out, q) \<and> accounted s {#} out (s\<lparr>dt_queue := q\<rparr>)"
proof -
  have "timers_ok (dt_queue s)"
    using assms by (simp add: service_ok_def)
  from get_ready_fires [OF this, of now "[]"] obtain out q where
    run: "get_ready_timers now [] (dt_queue s) = Some (out, q)" "timers_ok q" "fires now (contents (dt_queue s)) out (contents q)"
    by auto
  have "accounted s {#} out (s\<lparr>dt_queue := q\<rparr>)"
  proof (rule accounted_same [OF assms run(2) waiting_fires [OF run(3) finite_contents]])
    show "\<exists>ws'. contents (dt_queue s) t = Some (x, ws')" if "contents q t = Some (x, ws)" for t x ws
      using that run(3) by (auto simp: fires_def restrict_map_def split: if_splits)
  qed
  then show ?thesis
    using run(1) by blast
qed

lemma timer_event_ok:
  assumes "service_ok s" "event_allowed ev s" "size (waiting (contents (dt_queue s))) < size_max"
  shows "\<exists>out s'. timer_event_step ev s = Some (out, s') \<and> accounted s (started_waits [ev]) out s'"
proof (cases ev)
  case (Timer_Construct i)
  then show ?thesis
    using assms by (auto simp: timer_event_step_def event_allowed_def accounted_def service_ok_def timer_construct_def set_impl_def)
next
  case (Timer_Expires_At i time)
  obtain n ops s1 where run: "timer_cancel i s = (n, ops, s1)"
    by (metis prod.exhaust)
  note one = timer_cancel_step [OF assms(1) less_imp_le [OF assms(3)] run]
  have "accounted s {#} ops (set_impl i (impl_expiry_update (\<lambda>_. time)) s1)"
    using one by (auto simp: accounted_def service_ok_def set_impl_def)
  then show ?thesis
    using Timer_Expires_At run by (simp add: timer_event_step_def timer_expires_at_def)
next
  case (Timer_Cancel_Key i key)
  obtain ops q where run: "tq_cancel_timer_by_key i [] key (dt_queue s) = (ops, q)"
    by (metis prod.exhaust)
  then show ?thesis
    using Timer_Cancel_Key by_key_step [OF assms(1) run] by (simp add: timer_event_step_def reactor_cancel_timer_by_key_def)
next
  case (Timer_Async_Wait i op)
  obtain update calls s' where run: "timer_async_wait False i op s = (update, calls, s')"
    by (metis prod.exhaust)
  then show ?thesis
    using Timer_Async_Wait async_wait_step [OF assms(1,3) run] by (simp add: timer_event_step_def)
next
  case (Timer_Run now)
  then show ?thesis
    using run_step [OF assms(1), of now] by (auto simp: timer_event_step_def)
next
  case (Timer_Move i other)
  then show ?thesis
    using assms(2) move_step [OF assms(1) less_imp_le [OF assms(3)]] by (auto simp: timer_event_step_def event_allowed_def) (metis prod.exhaust)
next
  case (Timer_Cancel_One i)
  then show ?thesis
    using timer_cancel_one_step [OF assms(1)] by (auto simp: timer_event_step_def) (metis prod.exhaust snd_conv)
next
  case (Timer_Cancel i)
  then show ?thesis
    using timer_cancel_step(1) [OF assms(1) less_imp_le [OF assms(3)]] by (auto simp: timer_event_step_def) (metis prod.exhaust snd_conv)
next
  case (Timer_Destroy i)
  then show ?thesis
    using timer_cancel_step(1) [OF assms(1) less_imp_le [OF assms(3)]]
    by (auto simp: timer_event_step_def timer_destroy_def) (metis prod.exhaust snd_conv)
qed

lemma started_waits_Cons: "started_waits (ev # evs) = started_waits [ev] + started_waits evs"
  by (cases ev) simp_all

lemma started_waits_size: "size (started_waits evs) \<le> length evs"
proof (induction evs)
  case (Cons ev evs)
  then show ?case
    by (cases ev) simp_all
qed simp

lemma accounted_trans:
  assumes "accounted s a out s1" "accounted s1 b out' s'"
  shows "accounted s (a + b) (out @ out') s'"
proof -
  let ?W = "\<lambda>s. waiting (contents (dt_queue s))"
  have one: "wait_ids out + ?W s1 = ?W s + a" and two: "wait_ids out' + ?W s' = ?W s1 + b" and ok: "service_ok s'"
    using assms by (simp_all add: accounted_def)
  have "wait_ids (out @ out') + ?W s' = wait_ids out + (wait_ids out' + ?W s')"
    by (simp add: add.assoc)
  also have "\<dots> = ?W s + a + b"
    by (simp only: two one flip: add.assoc)
  finally show ?thesis
    using ok by (simp add: accounted_def add.assoc)
qed

lemma timer_history_ok:
  assumes "service_ok s" "history_allowed evs s" "size (waiting (contents (dt_queue s))) + length evs \<le> size_max"
  shows "\<exists>out s'. timer_history evs s = Some (out, s') \<and> accounted s (started_waits evs) out s'"
  using assms
proof (induction evs arbitrary: s)
  case Nil
  then show ?case
    by (simp add: accounted_def)
next
  case (Cons ev evs)
  have allowed: "event_allowed ev s" "size (waiting (contents (dt_queue s))) < size_max"
    using Cons.prems(2,3) by auto
  from timer_event_ok [OF Cons.prems(1) this] obtain out s1 where
    step: "timer_event_step ev s = Some (out, s1)" "accounted s (started_waits [ev]) out s1"
    by blast
  then have sizes: "length out + size (waiting (contents (dt_queue s1))) = size (waiting (contents (dt_queue s))) + size (started_waits [ev])"
    unfolding accounted_def by (metis size_union wait_ids_simps(6))
  have "\<exists>out' s'. timer_history evs s1 = Some (out', s') \<and> accounted s1 (started_waits evs) out' s'"
  proof (rule Cons.IH)
    show "service_ok s1"
      using step(2) by (simp add: accounted_def)
    show "history_allowed evs s1"
      using Cons.prems(2) step(1) by simp
    show "size (waiting (contents (dt_queue s1))) + length evs \<le> size_max"
      using sizes started_waits_size [of "[ev]"] Cons.prems(3) by simp
  qed
  then obtain out' s' where rest: "timer_history evs s1 = Some (out', s')" "accounted s1 (started_waits evs) out' s'"
    by blast
  have "accounted s (started_waits (ev # evs)) (out @ out') s'"
    unfolding started_waits_Cons [of ev evs] by (rule accounted_trans [OF step(2) rest(2)])
  then show ?case
    using step(1) rest(1) by simp
qed

lemma new_service_ok: "service_ok new_service" "waiting (contents (dt_queue new_service)) = {#}"
  by (simp_all add: service_ok_def new_service_def new_queue_ok waiting_def)

section \<open>Properties\<close>

text \<open>
  C28. Asynchronous waits complete exactly once. For every history of timer operations (constructing,
  destroying, moving, changing the expiry, waiting, cancelling, looking at the timers): every
  operation returns, and the waits that were started are, counted with multiplicity, those that
  have been handed to the scheduler for completion and those that still wait. The timer queue
  never expires a timer at another time than its object says, and no wait is pending that the
  object does not know of.
\<close>

theorem waits_complete_once:
  assumes "history_allowed evs new_service" "length evs \<le> size_max"
  shows "\<exists>out s. timer_history evs new_service = Some (out, s) \<and> service_ok s \<and>
    mset (map wait_id out) + waiting (contents (dt_queue s)) = started_waits evs"
  using timer_history_ok [OF new_service_ok(1) assms(1)] assms(2) new_service_ok(2)
  by (auto simp: accounted_def wait_ids_def)

definition demo_history :: "timer_event list" where
  "demo_history = [Timer_Construct 3, Timer_Expires_At 3 5000, Timer_Async_Wait 3 demo_wait, Timer_Expires_At 3 9000,
     Timer_Async_Wait 3 (demo_wait\<lparr>wait_id := 8\<rparr>), Timer_Run 5000]"

theorem waits_complete_once_witness:
  "\<exists>out s. timer_history demo_history new_service = Some (out, s) \<and> service_ok s \<and>
     mset (map wait_id out) + waiting (contents (dt_queue s)) = {#7, 8#}"
proof -
  have "history_allowed demo_history new_service"
    by (simp add: demo_history_def event_allowed_def new_service_def new_queue_ok split: option.splits)
  moreover have "length demo_history \<le> size_max"
    by (simp add: demo_history_def size_max_def)
  ultimately show ?thesis
    using waits_complete_once [of demo_history] by (simp add: demo_history_def demo_wait_def)
qed

text \<open>
  When the reactor looks at the timers at the time \<open>now\<close>, exactly the waits of the timers whose
  objects expire at \<open>now\<close> or before are completed, without an error, and no wait of another timer is
  touched.
\<close>

lemma timers_fire_when_expired:
  assumes "service_ok s"
  shows "\<exists>out s'. timer_event_step (Timer_Run now) s = Some (out, s') \<and>
    mset out = (\<Sum>t \<in> {t \<in> dom (contents (dt_queue s)). impl_expiry (dt_impl s t) \<le> now}.
      mset (map ready_wait (waits_of (contents (dt_queue s)) t))) \<and>
    contents (dt_queue s') = contents (dt_queue s) |` {t. now < impl_expiry (dt_impl s t)}"
proof -
  let ?m = "contents (dt_queue s)"
  have ok: "timers_ok (dt_queue s)" and exp: "\<And>t x ws. ?m t = Some (x, ws) \<Longrightarrow> x = impl_expiry (dt_impl s t)"
    using assms by (auto simp: service_ok_def)
  from get_ready_fires [OF ok, of now "[]"] obtain out q where
    run: "get_ready_timers now [] (dt_queue s) = Some (out, q)" "fires now ?m out (contents q)"
    by auto
  then obtain ts where ts: "distinct ts" "set ts = due now ?m" "out = concat (map (map ready_wait \<circ> waits_of ?m) ts)"
    "contents q = ?m |` (- due now ?m)"
    by (auto simp: fires_def)
  have due: "due now ?m = {t \<in> dom ?m. impl_expiry (dt_impl s t) \<le> now}"
    using exp by (fastforce simp: due_def)
  have "mset (concat (map f ts)) = (\<Sum>t \<in> set ts. mset (f t))" for f :: "nat \<Rightarrow> wait_op list"
    using ts(1) by (induction ts) simp_all
  then have "mset out = (\<Sum>t \<in> due now ?m. mset (map ready_wait (waits_of ?m t)))"
    using ts(2,3) by simp
  moreover have "contents q = ?m |` {t. now < impl_expiry (dt_impl s t)}"
    unfolding ts(4) due by (auto simp: restrict_map_def fun_eq_iff) (metis not_None_eq surj_pair)
  ultimately show ?thesis
    using run(1) due by (simp add: timer_event_step_def)
qed

definition demo_service :: timer_service where
  "demo_service = \<lparr>dt_queue = snd (enqueue_timer 5000 2 demo_wait new_timer_queue),
     dt_impl = (\<lambda>_. \<lparr>impl_expiry = 5000, might_have_pending_waits = True\<rparr>)\<rparr>"

lemma demo_service_ok: "service_ok demo_service" "contents (dt_queue demo_service) = [2 \<mapsto> (5000, [demo_wait])]"
proof -
  obtain b q where run: "enqueue_timer 5000 2 demo_wait new_timer_queue = (b, q)"
    by (metis prod.exhaust)
  note q = demo_enqueue [OF run]
  show "service_ok demo_service" "contents (dt_queue demo_service) = [2 \<mapsto> (5000, [demo_wait])]"
    using q by (simp_all add: demo_service_def service_ok_def run)
qed

lemma timers_fire_when_expired_example:
  "\<exists>s'. timer_event_step (Timer_Run 5000) demo_service = Some ([demo_wait], s') \<and> contents (dt_queue s') = Map.empty"
proof -
  have "ready_wait demo_wait = demo_wait" "impl_expiry (dt_impl demo_service t) = 5000" for t
    by (simp_all add: ready_wait_def demo_wait_def demo_service_def)
  then show ?thesis
    using timers_fire_when_expired [OF demo_service_ok(1), of 5000] by (auto simp: demo_service_ok(2) waits_of_def)
qed

section \<open>The timeout of the reactor\<close>

fun set_wait_duration :: "int \<Rightarrow> int \<Rightarrow> int \<Rightarrow> timer_queue list \<Rightarrow> int" where
  "set_wait_duration u now m [] = m"
| "set_wait_duration u now m (p # ps) = set_wait_duration u now (wait_duration u now m p) ps"

lemma set_wait_durations:
  "set_wait_duration_msec now m qs = set_wait_duration 1000000 now m qs"
  "set_wait_duration_usec now m qs = set_wait_duration 1000 now m qs"
  by (induction qs arbitrary: m) (simp_all add: wait_durations)

definition queues_ok :: "timer_queue list \<Rightarrow> bool" where
  "queues_ok qs \<longleftrightarrow> (\<forall>q \<in> set qs. timers_ok q \<and> times_fit (contents q))"

lemma to_unit_le: "u > 0 \<Longrightarrow> to_unit u d m \<le> max 1 m" "u > 0 \<Longrightarrow> 0 \<le> m \<Longrightarrow> 0 \<le> to_unit u d m"
  by (auto simp: to_unit_def min_def pos_imp_zdiv_nonneg_iff)

lemma set_wait_le:
  assumes "u > 0" "0 \<le> m"
  shows "0 \<le> set_wait_duration u now m qs" "set_wait_duration u now m qs \<le> max 1 m"
proof -
  have "0 \<le> set_wait_duration u now m qs \<and> set_wait_duration u now m qs \<le> max 1 m"
    using assms(2)
  proof (induction qs arbitrary: m)
    case (Cons q qs)
    have "0 \<le> wait_duration u now m q" "wait_duration u now m q \<le> max 1 m"
      using to_unit_le [OF assms(1)] Cons.prems by (auto simp: wait_duration_def)
    then show ?case
      using Cons.IH [of "wait_duration u now m q"] by auto
  qed simp
  then show "0 \<le> set_wait_duration u now m qs" "set_wait_duration u now m qs \<le> max 1 m"
    by blast+
qed

lemma set_wait_ok:
  assumes "u > 0" "in_int64 now" "queues_ok qs" "1 \<le> m" "q \<in> set qs"
  shows "due now (contents q) \<noteq> {} \<Longrightarrow> set_wait_duration u now m qs \<le> 1"
    "contents q t = Some (x, ws) \<Longrightarrow> now < x \<Longrightarrow> set_wait_duration u now m qs * u \<le> max u (x - now)"
proof -
  have "(due now (contents q) \<noteq> {} \<longrightarrow> set_wait_duration u now m qs \<le> 1) \<and>
      (contents q t = Some (x, ws) \<and> now < x \<longrightarrow> set_wait_duration u now m qs * u \<le> max u (x - now))"
    using assms(3,4,5)
  proof (induction qs arbitrary: m)
    case (Cons p ps)
    have p: "timers_ok p" "times_fit (contents p)" and ps: "queues_ok ps"
      using Cons.prems(1) by (simp_all add: queues_ok_def)
    let ?r = "wait_duration u now m p"
    note first = wait_duration_ok [OF p assms(2,1) Cons.prems(2)]
    note rest = set_wait_le [OF assms(1) first(1), of now ps]
    show ?case
    proof (cases "?r = 0")
      case True
      then have le: "set_wait_duration u now m (p # ps) \<le> 1"
        using rest(2) by simp
      then have "set_wait_duration u now m (p # ps) * u \<le> u"
        using assms(1) mult_right_mono [OF le, of u] by simp
      with le show ?thesis
        by (simp add: le_max_iff_disj)
    next
      case False
      then have one: "1 \<le> ?r"
        using first(1) by linarith
      show ?thesis
      proof (cases "q \<in> set ps")
        case True
        then show ?thesis
          using Cons.IH [OF ps one] by simp
      next
        case False
        then have q: "q = p"
          using Cons.prems(3) by simp
        have "set_wait_duration u now ?r ps \<le> ?r"
          using rest(2) one by simp
        then have "set_wait_duration u now ?r ps * u \<le> ?r * u"
          using assms(1) by (intro mult_right_mono) auto
        then show ?thesis
          using first(3,4) q \<open>?r \<noteq> 0\<close> by fastforce
      qed
    qed
  qed simp
  then show "due now (contents q) \<noteq> {} \<Longrightarrow> set_wait_duration u now m qs \<le> 1"
    "contents q t = Some (x, ws) \<Longrightarrow> now < x \<Longrightarrow> set_wait_duration u now m qs * u \<le> max u (x - now)"
    by blast+
qed

lemma set_wait_positive:
  assumes "u > 0" "in_int64 now" "queues_ok qs" "1 \<le> m" "\<And>q. q \<in> set qs \<Longrightarrow> due now (contents q) = {}"
  shows "1 \<le> set_wait_duration u now m qs"
  using assms(3-5)
proof (induction qs arbitrary: m)
  case (Cons p ps)
  then have "wait_duration u now m p \<noteq> 0" "0 \<le> wait_duration u now m p"
    using wait_duration_ok(1,3) [OF _ _ assms(2,1) Cons.prems(2), of p] by (auto simp: queues_ok_def)
  then show ?case
    using Cons by (simp add: queues_ok_def)
qed simp

lemma usec_nanos: "r div 1000000 * 1000000000 + r mod 1000000 * 1000 = r * 1000" for r :: int
  using div_mult_mod_eq [of r 1000000] by linarith

lemma set_wait_no_timers:
  "(\<And>q. q \<in> set qs \<Longrightarrow> contents q = Map.empty) \<Longrightarrow> queues_ok qs \<Longrightarrow> set_wait_duration u now m qs = m"
proof (induction qs)
  case (Cons q qs)
  have "tq_heap q = []"
    using root_in_map [of q] Cons.prems by (force simp: queues_ok_def)
  then show ?case
    using Cons by (simp add: queues_ok_def wait_duration_def)
qed simp

lemma int_of_long_id: "- (2 ^ 31) \<le> x \<Longrightarrow> x < 2 ^ 31 \<Longrightarrow> int_of_long x = x"
  by (simp add: int_of_long_def)

text \<open>The milliseconds to wait without a timer descriptor, from the bound that \<open>run\<close> passes on.\<close>

lemma run_timeout_eq:
  assumes "usec \<noteq> 0"
  shows "\<exists>m. 0 \<le> m \<and> m \<le> 300000 \<and> run_timeout False now usec qs = set_wait_duration 1000000 now m qs \<and>
    (usec < 0 \<longrightarrow> m = 300000) \<and> (0 < usec \<and> usec < 2 ^ 31 * 1000 \<longrightarrow> m = min 300000 ((usec - 1) div 1000 + 1) \<and> 1 \<le> m)"
proof -
  let ?t = "int_of_long (if usec < 0 then -1 else (usec - 1) div 1000 + 1)"
  let ?m = "if ?t < 0 \<or> 300000 < ?t then 300000 else ?t"
  have "run_timeout False now usec qs = set_wait_duration 1000000 now ?m qs"
    using assms by (simp add: run_timeout_def get_timeout_msec_def set_wait_durations Let_def)
  moreover have "usec < 0 \<longrightarrow> ?m = 300000"
    by (simp add: int_of_long_id)
  moreover have "?m = min 300000 ((usec - 1) div 1000 + 1) \<and> 1 \<le> ?m" if "0 < usec" "usec < 2 ^ 31 * 1000"
  proof -
    have "0 \<le> (usec - 1) div 1000" "(usec - 1) div 1000 < 2 ^ 31 - 1 + 1"
      using that by (simp_all add: pos_imp_zdiv_nonneg_iff)
    moreover have "(usec - 1) div 1000 + 1 < 2 ^ 31 \<or> (usec - 1) div 1000 + 1 = 2 ^ 31"
      using calculation by auto
    ultimately show ?thesis
      using that by (auto simp: int_of_long_def)
  qed
  moreover have "0 \<le> ?m" "?m \<le> 300000"
    by auto
  ultimately show ?thesis
    by (intro exI [of _ ?m]) blast
qed

lemma run_timeout_bounds:
  assumes "queues_ok qs" "in_int64 now"
  shows "0 \<le> run_timeout False now usec qs" "run_timeout False now usec qs \<le> 300000"
    "q \<in> set qs \<Longrightarrow> due now (contents q) \<noteq> {} \<Longrightarrow> run_timeout False now usec qs \<le> 1"
    "q \<in> set qs \<Longrightarrow> contents q t = Some (x, ws) \<Longrightarrow> now < x \<Longrightarrow>
      run_timeout False now usec qs * 1000000 \<le> max 1000000 (x - now)"
    "0 < usec \<Longrightarrow> usec < 2 ^ 31 * 1000 \<Longrightarrow> run_timeout False now usec qs \<le> (usec - 1) div 1000 + 1"
    "usec \<noteq> 0 \<Longrightarrow> usec < 2 ^ 31 * 1000 \<Longrightarrow> (\<And>q. q \<in> set qs \<Longrightarrow> due now (contents q) = {}) \<Longrightarrow>
      1 \<le> run_timeout False now usec qs"
proof -
  let ?R = "run_timeout False now usec qs"
  have zero: "?R = 0" if "usec = 0"
    using that by (simp add: run_timeout_def)
  have "\<exists>m. 0 \<le> m \<and> m \<le> 300000 \<and> 0 \<le> ?R \<and> ?R \<le> max 1 m \<and> (?R \<le> 1 \<or> ?R = set_wait_duration 1000000 now m qs \<and> 1 \<le> m) \<and>
    (usec < 0 \<longrightarrow> ?R = set_wait_duration 1000000 now m qs \<and> m = 300000) \<and>
    (0 < usec \<and> usec < 2 ^ 31 * 1000 \<longrightarrow>
       ?R = set_wait_duration 1000000 now m qs \<and> 1 \<le> m \<and> m \<le> (usec - 1) div 1000 + 1)"
  proof (cases "usec = 0")
    case True
    then show ?thesis
      using zero by (intro exI [of _ 0]) simp
  next
    case False
    then obtain m where m: "0 \<le> m" "m \<le> 300000" "?R = set_wait_duration 1000000 now m qs" "usec < 0 \<longrightarrow> m = 300000"
      "0 < usec \<and> usec < 2 ^ 31 * 1000 \<longrightarrow> m = min 300000 ((usec - 1) div 1000 + 1) \<and> 1 \<le> m"
      using run_timeout_eq [of usec now qs] by blast
    have "0 \<le> ?R" "?R \<le> max 1 m"
      using set_wait_le [of 1000000 m now qs] m(1,3) by simp_all
    moreover have "?R \<le> 1 \<or> 1 \<le> m"
      using \<open>?R \<le> max 1 m\<close> by linarith
    ultimately show ?thesis
      using m by (intro exI [of _ m]) (auto simp: min_def)
  qed
  then obtain m where m: "0 \<le> m" "m \<le> 300000" "0 \<le> ?R" "?R \<le> max 1 m"
    and wait: "?R \<le> 1 \<or> ?R = set_wait_duration 1000000 now m qs \<and> 1 \<le> m"
    and minus: "usec < 0 \<longrightarrow> ?R = set_wait_duration 1000000 now m qs \<and> m = 300000"
    and plus: "0 < usec \<and> usec < 2 ^ 31 * 1000 \<longrightarrow>
       ?R = set_wait_duration 1000000 now m qs \<and> 1 \<le> m \<and> m \<le> (usec - 1) div 1000 + 1"
    by blast
  show "0 \<le> ?R" "?R \<le> 300000"
    using m by linarith+
  show "q \<in> set qs \<Longrightarrow> due now (contents q) \<noteq> {} \<Longrightarrow> ?R \<le> 1"
    using wait set_wait_ok(1) [OF _ assms(2,1), of 1000000 m q] by auto
  show "?R * 1000000 \<le> max 1000000 (x - now)" if "q \<in> set qs" "contents q t = Some (x, ws)" "now < x"
    using wait set_wait_ok(2) [OF _ assms(2,1), of 1000000 m q t x ws] that by auto
  show "?R \<le> (usec - 1) div 1000 + 1" if "0 < usec" "usec < 2 ^ 31 * 1000"
  proof -
    have "1 \<le> m" "m \<le> (usec - 1) div 1000 + 1"
      using plus that by blast+
    then show ?thesis
      using m(4) by linarith
  qed
  show "1 \<le> ?R" if "usec \<noteq> 0" "usec < 2 ^ 31 * 1000" "\<And>q. q \<in> set qs \<Longrightarrow> due now (contents q) = {}"
  proof -
    have "?R = set_wait_duration 1000000 now m qs" "1 \<le> m"
      using minus plus that(1,2) by (cases "usec < 0"; simp)+
    then show ?thesis
      using set_wait_positive [OF _ assms(2,1), of 1000000 m] that(3) by simp
  qed
qed

lemma timeouts_no_timers:
  assumes "queues_ok qs" "\<And>q. q \<in> set qs \<Longrightarrow> contents q = Map.empty"
  shows "get_timeout_ts now qs = ((300, 0), False)" "run_timeout False now (-1) qs = 300000"
  using set_wait_no_timers [OF assms(2,1)] run_timeout_eq [of "-1" now qs]
  by (auto simp: get_timeout_ts_def set_wait_durations Let_def)

text \<open>
  C29. The timeouts of the reactor, for any set of timer queues. The timer descriptor is always armed,
  with a valid \<open>itimerspec\<close> of at most five minutes (one of 0 would disarm it); an absolute time, in
  the past, is set only if a timer is due, and if a timer is due the reactor waits one microsecond
  at most; otherwise it waits no longer than until the next timer expires, or one microsecond if
  that is more. Without a timer descriptor the timeout of \<open>epoll_wait\<close>, in milliseconds, is never
  negative, so that it does not block for ever, five minutes at most, one millisecond at most if a timer
  is due, and no longer than until the next timer expires, or one millisecond if that is more; it is not
  0, which would make the reactor spin, unless the caller asks for it or a timer is due; and it is no
  longer than the caller asks for. The last two hold for requests below \<open>2^31\<close> milliseconds. Without any
  timer both are five minutes.
\<close>

theorem reactor_timeouts:
  assumes "queues_ok qs" "in_int64 now"
  shows "(case get_timeout_ts now qs of ((sec, nsec), absolute) \<Rightarrow>
      0 \<le> sec \<and> 0 \<le> nsec \<and> nsec < 1000000000 \<and> (sec, nsec) \<noteq> (0, 0) \<and> sec * 1000000000 + nsec \<le> 300 * 1000000000 \<and>
      (absolute \<longrightarrow> (\<exists>q \<in> set qs. due now (contents q) \<noteq> {})) \<and>
      ((\<exists>q \<in> set qs. due now (contents q) \<noteq> {}) \<longrightarrow> sec = 0 \<and> nsec \<le> 1000) \<and>
      (\<forall>q t x ws. q \<in> set qs \<and> contents q t = Some (x, ws) \<and> now < x \<longrightarrow> sec * 1000000000 + nsec \<le> max 1000 (x - now))) \<and>
    0 \<le> run_timeout False now usec qs \<and> run_timeout False now usec qs \<le> 300000 \<and>
    ((\<exists>q \<in> set qs. due now (contents q) \<noteq> {}) \<longrightarrow> run_timeout False now usec qs \<le> 1) \<and>
    (\<forall>q t x ws. q \<in> set qs \<and> contents q t = Some (x, ws) \<and> now < x \<longrightarrow>
      run_timeout False now usec qs * 1000000 \<le> max 1000000 (x - now)) \<and>
    (usec < 2 ^ 31 * 1000 \<longrightarrow>
      (0 < usec \<longrightarrow> run_timeout False now usec qs \<le> (usec - 1) div 1000 + 1) \<and>
      (usec \<noteq> 0 \<longrightarrow> (\<forall>q \<in> set qs. due now (contents q) = {}) \<longrightarrow> 1 \<le> run_timeout False now usec qs)) \<and>
    ((\<forall>q \<in> set qs. contents q = Map.empty) \<longrightarrow>
      get_timeout_ts now qs = ((300, 0), False) \<and> run_timeout False now (-1) qs = 300000)"
proof -
  let ?r = "set_wait_duration 1000 now 300000000 qs"
  have le: "0 \<le> ?r" "?r \<le> 300000000"
    using set_wait_le [of 1000 300000000 now qs] by simp_all
  obtain sec nsec absolute where ts: "get_timeout_ts now qs = ((sec, nsec), absolute)"
    by (metis prod.exhaust)
  then have spec: "sec = ?r div 1000000" "nsec = (if ?r = 0 then 1 else ?r mod 1000000 * 1000)" "absolute \<longleftrightarrow> ?r = 0"
    by (auto simp: get_timeout_ts_def set_wait_durations Let_def)
  have nanos: "sec * 1000000000 + nsec = (if ?r = 0 then 1 else ?r * 1000)"
    by (cases "?r = 0") (simp_all add: spec(1,2) usec_nanos)
  have range: "0 \<le> sec" "0 \<le> nsec" "nsec < 1000000000" "(sec, nsec) \<noteq> (0, 0)"
    "sec * 1000000000 + nsec \<le> 300 * 1000000000"
    using le spec nanos by (auto split: if_splits)
  have absolute: "\<exists>q \<in> set qs. due now (contents q) \<noteq> {}" if absolute
    using set_wait_positive [of 1000 now qs 300000000] assms that spec(3) by fastforce
  have ready: "sec = 0 \<and> nsec \<le> 1000" if "q \<in> set qs" "due now (contents q) \<noteq> {}" for q
  proof -
    have "?r = 0 \<or> ?r = 1"
      using set_wait_ok(1) [of 1000 now qs 300000000 q] assms that le(1) by force
    then show ?thesis
      using spec by auto
  qed
  have expiry: "sec * 1000000000 + nsec \<le> max 1000 (x - now)" if "q \<in> set qs" "contents q t = Some (x, ws)" "now < x" for q t x ws
    using set_wait_ok(2) [of 1000 now qs 300000000 q t x ws] assms that nanos by (auto split: if_splits)
  show ?thesis
    unfolding ts prod.case
    by (intro conjI allI impI; (elim bexE conjE)?)
      (use range absolute ready expiry run_timeout_bounds [OF assms] timeouts_no_timers [OF assms(1)] ts in \<open>auto\<close>)
qed

theorem reactor_timeouts_witness:
  "(case get_timeout_ts 0 [dt_queue demo_service] of ((sec, nsec), absolute) \<Rightarrow>
      sec * 1000000000 + nsec \<le> 5000 \<and> (sec, nsec) \<noteq> (0, 0)) \<and> run_timeout False 0 (-1) [dt_queue demo_service] \<le> 300000"
proof -
  have "queues_ok [dt_queue demo_service]" "in_int64 0"
    using demo_service_ok
    by (auto simp: queues_ok_def service_ok_def times_fit_def in_int64_def int64_min_def int64_max_def split: if_splits)
  moreover have "contents (dt_queue demo_service) 2 = Some (5000, [demo_wait])"
    by (simp add: demo_service_ok(2))
  ultimately show ?thesis
    using reactor_timeouts [of "[dt_queue demo_service]" 0 "-1"] by (fastforce split: prod.splits)
qed

text \<open>
  The blocking wait: when it returns without an error the timer has expired, and it does return if
  \<open>select\<close> fails or the clock reaches the expiry. Every \<open>timeval\<close> is valid and asks for the microseconds of
  the time that is left.
\<close>

lemma do_wait_timeval_ok:
  assumes "0 < d"
  shows "case do_wait_timeval d of (sec, usec) \<Rightarrow> 0 \<le> sec \<and> 0 \<le> usec \<and> usec < 1000000 \<and> sec * 1000000 + usec = d div 1000"
proof -
  have "d div 1000 div 1000000 = d div (1000 * 1000000)"
    by (rule zdiv_zmult2_eq [symmetric]) simp
  then have "d div 1000000000 * 1000000 + d div 1000 mod 1000000 = d div 1000"
    using div_mult_mod_eq [of "d div 1000" 1000000] by simp
  with assms show ?thesis
    by (simp add: do_wait_timeval_def total_seconds_def total_microseconds_def pos_imp_zdiv_nonneg_iff)
qed

lemma timer_wait_correct:
  "timer_wait now i s turns = Some (tvs, ec, now') \<Longrightarrow> failed ec \<or> impl_expiry (dt_impl s i) \<le> now'"
  "\<exists>(ec, now') \<in> set turns. failed ec \<or> impl_expiry (dt_impl s i) \<le> now' \<Longrightarrow> timer_wait now i s turns \<noteq> None"
proof -
  have "wait_loop x now ec0 turns = Some (tvs, ec, now') \<Longrightarrow> failed ec \<or> x \<le> now'" for x ec0
  proof (induction turns arbitrary: now ec0 tvs)
    case Nil
    then show ?case
      by (subst (asm) wait_loop.simps) (auto simp: time_less_than_def split: if_splits)
  next
    case (Cons turn turns)
    then show ?case
      by (subst (asm) (2) wait_loop.simps) (auto simp: time_less_than_def split: if_splits prod.splits)
  qed
  then show "timer_wait now i s turns = Some (tvs, ec, now') \<Longrightarrow> failed ec \<or> impl_expiry (dt_impl s i) \<le> now'"
    unfolding timer_wait_def .
  have "\<exists>(ec, now') \<in> set turns. failed ec \<or> x \<le> now' \<Longrightarrow> wait_loop x now ec0 turns \<noteq> None" for x ec0
  proof (induction turns arbitrary: now ec0)
    case Nil
    then show ?case
      by simp
  next
    case (Cons turn turns)
    obtain ec1 now1 where turn: "turn = (ec1, now1)"
      by (metis prod.exhaust)
    have "wait_loop x now1 ec1 turns \<noteq> None"
    proof (cases "failed ec1 \<or> x \<le> now1")
      case True
      then show ?thesis
        by (subst wait_loop.simps) (auto simp: time_less_than_def)
    next
      case False
      with Cons.prems turn show ?thesis
        by (intro Cons.IH) auto
    qed
    with turn show ?case
      by (subst wait_loop.simps) (auto simp: Let_def)
  qed
  then show "\<exists>(ec, now') \<in> set turns. failed ec \<or> impl_expiry (dt_impl s i) \<le> now' \<Longrightarrow> timer_wait now i s turns \<noteq> None"
    unfolding timer_wait_def .
qed

text \<open>
  C39. The wait for a set of timer queues depends on their order: if a timer of the first queue is due,
  but the second queue has a timer that expires within the next microsecond, the result is one
  microsecond, although it is 0, the minimum, if the queues are in the other order.
\<close>

theorem due_timer_may_wait:
  assumes "queues_ok [q1, q2]" "in_int64 now" "1 \<le> m" "due now (contents q1) \<noteq> {}" "due now (contents q2) = {}"
    and "contents q2 t = Some (x, ws)" "x < now + 1000"
  shows "set_wait_duration_usec now m [q1, q2] = 1 \<and> set_wait_duration_usec now m [q2, q1] = 0"
proof -
  have ok: "timers_ok q1" "times_fit (contents q1)" "timers_ok q2" "times_fit (contents q2)"
    using assms(1) by (simp_all add: queues_ok_def)
  have zero: "wait_duration 1000 now k q1 = 0" if "1 \<le> k" for k
    using wait_duration_ok(3) [OF ok(1,2) assms(2) _ that] assms(4) by simp
  have "wait_duration 1000 now m q2 \<noteq> 0" "0 \<le> wait_duration 1000 now m q2"
    using wait_duration_ok(1,3) [OF ok(3,4) assms(2) _ assms(3), of 1000] assms(5) by simp_all
  then have second: "1 \<le> wait_duration 1000 now m q2"
    by linarith
  have heap: "tq_heap q2 \<noteq> []"
    using assms(6) by (auto simp: contents_def expiries_def)
  note root = root_in_map [OF ok(3) heap]
  then have "now < time_at q2 0" "time_at q2 0 \<le> x" "in_int64 (time_at q2 0)"
    using assms(5,6) ok(4) by (force simp: due_def times_fit_def)+
  then have "0 < subtract_time (time_at q2 0) now" "subtract_time (time_at q2 0) now < 1000"
    using assms(2,7) int64_limits by (auto simp: subtract_saturates saturate64_def int64_max_def)
  then have "wait_duration 1000 now 0 q2 = 1"
    using heap by (simp add: wait_duration_def to_unit_def)
  then show ?thesis
    using zero [OF assms(3)] zero [OF second] by (simp add: set_wait_durations)
qed

theorem due_timer_may_wait_witness:
  "set_wait_duration_usec 5000 300000000 [dt_queue demo_service, snd (enqueue_timer 5500 4 demo_wait new_timer_queue)] = 1"
proof -
  obtain b q where run: "enqueue_timer 5500 4 demo_wait new_timer_queue = (b, q)"
    by (metis prod.exhaust)
  have "length (tq_heap new_timer_queue) < size_max"
    by (simp add: new_timer_queue_def)
  note q = enqueue_contents [OF new_queue_ok(1) run this, unfolded new_queue_ok(2) add_wait_def, simplified]
  have "queues_ok [dt_queue demo_service, q]" "in_int64 5000" "due 5000 (contents (dt_queue demo_service)) \<noteq> {}"
    "due 5000 (contents q) = {}" "contents q 4 = Some (5500, [demo_wait])"
    using demo_service_ok q
    by (auto simp: queues_ok_def service_ok_def times_fit_def in_int64_def int64_min_def int64_max_def due_def split: if_splits)
  from due_timer_may_wait [OF this(1,2) _ this(3,4,5), of 300000000] show ?thesis
    by (simp add: run)
qed

end
