(* ===== verification/Spec2Isabelle.thy ===== *)
theory Spec2Isabelle
  imports Horcrux_Data Utils Requests Tcp_Connection Save_Protocol Tcp_Server Server_Objects Client Join_Tool Save_Session
    Asio_Error Asio_Buffer Asio_Buffer_Copy Asio_Transfer Asio_Op_Queue Asio_Scheduler Asio_Reactor
    Asio_Socket_Ops Asio_Socket_Service Asio_Acceptor Connection_On_Socket
    Server_On_Sockets Asio_Read_Until Asio_Async_Connect
    Asio_Resolver Client_On_Socket Asio_Clock Asio_Timer_Queue Asio_Timers Asio_Deadline_Timer
begin

text \<open>
  Verification of the horcrux project: a client splits a file into pieces, the horcruxes, and
  sends them over TCP to a server, which saves every piece in a file of its own; a small tool
  joins the pieces again.

  \<^bold>\<open>The parts of the program and their theories.\<close>

  \<^item> \<open>Horcrux_Prelude\<close>: types (\<open>u32\<close>, \<open>u64\<close>, byte strings), generic lemmas on lists, words and bytes.

  \<^item> \<open>Horcrux_Data\<close>: \<open>logic/HorcruxData\<close>. \<open>split\<close> and \<open>join\<close>, with the arithmetic at 32 bits as in the
    source and iterator ranges outside of the file as an error value.

  \<^item> \<open>Utils\<close>: \<open>logic/Utils\<close>. The disk is a record with the files, the writable paths and the free
    space; \<open>loadFile\<close>, \<open>saveFile\<close>, \<open>parseHorcruxCommand\<close> (with \<open>std::stoi\<close>), \<open>generateRandomUint64\<close> (the
    engine is a parameter of the model through its first output).

  \<^item> \<open>Requests\<close>: \<open>networking/Requests\<close>. The headers, their bytes on the wire, and their construction.

  \<^item> \<open>Tcp_Connection\<close>: \<open>networking/TcpConnection\<close>. One connection of the server. Its state is the record
    of the members and the asynchronous operation that is pending; every handler is a definition,
    and an event is what the socket reports for the pending operation: an error code and bytes.

  \<^item> \<open>Save_Protocol\<close>: an abstract protocol over whole messages, and that a connection refines it.

  \<^item> \<open>Tcp_Server\<close>: \<open>networking/TcpServer\<close> and \<open>server.cpp\<close>. The acceptor and all connections over one
    disk, with any interleaving of their events. \<open>Server_Objects\<close>: the connections as objects on the heap that are
    held by the handlers of their operations, with the allocator as a parameter.

  \<^item> \<open>Client\<close>: \<open>client.cpp\<close> over any stream, a script of the results of the socket among them; \<open>Join_Tool\<close>: \<open>join.cpp\<close>.

  \<^item> \<open>Save_Session\<close>: client, server and join tool together.

  The program rests on the Asio library, which is part of the repository. The layers it runs on
  are modelled too, in their Linux branches:

  \<^item> \<open>Asio_Error\<close> (\<open>error.hpp\<close>), \<open>Asio_Buffer\<close> and \<open>Asio_Buffer_Copy\<close> (\<open>buffer.hpp\<close>,
    \<open>completion_condition.hpp\<close>, \<open>detail/consuming_buffers.hpp\<close>), \<open>Asio_Transfer\<close> (\<open>impl/read.hpp\<close>,
    \<open>impl/write.hpp\<close>: the composed operations that the handlers of a connection wait for);

  \<^item> \<open>Asio_Op_Queue\<close> (\<open>detail/op_queue.hpp\<close>) on a heap of pointers, \<open>Asio_Scheduler\<close>
    (\<open>detail/impl/scheduler.ipp\<close>: \<open>io_context::run\<close>), \<open>Asio_Reactor\<close> (\<open>detail/impl/epoll_reactor.ipp\<close>),
    \<open>Asio_Socket_Ops\<close> (\<open>detail/impl/socket_ops.ipp\<close>) and \<open>Asio_Socket_Service\<close>
    (\<open>detail/impl/reactive_socket_service_base.ipp\<close>, the \<open>do_perform\<close> functions of the receive, send,
    accept and connect operations, \<open>impl/connect.hpp\<close>), which joins the socket operations with the
    reactor, and \<open>Asio_Acceptor\<close> (\<open>basic_socket_acceptor.hpp\<close>, \<open>detail/reactive_socket_accept_op.hpp\<close>).
    The system calls are a parameter of these theories, a record of functions on a state of the
    system; \<open>epoll_ctl\<close> is one too.

  \<^item> \<open>Connection_On_Socket\<close>: a connection of the server on top of these layers; the events that
    \<open>Tcp_Connection\<close> takes as given are those that the service produces. \<open>Server_On_Sockets\<close>: the whole
    server, its acceptor and all its connections, as one process with its descriptors.

  \<^item> \<open>Asio_Async_Connect\<close> (\<open>range_connect_op\<close> in \<open>impl/connect.hpp\<close>, \<open>basic_socket::async_connect\<close>) and \<open>Asio_Read_Until\<close>
    (\<open>dynamic_string_buffer\<close> in \<open>buffer.hpp\<close>, \<open>impl/read_until.hpp\<close>): composed operations of the library
    beside those that the program calls.

  \<^item> \<open>Asio_Resolver\<close> (\<open>ip/basic_resolver.hpp\<close>, \<open>detail/resolver_service.hpp\<close>; \<open>getaddrinfo\<close> is a parameter) and
    \<open>Client_On_Socket\<close>: the client, from the resolver to the end of \<open>main\<close>, on top of these layers.

  \<^item> Timers: \<open>Asio_Clock\<close> (\<open>detail/chrono_time_traits.hpp\<close>), \<open>Asio_Timer_Queue\<close> and \<open>Asio_Timers\<close>
    (\<open>detail/timer_queue.hpp\<close>: a heap and a linked list, and the map that they implement), and
    \<open>Asio_Deadline_Timer\<close> (\<open>detail/impl/timer_queue_set.ipp\<close>, the timer functions of the reactor,
    \<open>detail/deadline_timer_service.hpp\<close>). The time that a clock shows is an argument.

  \<^bold>\<open>What is shown.\<close> End to end: a file saved by the client is read back from the disk of the server
  byte for byte, however the network cuts the messages on the side of the server; on the side of the
  client the transfers are whole, since the client does not handle others. For the connection: it refines the
  abstract protocol, accepts the pieces in any order, never has undefined behaviour, never
  changes an existing file and saves only complete requests. For the server: invariants under
  every interleaving; no two connections share an object, none leaks or is used after its destruction,
  and so the connections are isolated. For the client and the join tool: what
  they send, write and return on every path. For the data: round trips of split and join and of
  the headers, the behaviour of the file and command line functions on every branch. For Asio:
  the composed operations report the error and the bytes of all their transfers; the queue implements
  a list; the scheduler completes operations in order and returns only when there is no work; the
  reactor finishes the operations on a descriptor in the order of their starts; the socket
  operations, and through the service and the reactor every asynchronous transfer, keep the
  contract of a stream that the composed operations rely on; \<open>connect\<close> uses the first endpoint
  that answers; and every descriptor that the system hands out belongs to one socket object or is
  closed again. Both layers together: a connection that runs on the service is always in one of the
  states for which its invariants are shown, and the client on a socket either sends and returns what it
  does over the script of its transfers and leaves no descriptor open, or is blocked in a transfer. The server on sockets is in a state that it reaches
  over events, and each of its descriptors belongs to the acceptor or to one connection that is alive.
  \<open>read_until\<close>, which looks at every byte only as often as it has to, finds what a search of all data finds,
  and the asynchronous \<open>connect\<close> agrees with the synchronous one unless a socket cannot be opened, where it gives up
  without trying the other endpoints. For timers: the arithmetic saturates without overflow, the timer queue
  implements a map (its shutdown left aside), every wait completes exactly once and, unless it is cancelled, when the timer has
  expired, and the reactor wakes up in time.

  \<^bold>\<open>Interfaces as locales.\<close> \<open>consuming\<close> (buffers that a composed operation consumes, interpreted on
  both implementations), \<open>member_read\<close> (an \<open>async_read\<close> into a member of the connection, interpreted
  on its three reads), \<open>fifo_queue\<close> (interpreted on the pointer queue), \<open>retrying\<close> (a loop that tries
  a system call again, interpreted on the loops of \<open>socket_ops\<close>), \<open>file_splitter\<close> (interpreted on
  \<open>split\<close> and \<open>join\<close>), \<open>copies\<close> (the overloads of \<open>buffer_copy\<close>), \<open>trivially_copyable\<close> (both headers),
  \<open>file_store\<close> (interpreted on \<open>saveFile\<close> and \<open>loadFile\<close>) and \<open>byte_stream\<close> (what the client relies on in a
  stream, interpreted on scripts and instantiated with sockets) and \<open>incremental_search\<close> (what \<open>read_until\<close> relies on in a
  search, interpreted on those for a character and for a string).

  \<^bold>\<open>Bounds and fuel.\<close> The loops of the scheduler's \<open>run\<close> and \<open>poll\<close> take fuel, one unit for each
  completed operation. If the handlers do not post for ever (a weight of the operations pays for what their
  handlers post), fuel above the total weight is shown to be enough: a run then returns, or is blocked waiting
  for the reactor or for other threads. The run of the asynchronous
  \<open>connect\<close> takes one unit for each endpoint and one more, and this is shown to be enough. Scripts stand for what the
  environment does; a run that needs more than the script has blocks, which is \<open>None\<close>. The loops of
  \<open>socket_ops\<close> are partial functions, and are shown to return under the stated conditions on the
  system calls. Sizes and counters keep their widths where the code can make them wrap.

  \<^bold>\<open>Not modelled.\<close> Log output; the random engine itself; exceptions of memory
  allocation; several threads in one scheduler (the server runs one); moving
  timers between services;
  datagrams, cancellation slots, regular expressions and buffers over vectors and streams, which the
  program does not use; the
  other platforms of Asio; executors, associated objects and the template glue between the layers;
  the unit tests and build files.
\<close>

end
